(* ===== verification/Go_Prelude.thy ===== *)
theory Go_Prelude
  imports Complex_Main "HOL-Library.AList" "HOL-Library.Char_ord" "HOL-Library.Sublist"
begin

text \<open>
  Shared ground of the development: the fragment of Go and of its standard library that the
  modelled components use.

  \<^item> A Go \<open>string\<close> is a byte sequence, modelled as the HOL type \<^typ>\<open>string\<close> (a list of 8-bit
    characters).  \<open>len\<close> is \<^const>\<open>length\<close>, indexing and slicing are on bytes.
  \<^item> Go's \<open>int\<close>, \<open>int64\<close> and \<open>time.Duration\<close> are \<^typ>\<open>int\<close>; where a width matters the component says so.
  \<^item> A Go \<open>map[K]V\<close> is an association list with distinct keys (\<open>gomap\<close>).  Go leaves the
    iteration order of a map unspecified; a loop \<open>for k, v := range m\<close> is a recursion over the
    list, and a theorem about every such list covers every iteration order.
  \<^item> A reading of the clock (\<open>time.Now()\<close>) is an argument of the operation that performs it.
\<close>

section \<open>Collections of facts\<close>

named_theorems go_string \<open>characteristic facts of the string functions\<close>
named_theorems gomap_simps \<open>lookup and well-formedness facts of Go maps\<close>

section \<open>Go maps\<close>

type_synonym ('k, 'v) gomap = "('k \<times> 'v) list"

definition gm_wf :: "('k, 'v) gomap \<Rightarrow> bool" where
  "gm_wf m \<longleftrightarrow> distinct (map fst m)"

abbreviation gm_get :: "('k, 'v) gomap \<Rightarrow> 'k \<Rightarrow> 'v option" where
  "gm_get \<equiv> map_of"

abbreviation gm_set :: "'k \<Rightarrow> 'v \<Rightarrow> ('k, 'v) gomap \<Rightarrow> ('k, 'v) gomap" where
  "gm_set \<equiv> AList.update"

abbreviation gm_del :: "'k \<Rightarrow> ('k, 'v) gomap \<Rightarrow> ('k, 'v) gomap" where
  "gm_del \<equiv> AList.delete"

abbreviation gm_keys :: "('k, 'v) gomap \<Rightarrow> 'k set" where
  "gm_keys m \<equiv> fst ` set m"

text \<open>\<open>m[k]\<close> for an absent key yields the zero value of the element type.\<close>

definition gm_get_or :: "'v \<Rightarrow> ('k, 'v) gomap \<Rightarrow> 'k \<Rightarrow> 'v" where
  "gm_get_or z m k = (case gm_get m k of None \<Rightarrow> z | Some v \<Rightarrow> v)"

text \<open>A write through a pointer that the map holds under key \<open>k\<close>: no effect when the key is gone.\<close>

definition gm_modify :: "'k \<Rightarrow> ('v \<Rightarrow> 'v) \<Rightarrow> ('k, 'v) gomap \<Rightarrow> ('k, 'v) gomap" where
  "gm_modify k f m = map (\<lambda>(k', v). (k', if k' = k then f v else v)) m"

lemma gm_wf_Nil [simp]: "gm_wf []"
  by (simp add: gm_wf_def)

lemma gm_wf_set [simp, intro]: "gm_wf m \<Longrightarrow> gm_wf (gm_set k v m)"
  by (simp add: gm_wf_def distinct_update)

lemma gm_wf_del [simp, intro]: "gm_wf m \<Longrightarrow> gm_wf (gm_del k m)"
  by (simp add: gm_wf_def distinct_delete)

lemma gm_wf_filter [simp, intro]: "gm_wf m \<Longrightarrow> gm_wf (filter P m)"
  by (simp add: gm_wf_def distinct_map_filter)

lemma gm_get_set [gomap_simps]: "gm_get (gm_set k v m) k' = (if k' = k then Some v else gm_get m k')"
  by (simp add: update_conv')

lemma gm_get_del [gomap_simps]: "gm_get (gm_del k m) k' = (if k' = k then None else gm_get m k')"
  by (simp add: delete_conv')

lemma gm_get_fun:
  "gm_get (gm_set k v m) = (gm_get m)(k \<mapsto> v)" "gm_get (gm_del k m) = (gm_get m)(k := None)"
  by (auto simp: fun_eq_iff gomap_simps)

lemma gm_get_map_values [gomap_simps]:
  "gm_get (map (\<lambda>(k, v). (k, f v)) m) k = map_option f (gm_get m k)"
  by (induction m) auto

lemma gm_get_modify [gomap_simps]:
  "gm_get (gm_modify k f m) k' = (if k' = k then map_option f (gm_get m k) else gm_get m k')"
  unfolding gm_modify_def by (induction m) auto

lemma keys_gm_modify [simp]: "map fst (gm_modify k f m) = map fst m"
  unfolding gm_modify_def by (induction m) auto

lemma gm_wf_modify [simp]: "gm_wf (gm_modify k f m) = gm_wf m"
  by (simp add: gm_wf_def)

lemma gm_get_filter [gomap_simps]:
  "gm_wf m \<Longrightarrow> gm_get (filter (\<lambda>(k, v). P k v) m) k =
     (case gm_get m k of None \<Rightarrow> None | Some v \<Rightarrow> if P k v then Some v else None)"
proof (induction m)
  case Nil
  then show ?case by simp
next
  case (Cons x m)
  obtain k' v' where x: "x = (k', v')" by (cases x)
  from Cons.prems x have "gm_wf m" and notin: "k' \<notin> fst ` set m"
    by (simp_all add: gm_wf_def)
  from notin have "gm_get m k' = None" by (simp add: map_of_eq_None_iff)
  with Cons.IH [OF \<open>gm_wf m\<close>] x show ?case
    by (auto split: option.splits if_splits)
qed

lemma gm_get_in_set: "gm_get m k = Some v \<Longrightarrow> (k, v) \<in> set m"
  by (rule map_of_SomeD)

lemma gm_get_eq_iff: "gm_wf m \<Longrightarrow> gm_get m k = Some v \<longleftrightarrow> (k, v) \<in> set m"
  by (simp add: gm_wf_def)

text \<open>A loop over a map that deletes the entries whose value satisfies \<open>P\<close>.\<close>

lemma gm_delete_loop:
  assumes "gm_wf its"
  shows "fold (\<lambda>(k, v) its. if P v then gm_del k its else its) its its = filter (\<lambda>(k, v). \<not> P v) its"
proof -
  have "fold (\<lambda>(k, v) its. if P v then gm_del k its else its) xs ys =
      filter (\<lambda>(k, v). k \<notin> fst ` {e \<in> set xs. P (snd e)}) ys" for xs :: "('a \<times> 'b) list" and ys
  proof (induction xs arbitrary: ys)
    case (Cons x xs)
    have "{e \<in> set (x # xs). P (snd e)} =
        (if P (snd x) then insert x {e \<in> set xs. P (snd e)} else {e \<in> set xs. P (snd e)})" by auto
    with Cons.IH show ?case
      by (simp add: AList.delete_eq case_prod_beta' eq_commute [of "fst x"])
  qed simp
  also have "filter (\<lambda>(k, v). k \<notin> fst ` {e \<in> set its. P (snd e)}) its = filter (\<lambda>(k, v). \<not> P v) its"
    using assms by (intro filter_cong) (auto simp: gm_wf_def image_iff dest: eq_key_imp_eq_value)
  finally show ?thesis .
qed

section \<open>Integer division\<close>

text \<open>Go's \<open>/\<close> and \<open>%\<close> on integers truncate towards zero.\<close>

definition go_quot :: "int \<Rightarrow> int \<Rightarrow> int" where
  "go_quot a b = sgn a * sgn b * (\<bar>a\<bar> div \<bar>b\<bar>)"

definition go_rem :: "int \<Rightarrow> int \<Rightarrow> int" where
  "go_rem a b = a - go_quot a b * b"

lemma go_quot_nonneg [simp]: "0 \<le> a \<Longrightarrow> 0 < b \<Longrightarrow> go_quot a b = a div b"
  by (cases "a = 0") (simp_all add: go_quot_def)

lemma go_rem_nonneg [simp]: "0 \<le> a \<Longrightarrow> 0 < b \<Longrightarrow> go_rem a b = a mod b"
  by (simp add: go_rem_def minus_div_mult_eq_mod)

text \<open>Two positions less than a whole turn apart are different positions of a circular buffer.\<close>

lemma mod_neq_within:
  fixes i l n :: nat
  assumes "i < l" and "l < i + n"
  shows "i mod n \<noteq> l mod n"
proof
  assume "i mod n = l mod n"
  then have "n dvd l - i" using assms(1) by (metis less_imp_le mod_eq_dvd_iff_nat)
  then show False using assms by (auto dest: dvd_imp_le)
qed

section \<open>Bytes and strings\<close>

abbreviation ord_of :: "char \<Rightarrow> nat" where
  "ord_of c \<equiv> of_char c"

text \<open>\<open>strings.HasPrefix\<close>, \<open>HasSuffix\<close>, \<open>TrimPrefix\<close>, \<open>TrimSuffix\<close>, \<open>CutSuffix\<close>.\<close>

definition HasPrefix :: "string \<Rightarrow> string \<Rightarrow> bool" where
  "HasPrefix s p \<longleftrightarrow> take (length p) s = p"

definition HasSuffix :: "string \<Rightarrow> string \<Rightarrow> bool" where
  "HasSuffix s p \<longleftrightarrow> length p \<le> length s \<and> drop (length s - length p) s = p"

definition TrimPrefix :: "string \<Rightarrow> string \<Rightarrow> string" where
  "TrimPrefix s p = (if HasPrefix s p then drop (length p) s else s)"

definition TrimSuffix :: "string \<Rightarrow> string \<Rightarrow> string" where
  "TrimSuffix s p = (if HasSuffix s p then take (length s - length p) s else s)"

lemma HasPrefix_iff [go_string]: "HasPrefix s p \<longleftrightarrow> prefix p s"
  by (auto simp: HasPrefix_def prefix_def) (metis append_take_drop_id)

lemma HasSuffix_iff [go_string]: "HasSuffix s p \<longleftrightarrow> suffix p s"
proof
  assume "HasSuffix s p"
  then show "suffix p s" by (metis HasSuffix_def suffix_drop)
next
  assume "suffix p s"
  then show "HasSuffix s p" by (auto simp: HasSuffix_def suffix_def)
qed

lemma TrimPrefix_append [simp]: "TrimPrefix (p @ s) p = s"
  by (simp add: TrimPrefix_def HasPrefix_def)

lemma TrimSuffix_append [simp]: "TrimSuffix (s @ p) p = s"
  by (simp add: TrimSuffix_def HasSuffix_def)

text \<open>\<open>strings.IndexByte\<close>: the first position of a byte, \<open>None\<close> for \<open>-1\<close>.\<close>

fun IndexByte :: "string \<Rightarrow> char \<Rightarrow> nat option" where
  "IndexByte [] b = None"
| "IndexByte (c # s) b = (if c = b then Some 0 else map_option Suc (IndexByte s b))"

lemma IndexByte_None_iff [go_string]: "IndexByte s b = None \<longleftrightarrow> b \<notin> set s"
  by (induction s) auto

lemma IndexByte_SomeD:
  "IndexByte s b = Some i \<Longrightarrow> s = take i s @ b # drop (Suc i) s \<and> b \<notin> set (take i s) \<and> i < length s"
  by (induction s arbitrary: i) (auto split: if_splits)

lemma split_first_unique:
  assumes "p @ b # s = p' @ b # s'" and "b \<notin> set p" and "b \<notin> set p'"
  shows "p' = p \<and> s' = s"
proof -
  have first: "takeWhile (\<lambda>c. c \<noteq> b) (q @ b # t) = q" if "b \<notin> set q" for q t
    using that by (induction q) auto
  from assms have "p' = p" by (metis first)
  with assms(1) show ?thesis by simp
qed

lemma IndexByte_append [simp]: "b \<notin> set p \<Longrightarrow> IndexByte (p @ b # s) b = Some (length p)"
  by (induction p) auto

text \<open>\<open>strings.Join\<close>.\<close>

fun Join :: "string list \<Rightarrow> string \<Rightarrow> string" where
  "Join [] sep = []"
| "Join [x] sep = x"
| "Join (x # y # xs) sep = x @ sep @ Join (y # xs) sep"

section \<open>Panics and slices\<close>

text \<open>
  A run-time panic is a value of the model: an operation that can panic returns a sum with the
  panic on the left.
\<close>

datatype panic = IndexOutOfRange | DivideByZero | NilDereference | ExplicitPanic string

text \<open>\<open>copy(dst[off:], src)\<close> overwrites as many elements as both slices have.\<close>

definition go_copy :: "'a list \<Rightarrow> nat \<Rightarrow> 'a list \<Rightarrow> 'a list" where
  "go_copy dst off src =
     take off dst @ take (length dst - off) src @ drop (off + length src) dst"

lemma length_go_copy [simp]: "off \<le> length dst \<Longrightarrow> length (go_copy dst off src) = length dst"
  by (simp add: go_copy_def)

lemma go_copy_append: "length xs = off \<Longrightarrow> length src \<le> length ys \<Longrightarrow>
    go_copy (xs @ ys) off src = xs @ src @ drop (length src) ys"
  by (simp add: go_copy_def)

text \<open>The last \<open>n\<close> elements of a list.\<close>

definition take_last :: "nat \<Rightarrow> 'a list \<Rightarrow> 'a list" where
  "take_last n xs = drop (length xs - n) xs"

end
