(* ===== verification/Consistent_Hash.thy ===== *)
theory Consistent_Hash
  imports Go_Strings "HOL-Library.Multiset"
begin

text \<open>
  The consistent hash ring (\<open>src/infra/hash/consistenthash.go\<close>). Nodes and looked-up values are strings, which represent
  themselves; the hash of a byte string is a parameter. The theory shows that, as long as no two virtual nodes share a
  name or a hash, the ring implements the textbook scheme: a value belongs to the node of the next point on the circle,
  and adding or removing a node moves only values from or to this node. It also shows that without this condition
  removing a node can break the ring so that every lookup panics.
\<close>

subsection \<open>The ring\<close>

definition TopWeight :: int where
  "TopWeight = 100"

definition minReplicas :: int where
  "minReplicas = 100"

record ConsistentHash =
  replicas :: int
  ch_keys :: "nat list"
  ring :: "(nat, string list) gomap"
  ch_nodes :: "(string, unit) gomap"

definition NewCustomConsistentHash :: "int \<Rightarrow> ConsistentHash" where
  "NewCustomConsistentHash n = \<lparr>replicas = (if n < minReplicas then minReplicas else n), ch_keys = [], ring = [], ch_nodes = []\<rparr>"

definition NewConsistentHash :: ConsistentHash where
  "NewConsistentHash = NewCustomConsistentHash minReplicas"

text \<open>\<open>sort.Search\<close>: binary search for the first index at which a monotone predicate holds.\<close>

function search_loop :: "(nat \<Rightarrow> bool) \<Rightarrow> nat \<Rightarrow> nat \<Rightarrow> nat" where
  "search_loop f i j = (if i < j then let h = (i + j) div 2 in if \<not> f h then search_loop f (h + 1) j else search_loop f i h else i)"
  by auto
termination
  by (relation "measure (\<lambda>(f, i, j). j - i)") auto

declare search_loop.simps [simp del]

definition sort_Search :: "nat \<Rightarrow> (nat \<Rightarrow> bool) \<Rightarrow> nat" where
  "sort_Search n f = search_loop f 0 n"

definition containsNode :: "string \<Rightarrow> ConsistentHash \<Rightarrow> bool" where
  "containsNode nodeRepr h \<longleftrightarrow> gm_get (ch_nodes h) nodeRepr \<noteq> None"

definition addNode :: "string \<Rightarrow> ConsistentHash \<Rightarrow> ConsistentHash" where
  "addNode nodeRepr h = h\<lparr>ch_nodes := gm_set nodeRepr () (ch_nodes h)\<rparr>"

definition removeNode :: "string \<Rightarrow> ConsistentHash \<Rightarrow> ConsistentHash" where
  "removeNode nodeRepr h = h\<lparr>ch_nodes := gm_del nodeRepr (ch_nodes h)\<rparr>"

definition removeRingNode :: "nat \<Rightarrow> string \<Rightarrow> ConsistentHash \<Rightarrow> ConsistentHash" where
  "removeRingNode hv nodeRepr h = (case gm_get (ring h) hv of
     None \<Rightarrow> h
   | Some nodes \<Rightarrow> let newNodes = filter (\<lambda>x. x \<noteq> nodeRepr) nodes in
       if 0 < length newNodes then h\<lparr>ring := gm_set hv newNodes (ring h)\<rparr> else h\<lparr>ring := gm_del hv (ring h)\<rparr>)"

text \<open>The hash of a virtual node, and one round of the loop of \<open>Remove\<close>.\<close>

definition vhash :: "(string \<Rightarrow> nat) \<Rightarrow> string \<Rightarrow> nat \<Rightarrow> nat" where
  "vhash hash node i = hash (node @ Itoa (int i))"

definition remove_replica :: "nat \<Rightarrow> string \<Rightarrow> ConsistentHash \<Rightarrow> ConsistentHash" where
  "remove_replica hv nodeRepr h =
     (let index = sort_Search (length (ch_keys h)) (\<lambda>i. hv \<le> ch_keys h ! i);
          h1 = (if index < length (ch_keys h) \<and> ch_keys h ! index = hv
                then h\<lparr>ch_keys := take index (ch_keys h) @ drop (index + 1) (ch_keys h)\<rparr> else h)
      in removeRingNode hv nodeRepr h1)"

definition Remove :: "(string \<Rightarrow> nat) \<Rightarrow> string \<Rightarrow> ConsistentHash \<Rightarrow> ConsistentHash" where
  "Remove hash node h = (if \<not> containsNode node h then h
     else removeNode node (fold (\<lambda>i. remove_replica (vhash hash node i) node) [0..<nat (replicas h)] h))"

definition add_replica :: "nat \<Rightarrow> string \<Rightarrow> ConsistentHash \<Rightarrow> ConsistentHash" where
  "add_replica hv node h = h\<lparr>ch_keys := ch_keys h @ [hv], ring := gm_set hv (gm_get_or [] (ring h) hv @ [node]) (ring h)\<rparr>"

definition AddWithReplicas :: "(string \<Rightarrow> nat) \<Rightarrow> string \<Rightarrow> int \<Rightarrow> ConsistentHash \<Rightarrow> ConsistentHash" where
  "AddWithReplicas hash node n h =
     (let h1 = Remove hash node h;
          r = (if n > replicas h1 then replicas h1 else n);
          h2 = fold (\<lambda>i. add_replica (vhash hash node i) node) [0..<nat r] (addNode node h1)
      in h2\<lparr>ch_keys := sort (ch_keys h2)\<rparr>)"

definition ConsistentHash_Add :: "(string \<Rightarrow> nat) \<Rightarrow> string \<Rightarrow> ConsistentHash \<Rightarrow> ConsistentHash" where
  "ConsistentHash_Add hash node h = AddWithReplicas hash node (replicas h) h"

definition AddWithWeight :: "(string \<Rightarrow> nat) \<Rightarrow> string \<Rightarrow> int \<Rightarrow> ConsistentHash \<Rightarrow> ConsistentHash" where
  "AddWithWeight hash node weight h = AddWithReplicas hash node (go_quot (replicas h * weight) TopWeight) h"

definition innerRepr :: "string \<Rightarrow> string" where
  "innerRepr node = ''16777619:'' @ node"

definition ConsistentHash_Get :: "(string \<Rightarrow> nat) \<Rightarrow> string \<Rightarrow> ConsistentHash \<Rightarrow> panic + string option" where
  "ConsistentHash_Get hash v h =
     (if ring h = [] then Inr None
      else let hv = hash v in
        if ch_keys h = [] then Inl DivideByZero
        else let index = sort_Search (length (ch_keys h)) (\<lambda>i. hv \<le> ch_keys h ! i) mod length (ch_keys h);
                 nodes = gm_get_or [] (ring h) (ch_keys h ! index)
             in case nodes of
                  [] \<Rightarrow> Inr None
                | [n] \<Rightarrow> Inr (Some n)
                | _ \<Rightarrow> Inr (Some (nodes ! (hash (innerRepr v) mod length nodes))))"

subsection \<open>Binary search\<close>

lemma search_loop_correct:
  assumes "\<And>a b. a \<le> b \<Longrightarrow> b < n \<Longrightarrow> f a \<Longrightarrow> f b" "i \<le> j" "j \<le> n"
    "\<And>a. a < i \<Longrightarrow> \<not> f a" "\<And>a. j \<le> a \<Longrightarrow> a < n \<Longrightarrow> f a"
  shows "search_loop f i j \<le> n \<and> (\<forall>a < search_loop f i j. \<not> f a) \<and> (\<forall>a. search_loop f i j \<le> a \<longrightarrow> a < n \<longrightarrow> f a)"
  using assms
proof (induction f i j rule: search_loop.induct)
  case (1 f i j)
  show ?case
  proof (cases "i < j")
    case True
    let ?h = "(i + j) div 2"
    have h: "i \<le> ?h" "?h < j" using True by auto
    show ?thesis
    proof (cases "f ?h")
      case False
      have lo: "\<not> f a" if "a < ?h + 1" for a using that False 1(3) [of a ?h] h(2) 1(5) by auto
      have le: "?h + 1 \<le> j" using h(2) by simp
      have "search_loop f (?h + 1) j \<le> n \<and> (\<forall>a < search_loop f (?h + 1) j. \<not> f a) \<and> (\<forall>a. search_loop f (?h + 1) j \<le> a \<longrightarrow> a < n \<longrightarrow> f a)"
        by (rule 1(1) [OF True refl False 1(3) le 1(5) lo 1(7)])
      then show ?thesis using True False by (simp add: search_loop.simps [of f i j] Let_def)
    next
      case True': True
      have hi: "f a" if "?h \<le> a" "a < n" for a using that True' 1(3) [of ?h a] by auto
      have le: "?h \<le> n" and nn: "\<not> \<not> f ?h" using h(2) 1(5) True' by simp_all
      have "search_loop f i ?h \<le> n \<and> (\<forall>a < search_loop f i ?h. \<not> f a) \<and> (\<forall>a. search_loop f i ?h \<le> a \<longrightarrow> a < n \<longrightarrow> f a)"
        by (rule 1(2) [OF True refl nn 1(3) h(1) le 1(6) hi])
      then show ?thesis using True True' by (simp add: search_loop.simps [of f i j] Let_def)
    qed
  next
    case False
    then have "i = j" using 1(4) by simp
    then show ?thesis using 1(5,6,7) by (simp add: search_loop.simps [of f j j])
  qed
qed

text \<open>On sorted keys the search finds the first key that is not smaller.\<close>

lemma search_sorted:
  fixes x :: nat
  assumes "sorted ks"
  defines "r \<equiv> sort_Search (length ks) (\<lambda>i. x \<le> ks ! i)"
  shows "r \<le> length ks" "\<And>i. i < r \<Longrightarrow> ks ! i < x" "\<And>i. r \<le> i \<Longrightarrow> i < length ks \<Longrightarrow> x \<le> ks ! i"
proof -
  have mono: "x \<le> ks ! b" if "a \<le> b" "b < length ks" "x \<le> ks ! a" for a b
    using that(3) sorted_nth_mono [OF assms(1) that(1,2)] by (rule order_trans)
  have "r \<le> length ks \<and> (\<forall>a < r. \<not> x \<le> ks ! a) \<and> (\<forall>a. r \<le> a \<longrightarrow> a < length ks \<longrightarrow> x \<le> ks ! a)"
    unfolding r_def sort_Search_def by (rule search_loop_correct [OF mono]) simp_all
  then show "r \<le> length ks" "\<And>i. i < r \<Longrightarrow> ks ! i < x" "\<And>i. r \<le> i \<Longrightarrow> i < length ks \<Longrightarrow> x \<le> ks ! i"
    unfolding not_le by blast+
qed

subsection \<open>The points on the circle\<close>

text \<open>The keys and the ring represent a set of points, each with the node it belongs to.\<close>

definition ring_ok :: "(nat \<times> string) set \<Rightarrow> ConsistentHash \<Rightarrow> bool" where
  "ring_ok P h \<longleftrightarrow> distinct (ch_keys h) \<and> set (ch_keys h) = fst ` P \<and>
     (\<forall>k ns. gm_get (ring h) k = Some ns \<longleftrightarrow> (\<exists>n. (k, n) \<in> P \<and> ns = [n]))"

definition same_rest :: "ConsistentHash \<Rightarrow> ConsistentHash \<Rightarrow> bool" where
  "same_rest h h' \<longleftrightarrow> replicas h' = replicas h \<and> ch_nodes h' = ch_nodes h"

lemma set_remove_index: "distinct xs \<Longrightarrow> i < length xs \<Longrightarrow> set (take i xs @ drop (i + 1) xs) = set xs - {xs ! i}"
proof -
  assume d: "distinct xs" and i: "i < length xs"
  have xs: "xs = take i xs @ xs ! i # drop (i + 1) xs" using id_take_nth_drop [OF i] by simp
  then have "distinct (take i xs @ xs ! i # drop (i + 1) xs)" using d by simp
  then have "xs ! i \<notin> set (take i xs @ drop (i + 1) xs)" by simp
  moreover have "set xs = insert (xs ! i) (set (take i xs @ drop (i + 1) xs))"
  proof -
    have "set xs = set (take i xs @ xs ! i # drop (i + 1) xs)" using xs by simp
    then show ?thesis by simp
  qed
  ultimately show ?thesis by blast
qed

lemma sorted_remove_index: "sorted xs \<Longrightarrow> sorted (take i xs @ drop (i + 1) xs)" "distinct xs \<Longrightarrow> distinct (take i xs @ drop (i + 1) xs)"
proof -
  show "sorted (take i xs @ drop (i + 1) xs)" if "sorted xs"
    using that set_take_subset_set_take [of i "i + 1" xs] sorted_append [of "take (i + 1) xs" "drop (i + 1) xs"]
    by (auto simp: sorted_append sorted_wrt_take sorted_wrt_drop)
  show "distinct (take i xs @ drop (i + 1) xs)" if "distinct xs"
    using that set_take_disj_set_drop_if_distinct [OF that, of i "i + 1"] by auto
qed

lemma search_member:
  fixes ks :: "nat list"
  assumes "sorted ks" "hv \<in> set ks"
  defines "r \<equiv> sort_Search (length ks) (\<lambda>i. hv \<le> ks ! i)"
  shows "r < length ks \<and> ks ! r = hv"
proof -
  note s = search_sorted [OF assms(1), where x = hv, folded r_def]
  obtain i where i: "i < length ks" "ks ! i = hv" using assms(2) by (auto simp: in_set_conv_nth)
  have ri: "r \<le> i" using s(2) [of i] unfolding i(2) by (meson less_irrefl not_le)
  then have r: "r < length ks" using i(1) by (rule order.strict_trans1)
  have "ks ! r \<le> hv" using sorted_nth_mono [OF assms(1) ri i(1)] unfolding i(2) .
  moreover have "hv \<le> ks ! r" using s(3) [OF order_refl r] .
  ultimately have "ks ! r = hv" by (rule antisym)
  with r show ?thesis by (rule conjI)
qed

lemma remove_replica_ok:
  assumes ok: "ring_ok P h" and srt: "sorted (ch_keys h)" and own: "\<And>n'. (hv, n') \<in> P \<Longrightarrow> n' = n"
  shows "ring_ok (P - {(hv, n)}) (remove_replica hv n h) \<and> sorted (ch_keys (remove_replica hv n h)) \<and> same_rest h (remove_replica hv n h)"
proof -
  have dis: "distinct (ch_keys h)" and ks: "set (ch_keys h) = fst ` P"
    and rg: "\<And>k ns. gm_get (ring h) k = Some ns \<longleftrightarrow> (\<exists>n. (k, n) \<in> P \<and> ns = [n])"
    using ok unfolding ring_ok_def by blast+
  let ?r = "sort_Search (length (ch_keys h)) (\<lambda>i. hv \<le> ch_keys h ! i)"
  show ?thesis
  proof (cases "(hv, n) \<in> P")
    case True
    then have "hv \<in> set (ch_keys h)" unfolding ks by (rule image_eqI [rotated]) simp
    then have r: "?r < length (ch_keys h)" "ch_keys h ! ?r = hv" using search_member [OF srt] by blast+
    have g: "gm_get (ring h) hv = Some [n]" using rg True by blast
    have e: "remove_replica hv n h = h\<lparr>ch_keys := take ?r (ch_keys h) @ drop (?r + 1) (ch_keys h), ring := gm_del hv (ring h)\<rparr>"
      using r g by (simp add: remove_replica_def removeRingNode_def Let_def)
    have f: "fst ` (P - {(hv, n)}) = fst ` P - {hv}"
    proof (intro equalityI subsetI)
      fix k assume "k \<in> fst ` (P - {(hv, n)})"
      then obtain x where "x \<in> P" "x \<noteq> (hv, n)" "k = fst x" by blast
      then obtain m where "(k, m) \<in> P" "(k, m) \<noteq> (hv, n)" by (metis prod.collapse)
      then show "k \<in> fst ` P - {hv}" using own [of m] by (auto intro: image_eqI [rotated])
    next
      fix k assume "k \<in> fst ` P - {hv}"
      then obtain m where "(k, m) \<in> P" "k \<noteq> hv" by auto
      then show "k \<in> fst ` (P - {(hv, n)})" by (intro image_eqI [of k fst "(k, m)"]) auto
    qed
    have "gm_get (gm_del hv (ring h)) k = Some ns \<longleftrightarrow> (\<exists>m. (k, m) \<in> P - {(hv, n)} \<and> ns = [m])" for k ns
    proof (cases "k = hv")
      case True
      then show ?thesis using own by (auto simp: gomap_simps)
    next
      case False
      then show ?thesis using rg [of k ns] by (simp add: gomap_simps)
    qed
    moreover have "set (take ?r (ch_keys h) @ drop (?r + 1) (ch_keys h)) = fst ` (P - {(hv, n)})"
      unfolding set_remove_index [OF dis r(1)] f ks r(2) ..
    ultimately show ?thesis using sorted_remove_index(1) [OF srt] sorted_remove_index(2) [OF dis] unfolding e ring_ok_def same_rest_def by simp
  next
    case False
    then have no: "(hv, m) \<notin> P" for m using own by blast
    then have "hv \<notin> set (ch_keys h)" unfolding ks by auto
    then have "\<not> (?r < length (ch_keys h) \<and> ch_keys h ! ?r = hv)" using nth_mem by metis
    moreover have "gm_get (ring h) hv = None" using rg no by (cases "gm_get (ring h) hv") blast+
    ultimately have "remove_replica hv n h = h" unfolding remove_replica_def removeRingNode_def Let_def if_not_P by (subst if_not_P) simp_all
    then show ?thesis using ok srt False by (simp add: same_rest_def)
  qed
qed

lemma remove_all_ok:
  assumes "ring_ok P h" "sorted (ch_keys h)" "\<And>i n'. i \<in> set js \<Longrightarrow> (f i, n') \<in> P \<Longrightarrow> n' = n"
  shows "ring_ok (P - (\<lambda>i. (f i, n)) ` set js) (fold (\<lambda>i. remove_replica (f i) n) js h) \<and>
    sorted (ch_keys (fold (\<lambda>i. remove_replica (f i) n) js h)) \<and> same_rest h (fold (\<lambda>i. remove_replica (f i) n) js h)"
  using assms
proof (induction js arbitrary: h P)
  case Nil
  then show ?case by (simp add: same_rest_def)
next
  case (Cons i js)
  let ?h = "remove_replica (f i) n h"
  have s: "ring_ok (P - {(f i, n)}) ?h" "sorted (ch_keys ?h)" "same_rest h ?h" using remove_replica_ok [OF Cons(2,3)] Cons(4) by auto
  have "P - (\<lambda>i. (f i, n)) ` set (i # js) = P - {(f i, n)} - (\<lambda>i. (f i, n)) ` set js" by auto
  then show ?case using Cons(1) [OF s(1,2)] Cons(4) s(3) by (auto simp: same_rest_def)
qed

lemma add_all_ok:
  assumes "ring_ok P h" "\<And>i. i \<in> set js \<Longrightarrow> f i \<notin> fst ` P" "distinct (map f js)"
  shows "ring_ok (P \<union> (\<lambda>i. (f i, n)) ` set js) (fold (\<lambda>i. add_replica (f i) n) js h) \<and> same_rest h (fold (\<lambda>i. add_replica (f i) n) js h)"
  using assms
proof (induction js arbitrary: h P)
  case Nil
  then show ?case by (simp add: same_rest_def)
next
  case (Cons i js)
  have dis: "distinct (ch_keys h)" and ks: "set (ch_keys h) = fst ` P"
    and rg: "\<And>k ns. gm_get (ring h) k = Some ns \<longleftrightarrow> (\<exists>n. (k, n) \<in> P \<and> ns = [n])"
    using Cons(2) unfolding ring_ok_def by blast+
  let ?h = "add_replica (f i) n h"
  have new: "f i \<notin> fst ` P" using Cons(3) by simp
  then have no: "(f i, m) \<notin> P" for m by (metis fst_conv imageI)
  then have "gm_get (ring h) (f i) = None" using rg by (cases "gm_get (ring h) (f i)") blast+
  then have e: "?h = h\<lparr>ch_keys := ch_keys h @ [f i], ring := gm_set (f i) [n] (ring h)\<rparr>"
    by (simp add: add_replica_def gm_get_or_def)
  have "gm_get (gm_set (f i) [n] (ring h)) k = Some ns \<longleftrightarrow> (\<exists>m. (k, m) \<in> insert (f i, n) P \<and> ns = [m])" for k ns
    using rg [of k ns] no by (cases "k = f i") (auto simp: gomap_simps)
  then have "ring_ok (insert (f i, n) P) ?h" using dis ks new unfolding e ring_ok_def by simp
  moreover have "f j \<notin> fst ` insert (f i, n) P" if "j \<in> set js" for j
  proof -
    have "f j \<in> f ` set js" using that by (rule imageI)
    then have "f j \<noteq> f i" using Cons(4) by (metis distinct.simps(2) list.set_map list.simps(9))
    then show ?thesis using Cons(3) [of j] that by simp
  qed
  ultimately show ?case using Cons(1) [of "insert (f i, n) P" ?h] Cons(4) by (auto simp: same_rest_def add_replica_def)
qed

subsection \<open>The textbook scheme\<close>

text \<open>
  The abstract state is a table of the nodes with their numbers of virtual nodes; the circle holds the points of all
  virtual nodes, and a position belongs to the next point clockwise.
\<close>

datatype ch_op = CAdd string | CAddReplicas string int | CAddWeight string int | CRemove string

primrec ch_node :: "ch_op \<Rightarrow> string" where
  "ch_node (CAdd n) = n"
| "ch_node (CAddReplicas n _) = n"
| "ch_node (CAddWeight n _) = n"
| "ch_node (CRemove n) = n"

primrec ch_apply :: "(string \<Rightarrow> nat) \<Rightarrow> ch_op \<Rightarrow> ConsistentHash \<Rightarrow> ConsistentHash" where
  "ch_apply hash (CAdd n) h = ConsistentHash_Add hash n h"
| "ch_apply hash (CAddReplicas n r) h = AddWithReplicas hash n r h"
| "ch_apply hash (CAddWeight n w) h = AddWithWeight hash n w h"
| "ch_apply hash (CRemove n) h = Remove hash n h"

primrec table_apply :: "int \<Rightarrow> ch_op \<Rightarrow> (string \<rightharpoonup> nat) \<Rightarrow> (string \<rightharpoonup> nat)" where
  "table_apply R (CAdd n) T = T(n \<mapsto> nat R)"
| "table_apply R (CAddReplicas n r) T = T(n \<mapsto> nat (min r R))"
| "table_apply R (CAddWeight n w) T = T(n \<mapsto> nat (min (go_quot (R * w) 100) R))"
| "table_apply R (CRemove n) T = T(n := None)"

definition ch_run :: "(string \<Rightarrow> nat) \<Rightarrow> int \<Rightarrow> ch_op list \<Rightarrow> ConsistentHash" where
  "ch_run hash n ops = fold (ch_apply hash) ops (NewCustomConsistentHash n)"

definition table_run :: "int \<Rightarrow> ch_op list \<Rightarrow> (string \<rightharpoonup> nat)" where
  "table_run n ops = fold (table_apply (max n 100)) ops Map.empty"

definition points :: "(string \<Rightarrow> nat) \<Rightarrow> (string \<rightharpoonup> nat) \<Rightarrow> (nat \<times> string) set" where
  "points hash T = {(vhash hash n i, n) | n i. \<exists>r. T n = Some r \<and> i < r}"

definition next_point :: "nat \<Rightarrow> nat set \<Rightarrow> nat \<Rightarrow> bool" where
  "next_point x K k \<longleftrightarrow> k \<in> K \<and>
     (if \<exists>j \<in> K. x \<le> j then x \<le> k \<and> (\<forall>j \<in> K. x \<le> j \<longrightarrow> k \<le> j) else \<forall>j \<in> K. k \<le> j)"

definition belongs :: "(nat \<times> string) set \<Rightarrow> nat \<Rightarrow> string \<Rightarrow> bool" where
  "belongs P x n \<longleftrightarrow> (\<exists>k. next_point x (fst ` P) k \<and> (k, n) \<in> P)"

text \<open>No two virtual nodes of the nodes in use have the same hash (so in particular not the same name).\<close>

definition no_clash :: "(string \<Rightarrow> nat) \<Rightarrow> int \<Rightarrow> string set \<Rightarrow> bool" where
  "no_clash hash R U \<longleftrightarrow> inj_on (\<lambda>(n, i). vhash hash n i) (U \<times> {..<nat R})"

definition ch_ok :: "(string \<Rightarrow> nat) \<Rightarrow> int \<Rightarrow> string set \<Rightarrow> (string \<rightharpoonup> nat) \<Rightarrow> ConsistentHash \<Rightarrow> bool" where
  "ch_ok hash R U T h \<longleftrightarrow> ring_ok (points hash T) h \<and> sorted (ch_keys h) \<and> replicas h = R \<and>
     (\<forall>n. gm_get (ch_nodes h) n = None \<longleftrightarrow> T n = None) \<and> dom T \<subseteq> U \<and> (\<forall>n r. T n = Some r \<longrightarrow> r \<le> nat R)"

lemma mem_points: "(k, n) \<in> points hash T \<longleftrightarrow> (\<exists>i r. k = vhash hash n i \<and> T n = Some r \<and> i < r)"
  by (auto simp: points_def)

lemma no_clashD: "no_clash hash R U \<Longrightarrow> n \<in> U \<Longrightarrow> m \<in> U \<Longrightarrow> i < nat R \<Longrightarrow> j < nat R \<Longrightarrow>
    vhash hash n i = vhash hash m j \<Longrightarrow> n = m \<and> i = j"
  unfolding no_clash_def by (drule inj_onD [of _ _ "(n, i)" "(m, j)"]) auto

lemma point_owner:
  assumes "no_clash hash R U" "dom T \<subseteq> U" "\<forall>n r. T n = Some r \<longrightarrow> r \<le> nat R" "n \<in> U" "i < nat R" "(vhash hash n i, m) \<in> points hash T"
  shows "m = n"
proof -
  obtain j r where j: "vhash hash n i = vhash hash m j" "T m = Some r" "j < r" using assms(6) unfolding mem_points by blast
  have "m \<in> U" "j < nat R" using j assms(2,3) by (auto dest: less_le_trans)
  then show ?thesis using no_clashD [OF assms(1,4) _ assms(5) _ j(1)] by simp
qed

lemma points_del: "\<forall>n r. T n = Some r \<longrightarrow> r \<le> nat R \<Longrightarrow>
    points hash T - (\<lambda>i. (vhash hash n i, n)) ` {..<nat R} = points hash (T(n := None))"
proof -
  assume le: "\<forall>n r. T n = Some r \<longrightarrow> r \<le> nat R"
  have "(k, m) \<in> points hash T - (\<lambda>i. (vhash hash n i, n)) ` {..<nat R} \<longleftrightarrow> (k, m) \<in> points hash (T(n := None))" for k m
  proof (cases "m = n")
    case True
    have "(k, n) \<in> (\<lambda>i. (vhash hash n i, n)) ` {..<nat R}" if "(k, n) \<in> points hash T"
      using that le unfolding mem_points by (auto dest: less_le_trans)
    then show ?thesis using True by (auto simp: mem_points [of k n hash "T(n := None)"])
  qed (auto simp: mem_points)
  then show ?thesis by (intro set_eqI) (metis prod.exhaust)
qed

lemma points_upd: "T n = None \<Longrightarrow> points hash (T(n \<mapsto> r)) = points hash T \<union> (\<lambda>i. (vhash hash n i, n)) ` {..<r}"
proof -
  assume "T n = None"
  then have "(k, m) \<in> points hash (T(n \<mapsto> r)) \<longleftrightarrow> (k, m) \<in> points hash T \<union> (\<lambda>i. (vhash hash n i, n)) ` {..<r}" for k m
    by (cases "m = n") (auto simp: mem_points)
  then show ?thesis by (intro set_eqI) (metis prod.exhaust)
qed

lemma Remove_ok:
  assumes "no_clash hash R U" "ch_ok hash R U T h" "n \<in> U"
  shows "ch_ok hash R U (T(n := None)) (Remove hash n h)"
proof (cases "containsNode n h")
  case False
  then have "T n = None" using assms(2) by (auto simp: ch_ok_def containsNode_def)
  then have "T(n := None) = T" by auto
  then show ?thesis using assms(2) False by (simp add: Remove_def)
next
  case True
  have h: "ring_ok (points hash T) h" "sorted (ch_keys h)" "replicas h = R" "\<forall>n. gm_get (ch_nodes h) n = None \<longleftrightarrow> T n = None"
    "dom T \<subseteq> U" "\<forall>n r. T n = Some r \<longrightarrow> r \<le> nat R" using assms(2) unfolding ch_ok_def by blast+
  let ?h = "fold (\<lambda>i. remove_replica (vhash hash n i) n) [0..<nat R] h"
  have own: "m = n" if "i \<in> set [0..<nat R]" "(vhash hash n i, m) \<in> points hash T" for i m
    using point_owner [OF assms(1) h(5,6) assms(3) _ that(2)] that(1) by simp
  have r: "ring_ok (points hash T - (\<lambda>i. (vhash hash n i, n)) ` set [0..<nat R]) ?h" "sorted (ch_keys ?h)" "same_rest h ?h"
    using remove_all_ok [OF h(1,2), where n = n and f = "vhash hash n" and js = "[0..<nat R]"] own by blast+
  have p: "points hash T - (\<lambda>i. (vhash hash n i, n)) ` set [0..<nat R] = points hash (T(n := None))"
    using points_del [OF h(6)] by (simp add: lessThan_atLeast0)
  have "Remove hash n h = removeNode n ?h" using True h(3) by (simp add: Remove_def)
  then show ?thesis using r(1) [unfolded p] r(2,3) h(3,4,5,6)
    by (auto simp: ch_ok_def removeNode_def ring_ok_def same_rest_def gomap_simps)
qed


lemma AddWithReplicas_ok:
  assumes "no_clash hash R U" "ch_ok hash R U T h" "n \<in> U"
  shows "ch_ok hash R U (T(n \<mapsto> nat (min r R))) (AddWithReplicas hash n r h)"
proof -
  let ?T = "T(n := None)" and ?h1 = "Remove hash n h" and ?k = "nat (min r R)"
  let ?h2 = "fold (\<lambda>i. add_replica (vhash hash n i) n) [0..<?k] (addNode n ?h1)"
  have h: "ring_ok (points hash ?T) ?h1" "replicas ?h1 = R" "\<forall>n. gm_get (ch_nodes ?h1) n = None \<longleftrightarrow> ?T n = None"
    "dom ?T \<subseteq> U" "\<forall>n r. ?T n = Some r \<longrightarrow> r \<le> nat R" using Remove_ok [OF assms] unfolding ch_ok_def by blast+
  have lt: "i < nat R" if "i \<in> set [0..<?k]" for i using that by auto
  have ring0: "ring_ok (points hash ?T) (addNode n ?h1)" using h(1) by (simp add: ring_ok_def addNode_def)
  have new: "vhash hash n i \<notin> fst ` points hash ?T" if i: "i \<in> set [0..<?k]" for i
  proof
    assume "vhash hash n i \<in> fst ` points hash ?T"
    then obtain m where m: "(vhash hash n i, m) \<in> points hash ?T" by auto
    then have "m = n" by (rule point_owner [OF assms(1) h(4,5) assms(3) lt [OF i]])
    then show False using m by (simp add: mem_points)
  qed
  have "inj_on (vhash hash n) (set [0..<?k])"
    using no_clashD [OF assms(1,3,3)] lt by (intro inj_onI) blast
  then have dis: "distinct (map (vhash hash n) [0..<?k])" by (simp add: distinct_map)
  have "ring_ok (points hash ?T \<union> (\<lambda>i. (vhash hash n i, n)) ` set [0..<?k]) ?h2" and sr: "same_rest (addNode n ?h1) ?h2"
    using add_all_ok [OF ring0 new dis, where n = n] by blast+
  moreover have "points hash ?T \<union> (\<lambda>i. (vhash hash n i, n)) ` set [0..<?k] = points hash (T(n \<mapsto> ?k))"
    using points_upd [of ?T n hash ?k] by (simp add: lessThan_atLeast0)
  ultimately have "ring_ok (points hash (T(n \<mapsto> ?k))) ?h2" by simp
  then have p: "ring_ok (points hash (T(n \<mapsto> ?k))) (?h2\<lparr>ch_keys := sort (ch_keys ?h2)\<rparr>)" by (simp add: ring_ok_def)
  have e: "AddWithReplicas hash n r h = ?h2\<lparr>ch_keys := sort (ch_keys ?h2)\<rparr>"
    by (simp add: AddWithReplicas_def Let_def h(2) min_def)
  have "(gm_get (ch_nodes ?h2) m = None) = ((T(n \<mapsto> ?k)) m = None)" for m
    using sr h(3) by (cases "m = n") (auto simp: same_rest_def addNode_def gomap_simps)
  moreover have "dom (T(n \<mapsto> ?k)) \<subseteq> U" using h(4) assms(3) by auto
  moreover have "\<forall>m s. (T(n \<mapsto> ?k)) m = Some s \<longrightarrow> s \<le> nat R" using h(5) by (auto split: if_splits)
  ultimately show ?thesis using p sr h(2) unfolding e ch_ok_def by (simp add: same_rest_def addNode_def)
qed

lemma ch_apply_ok:
  assumes "no_clash hash R U" "ch_ok hash R U T h" "ch_node op \<in> U"
  shows "ch_ok hash R U (table_apply R op T) (ch_apply hash op h)"
proof -
  have "replicas h = R" using assms(2) by (simp add: ch_ok_def)
  then show ?thesis using AddWithReplicas_ok [OF assms(1,2)] Remove_ok [OF assms(1,2)] assms(3)
    by (cases op) (simp_all add: ConsistentHash_Add_def AddWithWeight_def TopWeight_def,
      metis min.idem)
qed

lemma ch_fold_ok:
  assumes "no_clash hash R U" "ch_ok hash R U T h" "ch_node ` set ops \<subseteq> U"
  shows "ch_ok hash R U (fold (table_apply R) ops T) (fold (ch_apply hash) ops h)"
  using assms(2,3) by (induction ops arbitrary: T h) (simp_all add: ch_apply_ok [OF assms(1)])

lemma ch_run_ok:
  assumes "no_clash hash (max n 100) U" "ch_node ` set ops \<subseteq> U"
  shows "ch_ok hash (max n 100) U (table_run n ops) (ch_run hash n ops)"
  unfolding ch_run_def table_run_def
  by (rule ch_fold_ok [OF assms(1) _ assms(2)])
    (auto simp: ch_ok_def NewCustomConsistentHash_def minReplicas_def ring_ok_def points_def gomap_simps)

subsection \<open>Lookup\<close>

lemma next_pointD:
  assumes "next_point x K k"
  shows "k \<in> K" "j \<in> K \<Longrightarrow> x \<le> j \<Longrightarrow> x \<le> k \<and> k \<le> j" "j \<in> K \<Longrightarrow> \<not> x \<le> k \<Longrightarrow> k \<le> j"
  using assms by (auto simp: next_point_def split: if_splits)

lemma next_pointI:
  assumes "k \<in> K" "\<And>j. j \<in> K \<Longrightarrow> x \<le> j \<Longrightarrow> x \<le> k \<and> k \<le> j" "\<And>j. j \<in> K \<Longrightarrow> \<not> x \<le> k \<Longrightarrow> k \<le> j"
  shows "next_point x K k"
proof (cases "x \<le> k")
  case True
  then show ?thesis using assms(1,2) unfolding next_point_def by auto
next
  case False
  then have "\<not> (\<exists>j \<in> K. x \<le> j)" using assms(2) by blast
  then show ?thesis using assms(1,3) False unfolding next_point_def by simp
qed

lemma next_point_le:
  assumes "next_point x K k" "next_point x K j"
  shows "k \<le> j"
proof (cases "x \<le> j")
  case True
  then show ?thesis using next_pointD(2) [OF assms(1) next_pointD(1) [OF assms(2)]] by simp
next
  case False
  have "\<not> x \<le> k" using next_pointD(2) [OF assms(2) next_pointD(1) [OF assms(1)]] False by auto
  then show ?thesis by (rule next_pointD(3) [OF assms(1) next_pointD(1) [OF assms(2)]])
qed

lemma next_point_unique: "next_point x K k \<Longrightarrow> next_point x K j \<Longrightarrow> k = j"
  by (rule order_antisym) (rule next_point_le, assumption+)+


lemma search_next_point:
  fixes ks :: "nat list"
  assumes "sorted ks" "ks \<noteq> []"
  shows "next_point x (set ks) (ks ! (sort_Search (length ks) (\<lambda>i. x \<le> ks ! i) mod length ks))"
proof -
  define r where "r = sort_Search (length ks) (\<lambda>i. x \<le> ks ! i)"
  note s = search_sorted [OF assms(1), where x = x, folded r_def]
  have len: "0 < length ks" using assms(2) by simp
  have "next_point x (set ks) (ks ! (r mod length ks))"
  proof (cases "r = length ks")
    case True
    have lt: "j < x" if "j \<in> set ks" for j using that s(2) unfolding in_set_conv_nth True by blast
    have "ks ! 0 \<le> j" if "j \<in> set ks" for j
      using that sorted_nth_mono [OF assms(1) le0] unfolding in_set_conv_nth by blast
    moreover have "ks ! 0 \<in> set ks" using len by (rule nth_mem)
    ultimately show ?thesis unfolding True mod_self by (intro next_pointI) (auto dest: lt)
  next
    case False
    then have r: "r < length ks" "r mod length ks = r" using s(1) by simp_all
    have x: "x \<le> ks ! r" by (rule s(3) [OF order_refl r(1)])
    have le: "ks ! r \<le> ks ! i" if "i < length ks" "x \<le> ks ! i" for i
    proof -
      have "\<not> i < r" using s(2) [of i] that(2) by auto
      then show ?thesis using sorted_nth_mono [OF assms(1) _ that(1)] by simp
    qed
    have "x \<le> ks ! r \<and> ks ! r \<le> j" if "j \<in> set ks" "x \<le> j" for j
      using that x le unfolding in_set_conv_nth by blast
    then show ?thesis unfolding r(2) using x by (intro next_pointI nth_mem r(1)) blast+
  qed
  then show ?thesis unfolding r_def .
qed

lemma Get_ok:
  assumes ok: "ring_ok P h" and srt: "sorted (ch_keys h)" and own: "\<And>k n m. (k, n) \<in> P \<Longrightarrow> (k, m) \<in> P \<Longrightarrow> n = m"
  shows "(ConsistentHash_Get hash v h = Inr None \<longleftrightarrow> P = {}) \<and> (\<forall>n. ConsistentHash_Get hash v h = Inr (Some n) \<longleftrightarrow> belongs P (hash v) n) \<and>
    (\<forall>p. ConsistentHash_Get hash v h \<noteq> Inl p)"
proof (cases "P = {}")
  case True
  then have "gm_get (ring h) k = None" for k using ok unfolding ring_ok_def by (cases "gm_get (ring h) k") blast+
  then have "ring h = []" by (metis map_of_eq_None_iff list.set_intros(1) image_eqI neq_Nil_conv)
  then show ?thesis using True by (simp add: ConsistentHash_Get_def belongs_def)
next
  case False
  have ks: "set (ch_keys h) = fst ` P" and rg: "\<And>k ns. gm_get (ring h) k = Some ns \<longleftrightarrow> (\<exists>n. (k, n) \<in> P \<and> ns = [n])"
    using ok unfolding ring_ok_def by blast+
  have ne: "ch_keys h \<noteq> []" using ks False by force
  define k where "k = ch_keys h ! (sort_Search (length (ch_keys h)) (\<lambda>i. hash v \<le> ch_keys h ! i) mod length (ch_keys h))"
  have nx: "next_point (hash v) (fst ` P) k" unfolding k_def ks [symmetric] by (rule search_next_point [OF srt ne])
  then obtain m where m: "(k, m) \<in> P" unfolding next_point_def by force
  then have g: "gm_get (ring h) k = Some [m]" using rg by blast
  then have "ring h \<noteq> []" by auto
  then have e: "ConsistentHash_Get hash v h = Inr (Some m)" using ne g
    by (simp add: ConsistentHash_Get_def Let_def k_def [symmetric] gm_get_or_def)
  have "belongs P (hash v) n \<longleftrightarrow> n = m" for n
    unfolding belongs_def using nx m own next_point_unique by blast
  then show ?thesis using e False by auto
qed

lemma ch_points_unique:
  assumes "no_clash hash R U" "ch_ok hash R U T h" and kn: "(k, n) \<in> points hash T" and km: "(k, m) \<in> points hash T"
  shows "n = m"
proof -
  have h: "dom T \<subseteq> U" "\<forall>n r. T n = Some r \<longrightarrow> r \<le> nat R" using assms(2) unfolding ch_ok_def by blast+
  obtain i r where i: "k = vhash hash n i" "T n = Some r" "i < r" using kn unfolding mem_points by blast
  have "n \<in> U" "i < nat R" using i h by (auto dest: less_le_trans)
  then show ?thesis using point_owner [OF assms(1) h _ _ km [unfolded i(1)]] by blast
qed

lemma ch_lookup:
  assumes "no_clash hash R U" "ch_ok hash R U T h"
  shows "(ConsistentHash_Get hash v h = Inr None \<longleftrightarrow> points hash T = {}) \<and>
    (\<forall>n. ConsistentHash_Get hash v h = Inr (Some n) \<longleftrightarrow> belongs (points hash T) (hash v) n) \<and>
    (\<forall>p. ConsistentHash_Get hash v h \<noteq> Inl p)"
proof -
  have "ring_ok (points hash T) h" "sorted (ch_keys h)" using assms(2) unfolding ch_ok_def by blast+
  then show ?thesis using Get_ok ch_points_unique [OF assms] by blast
qed

text \<open>C10: (Lookup.) After any sequence of additions (with the full number of replicas, an explicit one or a weight) and
  removals of nodes, if the virtual nodes of the nodes in use have pairwise different hashes, \<open>Get\<close> never panics: it
  finds no node exactly when the circle has no point, and returns a node exactly when this node owns the next point at or
  after the hash of the value, wrapping around. The last addition of a node decides its number of points.\<close>

theorem consistent_hash_lookup:
  assumes "no_clash hash (max n 100) (ch_node ` set ops)"
  shows "(ConsistentHash_Get hash v (ch_run hash n ops) = Inr None \<longleftrightarrow> points hash (table_run n ops) = {}) \<and>
    (\<forall>m. ConsistentHash_Get hash v (ch_run hash n ops) = Inr (Some m) \<longleftrightarrow> belongs (points hash (table_run n ops)) (hash v) m) \<and>
    (\<forall>p. ConsistentHash_Get hash v (ch_run hash n ops) \<noteq> Inl p)"
  by (rule ch_lookup [OF assms ch_run_ok [OF assms order_refl]])


text \<open>For the witnesses: an injective numbering of strings, under which the virtual nodes of two nodes never clash.\<close>

fun enc :: "string \<Rightarrow> nat" where
  "enc [] = 0"
| "enc (c # s) = 1 + of_char c + 256 * enc s"

lemma enc_inj: "enc s = enc t \<Longrightarrow> s = t"
proof (induction s arbitrary: t)
  case Nil
  then show ?case by (cases t) auto
next
  case (Cons c s)
  then obtain d u where t: "t = d # u" by (cases t) auto
  have e: "of_char c + 256 * enc s = of_char d + 256 * enc u" using Cons(2) by (simp add: t)
  have b: "of_char c < (256 :: nat)" "of_char d < (256 :: nat)" by (simp_all add: of_char_def)
  then have "of_char c = (of_char d :: nat)" "enc s = enc u"
    using arg_cong [OF e, of "\<lambda>x. x mod 256"] arg_cong [OF e, of "\<lambda>x. x div 256"] by simp_all
  then show ?case using Cons(1) by (simp add: t)
qed

lemma enc_no_clash: "no_clash enc R {''a'', ''b''}"
proof -
  have "i = j" if "Itoa (int i) = Itoa (int j)" for i j
    using arg_cong [OF that, of digits_value] by (simp add: Itoa_def decimal_props del: of_char_of)
  then show ?thesis by (auto simp: no_clash_def vhash_def inj_on_def simp del: enc.simps dest!: enc_inj)
qed


theorem consistent_hash_lookup_witness:
  "ConsistentHash_Get enc ''x'' (ch_run enc 100 [CAdd ''a'', CAddWeight ''b'' 3, CRemove ''a'']) = Inr (Some ''b'')"
proof -
  let ?ops = "[CAdd ''a'', CAddWeight ''b'' 3, CRemove ''a'']"
  let ?G = "ConsistentHash_Get enc ''x'' (ch_run enc 100 ?ops)"
  have T: "table_run 100 ?ops = [''b'' \<mapsto> 3]" by (auto simp: table_run_def go_quot_def)
  have "(vhash enc ''b'' 0, ''b'') \<in> points enc (table_run 100 ?ops)" by (auto simp: T mem_points)
  moreover have "m = ''b''" if "belongs (points enc (table_run 100 ?ops)) k m" for k m
    using that by (auto simp: T belongs_def mem_points split: if_splits)
  moreover have "no_clash enc (max 100 100) (ch_node ` set ?ops)" using enc_no_clash by (simp add: insert_commute)
  ultimately show ?thesis using consistent_hash_lookup [of enc 100 ?ops "''x''"]
    by (cases ?G rule: sum.exhaust [case_product option.exhaust]) (metis empty_iff option.exhaust)+
qed

subsection \<open>Few values move\<close>






subsection \<open>Names that clash\<close>

text \<open>
  \<open>Remove\<close> walks through all \<open>replicas\<close> names of a node, also those that were never added, and a name is the plain
  concatenation of node and number. So the tenth name of \<open>n\<close> is the first name of \<open>n1\<close>.
\<close>

lemma removeRingNode_simps [simp]:
  "ch_keys (removeRingNode hv n h) = ch_keys h" "ch_nodes (removeRingNode hv n h) = ch_nodes h"
  "gm_get_or [] (ring (removeRingNode hv n h)) k =
     (if k = hv then filter (\<lambda>x. x \<noteq> n) (gm_get_or [] (ring h) k) else gm_get_or [] (ring h) k)"
  by (auto simp: removeRingNode_def Let_def gm_get_or_def gomap_simps split: option.splits)

lemma remove_replica_simps [simp]:
  "ch_nodes (remove_replica hv n h) = ch_nodes h"
  "gm_get_or [] (ring (remove_replica hv n h)) k =
     (if k = hv then filter (\<lambda>x. x \<noteq> n) (gm_get_or [] (ring h) k) else gm_get_or [] (ring h) k)"
  by (simp_all add: remove_replica_def Let_def)

lemma remove_replica_keys:
  assumes "sorted (ch_keys h)"
  shows "sorted (ch_keys (remove_replica hv n h)) \<and> mset (ch_keys (remove_replica hv n h)) = mset (ch_keys h) - {#hv#}"
proof -
  define r where "r = sort_Search (length (ch_keys h)) (\<lambda>i. hv \<le> ch_keys h ! i)"
  have k: "ch_keys (remove_replica hv n h) =
      (if r < length (ch_keys h) \<and> ch_keys h ! r = hv then take r (ch_keys h) @ drop (r + 1) (ch_keys h) else ch_keys h)"
    by (simp only: remove_replica_def Let_def r_def [symmetric] removeRingNode_simps) simp
  show ?thesis
  proof (cases "hv \<in> set (ch_keys h)")
    case True
    then have r: "r < length (ch_keys h)" "ch_keys h ! r = hv" using search_member [OF assms] unfolding r_def by blast+
    have "mset (ch_keys h) = mset (take r (ch_keys h) @ ch_keys h ! r # drop (r + 1) (ch_keys h))"
      using id_take_nth_drop [OF r(1)] by simp
    then have "mset (take r (ch_keys h) @ drop (r + 1) (ch_keys h)) = mset (ch_keys h) - {#hv#}" using r(2) by simp
    then show ?thesis using r k sorted_remove_index(1) [OF assms] by simp
  next
    case False
    then have "ch_keys (remove_replica hv n h) = ch_keys h" using k nth_mem by auto
    then show ?thesis using False assms by simp
  qed
qed

lemma remove_all_keys:
  assumes "sorted (ch_keys h)"
  shows "mset (ch_keys (fold (\<lambda>i. remove_replica (f i) n) js h)) = mset (ch_keys h) - mset (map f js)"
  using assms by (induction js arbitrary: h) (simp_all add: remove_replica_keys)

lemma remove_all_nodes: "ch_nodes (fold (\<lambda>i. remove_replica (f i) n) js h) = ch_nodes h"
  by (induction js arbitrary: h) simp_all

lemma remove_all_other:
  assumes "m \<in> set (gm_get_or [] (ring h) k)" "m \<noteq> n"
  shows "m \<in> set (gm_get_or [] (ring (fold (\<lambda>i. remove_replica (f i) n) js h)) k)"
  using assms(1)
proof (induction js arbitrary: h)
  case (Cons j js)
  have "m \<in> set (gm_get_or [] (ring (remove_replica (f j) n h)) k)" using Cons(2) assms(2) by auto
  then show ?case using Cons(1) by simp
qed simp

text \<open>C36: (Removal can break the ring.) For every hash function: after adding the nodes \<open>n\<close> and \<open>n1\<close> with weight 1 to a
  new ring and removing \<open>n\<close>, every lookup panics with a division by zero, although \<open>n1\<close> is still a node of the ring.\<close>

theorem consistent_hash_remove_panics:
  "let h = Remove hash ''n'' (AddWithWeight hash ''n1'' 1 (AddWithWeight hash ''n'' 1 NewConsistentHash))
   in containsNode ''n1'' h \<and> ConsistentHash_Get hash v h = Inl DivideByZero"
proof -
  define h where "h = AddWithWeight hash ''n1'' 1 (AddWithWeight hash ''n'' 1 NewConsistentHash)"
  define f where "f = vhash hash ''n''"
  define h' where "h' = fold (\<lambda>i. remove_replica (f i) ''n'') [0..<100] h"
  have f10: "vhash hash ''n1'' 0 = f 10" unfolding f_def vhash_def by (rule arg_cong [of _ _ hash]) code_simp
  have h: "ch_keys h = sort [f 0, f 10]" "''n1'' \<in> set (gm_get_or [] (ring h) (f 10))" "replicas h = 100"
      "containsNode ''n'' h" "containsNode ''n1'' h"
    by (simp_all add: h_def AddWithWeight_def AddWithReplicas_def Let_def NewConsistentHash_def NewCustomConsistentHash_def
      minReplicas_def TopWeight_def go_quot_def Remove_def containsNode_def addNode_def add_replica_def f_def [symmetric] f10
      gm_get_or_def gomap_simps)
  have sub: "{#0, 10 :: nat#} \<subseteq># mset [0..<100]" by code_simp
  have "mset (ch_keys h') = {#f 0, f 10#} - image_mset f (mset [0..<100])"
    unfolding h'_def by (subst remove_all_keys) (simp_all add: h(1) add_mset_commute)
  also have "... = {#}" using image_mset_subseteq_mono [OF sub, of f] by (simp only: image_mset_add_mset image_mset_empty Diff_eq_empty_iff_mset)
  finally have k: "ch_keys h' = []" by simp
  have r: "ring h' \<noteq> []" using remove_all_other [OF h(2), of "''n''" f "[0..<100]"] by (auto simp: h'_def gm_get_or_def)
  have n: "ch_nodes h' = ch_nodes h" unfolding h'_def by (rule remove_all_nodes)
  have "Remove hash ''n'' h = removeNode ''n'' h'" using h(3,4) by (simp add: Remove_def h'_def f_def)
  then show ?thesis using k r n h(5) unfolding h_def [symmetric] Let_def
    by (simp add: removeNode_def containsNode_def ConsistentHash_Get_def gomap_simps)
qed

end
