(* ===== verification/Job_Store.thy ===== *)
theory Job_Store
  imports Go_Prelude
begin

text \<open>
  \<open>src/runtime/async_store.go\<close>: the state of asynchronous jobs and the store that keeps it in memory.

  A job store promises a table of jobs; the locale \<open>job_store\<close> states the effect of each operation
  on that table, and the lemmas about job life cycles are proved once from it.  The in-memory
  store keeps pointers to jobs that it hands out to its clients, so its model has a heap of job objects
  and a map from identifiers to references; it is interpreted as a \<open>job_store\<close>.
\<close>

section \<open>Jobs\<close>

datatype JobStatus = JobPending | JobProcessing | JobCompleted | JobFailed

record 'r JobState =
  ID :: string
  Status :: JobStatus
  Result :: "'r option"
  Error :: string
  CreatedAt :: int
  UpdatedAt :: int
  RetryCount :: int
  MaxRetries :: int
  ProcessingDeadline :: "int option"
  CallbackURL :: string

definition new_job :: "int \<Rightarrow> string \<Rightarrow> 'r JobState" where
  "new_job now jid = \<lparr>ID = jid, Status = JobPending, Result = None, Error = '''', CreatedAt = now, UpdatedAt = now,
     RetryCount = 0, MaxRetries = 0, ProcessingDeadline = None, CallbackURL = ''''\<rparr>"

text \<open>
  The body of \<open>Update\<close>; it reads the clock once for \<open>UpdatedAt\<close> and again for the deadline.
\<close>

definition update_job ::
  "int \<Rightarrow> int \<Rightarrow> int \<Rightarrow> JobStatus \<Rightarrow> 'r option \<Rightarrow> string \<Rightarrow> 'r JobState \<Rightarrow> 'r JobState" where
  "update_job t1 t2 timeout status result errMsg js =
     js\<lparr>Status := status, Result := result, Error := errMsg, UpdatedAt := t1,
        ProcessingDeadline := (if status = JobProcessing then Some (t2 + timeout) else None)\<rparr>"

text \<open>The body of the loop of \<open>ReapStale\<close>: the job after it, and whether it was counted.\<close>

definition reap_job :: "int \<Rightarrow> int \<Rightarrow> 'r JobState \<Rightarrow> 'r JobState \<times> bool" where
  "reap_job now maxRetries js =
     (if Status js \<noteq> JobProcessing then (js, False)
      else case ProcessingDeadline js of
        None \<Rightarrow> (js, False)
      | Some dl \<Rightarrow>
          if now < dl then (js, False)
          else if RetryCount js \<ge> maxRetries
          then (js\<lparr>Status := JobFailed, Error := ''max retries exceeded'', ProcessingDeadline := None, UpdatedAt := now\<rparr>, True)
          else (js\<lparr>Status := JobPending, RetryCount := RetryCount js + 1, ProcessingDeadline := None, UpdatedAt := now\<rparr>, True))"

definition is_final :: "'r JobState \<Rightarrow> bool" where
  "is_final js \<longleftrightarrow> Status js = JobCompleted \<or> Status js = JobFailed"

definition expired_job :: "int \<Rightarrow> 'r JobState \<Rightarrow> bool" where
  "expired_job cutoff js \<longleftrightarrow> is_final js \<and> UpdatedAt js < cutoff"

section \<open>The contract of a job store\<close>

type_synonym 'r table = "string \<rightharpoonup> 'r JobState"

datatype 'r job_op =
    Create int string
  | Update int int string JobStatus "'r option" string
  | Delete string
  | Reap int int
  | Cleanup int int

text \<open>The effect of an operation on the table; \<open>timeout\<close> is the processing timeout of the store.\<close>

fun tab_step :: "int \<Rightarrow> 'r job_op \<Rightarrow> 'r table \<Rightarrow> 'r table" where
  "tab_step timeout (Create now jid) T = T(jid \<mapsto> new_job now jid)"
| "tab_step timeout (Update t1 t2 jid status result errMsg) T =
     (case T jid of None \<Rightarrow> T | Some js \<Rightarrow> T(jid \<mapsto> update_job t1 t2 timeout status result errMsg js))"
| "tab_step timeout (Delete jid) T = T(jid := None)"
| "tab_step timeout (Reap now maxRetries) T = (\<lambda>jid. map_option (\<lambda>js. fst (reap_job now maxRetries js)) (T jid))"
| "tab_step timeout (Cleanup now ttl) T =
     (\<lambda>jid. case T jid of Some js \<Rightarrow> if expired_job (now - ttl) js then None else Some js | None \<Rightarrow> None)"

text \<open>A job has a deadline exactly while it is being processed.\<close>

definition job_ok :: "int \<Rightarrow> 'r JobState \<Rightarrow> bool" where
  "job_ok k js \<longleftrightarrow> (ProcessingDeadline js \<noteq> None \<longleftrightarrow> Status js = JobProcessing) \<and> 0 \<le> RetryCount js \<and> RetryCount js \<le> k"

fun reaps_with :: "int \<Rightarrow> 'r job_op \<Rightarrow> bool" where
  "reaps_with k (Reap now maxRetries) = (maxRetries = k)"
| "reaps_with k _ = True"

lemma reap_job_ok: "job_ok k js \<Longrightarrow> job_ok k (fst (reap_job now k js))"
  by (auto simp: job_ok_def reap_job_def split: option.splits)

lemma new_job_ok: "0 \<le> k \<Longrightarrow> job_ok k (new_job now jid)"
  by (simp add: job_ok_def new_job_def)

lemma update_job_ok: "job_ok k js \<Longrightarrow> job_ok k (update_job t1 t2 timeout status result errMsg js)"
  by (auto simp: job_ok_def update_job_def)

lemmas job_ok_steps = new_job_ok update_job_ok reap_job_ok

lemma tab_step_ok:
  assumes "0 \<le> k" and "reaps_with k opn" and "\<And>jid js. T jid = Some js \<Longrightarrow> job_ok k js"
    and "tab_step timeout opn T jid = Some js"
  shows "job_ok k js"
  using assms
  by (cases opn) (auto intro: job_ok_steps split: option.splits if_splits)

locale job_store =
  fixes view :: "'s \<Rightarrow> 'r table"
    and step :: "'r job_op \<Rightarrow> 's \<Rightarrow> 's"
    and timeout :: int
    and ok :: "'s \<Rightarrow> bool"
  assumes step_view: "ok s \<Longrightarrow> view (step opn s) = tab_step timeout opn (view s)"
    and step_ok: "ok s \<Longrightarrow> ok (step opn s)"
begin

lemma run_view: "ok s \<Longrightarrow> view (fold step ops s) = fold (tab_step timeout) ops (view s)"
  by (induction ops arbitrary: s) (simp_all add: step_view step_ok)

lemma run_ok: "ok s \<Longrightarrow> ok (fold step ops s)"
  by (induction ops arbitrary: s) (simp_all add: step_ok)

lemma run_job_ok:
  assumes "0 \<le> k" and "\<And>jid js. view s jid = Some js \<Longrightarrow> job_ok k js"
  shows "ok s \<Longrightarrow> list_all (reaps_with k) ops \<Longrightarrow> view (fold step ops s) jid = Some js \<Longrightarrow> job_ok k js"
  using assms(2)
proof (induction ops arbitrary: s)
  case (Cons opn ops)
  have "job_ok k js'" if "view (step opn s) jid' = Some js'" for jid' js'
    using that Cons.prems tab_step_ok [OF assms(1), of opn "view s" timeout jid' js'] by (auto simp: step_view)
  moreover have "ok (step opn s)" using Cons.prems by (simp add: step_ok)
  ultimately show ?case using Cons.prems(2,3) Cons.IH [of "step opn s"] by simp
qed simp

end

section \<open>The in-memory store\<close>

text \<open>
  A \<open>*JobState\<close> is a reference, an index into the heap of job objects.  \<open>Create\<close>, \<open>Get\<close> and \<open>List\<close> hand
  out references; a client that writes through one writes to the job the store holds.
\<close>

record 'r memoryJobStore =
  heap :: "'r JobState list"
  jobs :: "(string, nat) gomap"
  processingTimeout :: int

definition newMemoryJobStore :: "'r memoryJobStore" where
  "newMemoryJobStore = \<lparr>heap = [], jobs = [], processingTimeout = 5 * 60 * 1000000000\<rparr>"

definition mem_Create :: "int \<Rightarrow> string \<Rightarrow> 'r memoryJobStore \<Rightarrow> nat \<times> 'r memoryJobStore" where
  "mem_Create now jid s =
     (let js = length (heap s)
      in (js, s\<lparr>heap := heap s @ [new_job now jid], jobs := gm_set jid js (jobs s)\<rparr>))"

definition mem_Get :: "string \<Rightarrow> 'r memoryJobStore \<Rightarrow> nat option" where
  "mem_Get jid s = gm_get (jobs s) jid"

definition mem_Snapshot :: "string \<Rightarrow> 'r memoryJobStore \<Rightarrow> 'r JobState option" where
  "mem_Snapshot jid s = (case gm_get (jobs s) jid of None \<Rightarrow> None | Some js \<Rightarrow> Some (heap s ! js))"

definition mem_Update ::
  "int \<Rightarrow> int \<Rightarrow> string \<Rightarrow> JobStatus \<Rightarrow> 'r option \<Rightarrow> string \<Rightarrow> 'r memoryJobStore \<Rightarrow> 'r memoryJobStore" where
  "mem_Update t1 t2 jid status result errMsg s =
     (case gm_get (jobs s) jid of
        Some js \<Rightarrow> s\<lparr>heap := (heap s)[js := update_job t1 t2 (processingTimeout s) status result errMsg (heap s ! js)]\<rparr>
      | None \<Rightarrow> s)"

definition mem_List :: "'r memoryJobStore \<Rightarrow> nat list" where
  "mem_List s = map snd (jobs s)"

definition mem_Delete :: "string \<Rightarrow> 'r memoryJobStore \<Rightarrow> 'r memoryJobStore" where
  "mem_Delete jid s = s\<lparr>jobs := gm_del jid (jobs s)\<rparr>"

fun reap_loop :: "int \<Rightarrow> int \<Rightarrow> (string, nat) gomap \<Rightarrow> 'r JobState list \<Rightarrow> int \<Rightarrow> 'r JobState list \<times> int" where
  "reap_loop now maxRetries [] h count = (h, count)"
| "reap_loop now maxRetries ((jid, r) # es) h count =
     (let (js, reaped) = reap_job now maxRetries (h ! r)
      in reap_loop now maxRetries es (h[r := js]) (if reaped then count + 1 else count))"

definition mem_ReapStale :: "int \<Rightarrow> int \<Rightarrow> 'r memoryJobStore \<Rightarrow> int \<times> 'r memoryJobStore" where
  "mem_ReapStale now maxRetries s =
     (let (h, count) = reap_loop now maxRetries (jobs s) (heap s) 0 in (count, s\<lparr>heap := h\<rparr>))"

fun cleanup_loop :: "int \<Rightarrow> 'r JobState list \<Rightarrow> (string, nat) gomap \<Rightarrow> (string, nat) gomap \<Rightarrow> int \<Rightarrow> (string, nat) gomap \<times> int" where
  "cleanup_loop cutoff h [] m count = (m, count)"
| "cleanup_loop cutoff h ((jid, r) # es) m count =
     (if Status (h ! r) = JobCompleted \<or> Status (h ! r) = JobFailed
      then if UpdatedAt (h ! r) < cutoff then cleanup_loop cutoff h es (gm_del jid m) (count + 1)
           else cleanup_loop cutoff h es m count
      else cleanup_loop cutoff h es m count)"

definition mem_Cleanup :: "int \<Rightarrow> int \<Rightarrow> 'r memoryJobStore \<Rightarrow> int \<times> 'r memoryJobStore" where
  "mem_Cleanup now ttl s =
     (let (m, count) = cleanup_loop (now - ttl) (heap s) (jobs s) (jobs s) 0 in (count, s\<lparr>jobs := m\<rparr>))"

fun mem_step :: "'r job_op \<Rightarrow> 'r memoryJobStore \<Rightarrow> 'r memoryJobStore" where
  "mem_step (Create now jid) s = snd (mem_Create now jid s)"
| "mem_step (Update t1 t2 jid status result errMsg) s = mem_Update t1 t2 jid status result errMsg s"
| "mem_step (Delete jid) s = mem_Delete jid s"
| "mem_step (Reap now maxRetries) s = snd (mem_ReapStale now maxRetries s)"
| "mem_step (Cleanup now ttl) s = snd (mem_Cleanup now ttl s)"

subsection \<open>Well-formedness\<close>

text \<open>Every entry refers to a job object of its own that carries its identifier.\<close>

definition mem_ok :: "'r memoryJobStore \<Rightarrow> bool" where
  "mem_ok s \<longleftrightarrow> gm_wf (jobs s) \<and> (\<forall>(jid, r) \<in> set (jobs s). r < length (heap s) \<and> ID (heap s ! r) = jid)"

abbreviation mem_view :: "'r memoryJobStore \<Rightarrow> 'r table" where
  "mem_view s \<equiv> (\<lambda>jid. mem_Snapshot jid s)"

lemma mem_okD:
  "mem_ok s \<Longrightarrow> gm_get (jobs s) jid = Some r \<Longrightarrow> r < length (heap s) \<and> ID (heap s ! r) = jid"
  by (auto simp: mem_ok_def dest: map_of_SomeD)

lemma mem_okI:
  "gm_wf (jobs s) \<Longrightarrow> (\<And>jid r. gm_get (jobs s) jid = Some r \<Longrightarrow> r < length (heap s) \<and> ID (heap s ! r) = jid) \<Longrightarrow> mem_ok s"
  by (auto simp: mem_ok_def gm_get_eq_iff)

lemma mem_refs_distinct: "mem_ok s \<Longrightarrow> distinct (map snd (jobs s))"
proof -
  assume ok: "mem_ok s"
  have "inj_on snd (set (jobs s))"
  proof (rule inj_onI)
    fix x y assume "x \<in> set (jobs s)" "y \<in> set (jobs s)" "snd x = snd y"
    moreover from this ok have "fst x = ID (heap s ! snd x)" "fst y = ID (heap s ! snd y)"
      by (auto simp: mem_ok_def)
    ultimately show "x = y" by (simp add: prod_eq_iff)
  qed
  moreover have "distinct (jobs s)" using ok by (simp add: mem_ok_def gm_wf_def distinct_map)
  ultimately show ?thesis by (simp add: distinct_map)
qed

lemma reap_job_ID [simp]: "ID (fst (reap_job now k js)) = ID js"
  by (simp add: reap_job_def split: option.splits)

lemma reap_loop_heap:
  assumes "distinct (map snd es)" and "\<And>jid r. (jid, r) \<in> set es \<Longrightarrow> r < length h"
  shows "fst (reap_loop now k es h c) =
    map (\<lambda>r. if r \<in> snd ` set es then fst (reap_job now k (h ! r)) else h ! r) [0..<length h] \<and>
    snd (reap_loop now k es h c) = c + int (length (filter (\<lambda>e. snd (reap_job now k (h ! snd e))) es))"
  using assms
proof (induction es arbitrary: h c)
  case Nil
  then show ?case by (simp add: map_nth)
next
  case (Cons e es)
  obtain jid r where e: "e = (jid, r)" by (cases e)
  let ?h = "h[r := fst (reap_job now k (h ! r))]"
  from Cons.prems e have r: "r < length h" "r \<notin> snd ` set es" by auto
  have same: "?h ! r' = h ! r'" if "r' \<in> snd ` set es" for r'
  proof -
    from that r(2) have "r \<noteq> r'" by blast
    then show ?thesis by simp
  qed
  have "filter (\<lambda>e. snd (reap_job now k (?h ! snd e))) es = filter (\<lambda>e. snd (reap_job now k (h ! snd e))) es"
    by (intro filter_cong refl) (simp add: same)
  moreover have "map (\<lambda>r'. if r' \<in> snd ` set es then fst (reap_job now k (?h ! r')) else ?h ! r') [0..<length ?h] =
      map (\<lambda>r'. if r' \<in> snd ` set (e # es) then fst (reap_job now k (h ! r')) else h ! r') [0..<length h]"
    using r same by (intro map_cong) (simp_all add: e nth_list_update)
  moreover have "distinct (map snd es)" "\<And>jid r. (jid, r) \<in> set es \<Longrightarrow> r < length ?h"
    using Cons.prems by auto
  ultimately show ?case
    using Cons.IH [of ?h "if snd (reap_job now k (h ! r)) then c + 1 else c"]
    by (simp add: e case_prod_beta Let_def)
qed

lemma cleanup_loop_fold:
  "cleanup_loop cutoff h es m c =
     (fold (\<lambda>(jid, r) m. if expired_job cutoff (h ! r) then gm_del jid m else m) es m,
      c + int (length (filter (\<lambda>e. expired_job cutoff (h ! snd e)) es)))"
  by (induction es arbitrary: m c) (auto simp: expired_job_def is_final_def)

lemma mem_cleanup_jobs:
  "gm_wf (jobs s) \<Longrightarrow> jobs (snd (mem_Cleanup now ttl s)) =
     filter (\<lambda>(jid, r). \<not> expired_job (now - ttl) (heap s ! r)) (jobs s)"
  by (simp add: mem_Cleanup_def cleanup_loop_fold gm_delete_loop [where P = "\<lambda>r. expired_job (now - ttl) (heap s ! r)"])

subsection \<open>The in-memory store implements the contract\<close>

lemma mem_create_view: "mem_ok s \<Longrightarrow> mem_view (snd (mem_Create now jid s)) = (mem_view s)(jid \<mapsto> new_job now jid)"
  by (auto simp: mem_Create_def mem_Snapshot_def Let_def gm_get_set fun_eq_iff nth_append dest: mem_okD split: option.splits)

lemma mem_create_ok: "mem_ok s \<Longrightarrow> mem_ok (snd (mem_Create now jid s))"
  by (rule mem_okI) (auto simp: mem_Create_def Let_def gm_get_set nth_append new_job_def less_Suc_eq
      dest: mem_okD split: if_splits, simp add: mem_ok_def)

lemma mem_update_view:
  assumes ok: "mem_ok s"
  shows "mem_view (mem_Update t1 t2 jid status result errMsg s) =
    tab_step (processingTimeout s) (Update t1 t2 jid status result errMsg) (mem_view s)"
proof (cases "gm_get (jobs s) jid")
  case (Some r)
  have "r \<noteq> r'" if "gm_get (jobs s) jid' = Some r'" "jid' \<noteq> jid" for jid' r'
    using mem_okD [OF ok that(1)] mem_okD [OF ok Some] that(2) by auto
  then have "mem_Snapshot jid' (mem_Update t1 t2 jid status result errMsg s) = mem_Snapshot jid' s" if "jid' \<noteq> jid" for jid'
    using that Some by (cases "gm_get (jobs s) jid'") (auto simp: mem_Update_def mem_Snapshot_def)
  with Some mem_okD [OF ok Some] show ?thesis
    by (auto simp: mem_Update_def mem_Snapshot_def fun_eq_iff)
qed (simp add: mem_Update_def mem_Snapshot_def)

lemma update_job_ID [simp]: "ID (update_job t1 t2 timeout status result errMsg js) = ID js"
  by (simp add: update_job_def)

lemma heap_update_ID: "(\<And>js. ID (f js) = ID js) \<Longrightarrow> ID (h[r := f (h ! r)] ! r') = ID (h ! r')"
  by (cases "r < length h") (auto simp: nth_list_update list_update_beyond not_less)

lemma mem_update_ok:
  assumes ok: "mem_ok s"
  shows "mem_ok (mem_Update t1 t2 jid status result errMsg s)"
proof (rule mem_okI)
  fix jid' r assume "gm_get (jobs (mem_Update t1 t2 jid status result errMsg s)) jid' = Some r"
  then have "gm_get (jobs s) jid' = Some r" by (simp add: mem_Update_def split: option.splits)
  from mem_okD [OF ok this] show "r < length (heap (mem_Update t1 t2 jid status result errMsg s)) \<and>
      ID (heap (mem_Update t1 t2 jid status result errMsg s) ! r) = jid'"
    by (simp add: mem_Update_def heap_update_ID split: option.splits)
qed (use ok in \<open>simp add: mem_Update_def mem_ok_def split: option.splits\<close>)

lemma mem_delete_view: "mem_view (mem_Delete jid s) = (mem_view s)(jid := None)"
  by (auto simp: mem_Delete_def mem_Snapshot_def gm_get_del fun_eq_iff split: option.split)

lemma mem_delete_ok: "mem_ok s \<Longrightarrow> mem_ok (mem_Delete jid s)"
  by (rule mem_okI) (auto simp: mem_Delete_def gm_get_del mem_ok_def dest: map_of_SomeD split: if_splits)

lemma mem_reap:
  assumes ok: "mem_ok s"
  shows "mem_view (snd (mem_ReapStale now k s)) = (\<lambda>jid. map_option (\<lambda>js. fst (reap_job now k js)) (mem_view s jid))"
    and "mem_ok (snd (mem_ReapStale now k s))"
    and "fst (mem_ReapStale now k s) = int (length (filter (\<lambda>e. snd (reap_job now k (heap s ! snd e))) (jobs s)))"
proof -
  note loop = reap_loop_heap [OF mem_refs_distinct [OF ok], of "heap s" now k 0]
  have bound: "\<And>jid r. (jid, r) \<in> set (jobs s) \<Longrightarrow> r < length (heap s)"
    using ok by (auto simp: mem_ok_def)
  have nth: "fst (reap_loop now k (jobs s) (heap s) 0) ! r = fst (reap_job now k (heap s ! r))"
    if "gm_get (jobs s) jid = Some r" for jid r
    using that loop [OF bound] bound map_of_SomeD [OF that] by (force simp: image_iff)
  have len: "length (fst (reap_loop now k (jobs s) (heap s) 0)) = length (heap s)"
    using loop [OF bound] by simp
  show "mem_view (snd (mem_ReapStale now k s)) = (\<lambda>jid. map_option (\<lambda>js. fst (reap_job now k js)) (mem_view s jid))"
    by (auto simp: mem_ReapStale_def mem_Snapshot_def case_prod_beta nth fun_eq_iff split: option.splits)
  show "mem_ok (snd (mem_ReapStale now k s))"
    using ok len nth by (intro mem_okI) (auto simp: mem_ReapStale_def case_prod_beta mem_ok_def dest: mem_okD [OF ok])
  show "fst (mem_ReapStale now k s) = int (length (filter (\<lambda>e. snd (reap_job now k (heap s ! snd e))) (jobs s)))"
    using loop [OF bound] by (simp add: mem_ReapStale_def case_prod_beta)
qed

lemma mem_cleanup_view:
  assumes ok: "mem_ok s"
  shows "mem_view (snd (mem_Cleanup now ttl s)) =
    (\<lambda>jid. case mem_view s jid of None \<Rightarrow> None | Some js \<Rightarrow> if expired_job (now - ttl) js then None else Some js)"
proof -
  have wf: "gm_wf (jobs s)" using ok by (simp add: mem_ok_def)
  have "heap (snd (mem_Cleanup now ttl s)) = heap s" by (simp add: mem_Cleanup_def case_prod_beta)
  then show ?thesis
    by (auto simp: mem_Snapshot_def mem_cleanup_jobs [OF wf] gm_get_filter [OF wf] fun_eq_iff split: option.splits)
qed

lemma mem_cleanup_ok: "mem_ok s \<Longrightarrow> mem_ok (snd (mem_Cleanup now ttl s))"
proof -
  assume ok: "mem_ok s"
  then have wf: "gm_wf (jobs s)" by (simp add: mem_ok_def)
  have "heap (snd (mem_Cleanup now ttl s)) = heap s" by (simp add: mem_Cleanup_def case_prod_beta)
  with ok show ?thesis by (auto simp: mem_ok_def mem_cleanup_jobs [OF wf])
qed

lemma mem_step_timeout [simp]: "processingTimeout (mem_step opn s) = processingTimeout s"
  by (cases opn) (auto simp: mem_Create_def mem_Update_def mem_Delete_def mem_ReapStale_def mem_Cleanup_def
      Let_def case_prod_beta split: option.splits)

interpretation mem: job_store mem_view mem_step timeout "\<lambda>s. mem_ok s \<and> processingTimeout s = timeout"
  for timeout :: int
proof unfold_locales
  fix s :: "'b memoryJobStore" and opn
  assume "mem_ok s \<and> processingTimeout s = timeout"
  then have ok: "mem_ok s" "processingTimeout s = timeout" by auto
  show "mem_view (mem_step opn s) = tab_step timeout opn (mem_view s)"
    using ok by (cases opn)
      (simp_all only: mem_step.simps mem_create_view mem_update_view mem_delete_view mem_reap(1) mem_cleanup_view tab_step.simps)
  have "mem_ok (mem_step opn s)"
    using ok by (cases opn) (simp_all add: mem_create_ok mem_update_ok mem_delete_ok mem_reap(2) mem_cleanup_ok)
  with ok(2) show "mem_ok (mem_step opn s) \<and> processingTimeout (mem_step opn s) = timeout" by simp
qed

lemma mem_new_ok: "mem_ok newMemoryJobStore \<and> processingTimeout newMemoryJobStore = 300000000000"
  by (simp add: mem_ok_def newMemoryJobStore_def)

lemma mem_new_view [simp]: "mem_Snapshot jid newMemoryJobStore = None"
  by (simp add: mem_Snapshot_def newMemoryJobStore_def)

definition stale :: "int \<Rightarrow> 'r JobState \<Rightarrow> bool" where
  "stale now js \<longleftrightarrow> Status js = JobProcessing \<and> (case ProcessingDeadline js of None \<Rightarrow> False | Some dl \<Rightarrow> dl \<le> now)"

lemma reap_job_stale:
  "snd (reap_job now k js) \<longleftrightarrow> stale now js"
  "\<not> stale now js \<Longrightarrow> fst (reap_job now k js) = js"
  "\<not> stale now (fst (reap_job now k js))"
  by (auto simp: reap_job_def stale_def split: option.splits)

lemma mem_reap_count:
  assumes ok: "mem_ok s"
  shows "fst (mem_ReapStale now k s) = int (card {jid. \<exists>js. mem_Snapshot jid s = Some js \<and> stale now js})"
proof -
  let ?es = "filter (\<lambda>e. stale now (heap s ! snd e)) (jobs s)"
  have wf: "gm_wf (jobs s)" using ok by (simp add: mem_ok_def)
  have "distinct (map fst ?es)" using ok by (simp add: mem_ok_def gm_wf_def distinct_map_filter)
  then have "length ?es = card (fst ` set ?es)" by (metis distinct_card length_map set_map)
  also have "fst ` set ?es = {jid. \<exists>js. mem_Snapshot jid s = Some js \<and> stale now js}"
  proof (rule set_eqI)
    fix jid
    have "jid \<in> fst ` set ?es \<longleftrightarrow> (\<exists>r. gm_get (jobs s) jid = Some r \<and> stale now (heap s ! r))"
      by (auto simp: gm_get_eq_iff [OF wf] image_iff)
    then show "jid \<in> fst ` set ?es \<longleftrightarrow> jid \<in> {jid. \<exists>js. mem_Snapshot jid s = Some js \<and> stale now js}"
      by (auto simp: mem_Snapshot_def split: option.splits)
  qed
  finally show ?thesis using mem_reap(3) [OF ok] by (simp add: reap_job_stale)
qed

lemma stuck_rounds:
  assumes "T jid = Some js" and "Status js \<noteq> JobFailed" and "0 \<le> RetryCount js" and "int (length ts) = k - RetryCount js"
  shows "\<exists>js'. fold (tab_step timeout) (concat (map (\<lambda>t. [Update t t jid JobProcessing None '''', Reap (t + timeout) k]) ts)) T jid =
      Some js' \<and> Status js' \<noteq> JobFailed \<and> RetryCount js' = k"
  using assms
proof (induction ts arbitrary: T js)
  case (Cons t ts)
  let ?js = "fst (reap_job (t + timeout) k (update_job t t timeout JobProcessing None '''' js))"
  have "RetryCount js < k" using Cons.prems(4) by simp
  then have "Status ?js = JobPending" "RetryCount ?js = RetryCount js + 1"
    by (auto simp: reap_job_def update_job_def)
  with Cons.IH [of "tab_step timeout (Reap (t + timeout) k) (tab_step timeout (Update t t jid JobProcessing None '''') T)" ?js]
    Cons.prems show ?case by simp
qed auto

section \<open>Properties\<close>


text \<open>
  In every reachable state of the store a job has a processing deadline exactly while it is being processed,
  and if the reaper always runs with the limit \<open>k\<close>, no job is ever retried more than \<open>k\<close> times.
\<close>

theorem job_deadline_and_retries:
  assumes "0 \<le> k" and "list_all (reaps_with k) ops"
    and "mem_Snapshot jid (fold mem_step ops newMemoryJobStore) = Some js"
  shows "(ProcessingDeadline js \<noteq> None) = (Status js = JobProcessing) \<and> 0 \<le> RetryCount js \<and> RetryCount js \<le> k"
proof -
  have "job_ok k js"
    using mem.run_job_ok [OF assms(1), of newMemoryJobStore 300000000000 ops jid js] mem_new_ok assms(2,3)
    by simp
  then show ?thesis by (simp add: job_ok_def)
qed

theorem job_deadline_and_retries_witness:
  "\<exists>js :: nat JobState. mem_Snapshot ''a'' (fold mem_step [Create 0 ''a'', Update 1 1 ''a'' JobProcessing None '''',
       Reap 300000000001 2, Update 300000000002 300000000002 ''a'' JobProcessing None ''''] newMemoryJobStore) = Some js \<and>
     (ProcessingDeadline js \<noteq> None) = (Status js = JobProcessing) \<and> 0 \<le> RetryCount js \<and> RetryCount js \<le> 2"
proof -
  let ?ops = "[Create 0 ''a'', Update 1 1 ''a'' JobProcessing None '''',
       Reap 300000000001 2, Update 300000000002 300000000002 ''a'' JobProcessing None ''''] :: nat job_op list"
  have "mem_Snapshot ''a'' (fold mem_step ?ops newMemoryJobStore) = fold (tab_step 300000000000) ?ops Map.empty ''a''"
    using fun_cong [OF mem.run_view [OF mem_new_ok, of ?ops], of "''a''"] by simp
  then obtain js where js: "mem_Snapshot ''a'' (fold mem_step ?ops newMemoryJobStore) = Some js" by simp
  with job_deadline_and_retries [OF _ _ js, of 2] show ?thesis by auto
qed

text \<open>
  In every reachable state, \<open>ReapStale\<close> returns the number of jobs whose deadline has passed, leaves no such job
  behind, and changes no other job.
\<close>

theorem reap_handles_all_stale:
  "let s = fold mem_step ops newMemoryJobStore; (count, s') = mem_ReapStale now k s
   in count = int (card {jid. \<exists>js. mem_Snapshot jid s = Some js \<and> stale now js}) \<and>
      \<not> (\<exists>jid js. mem_Snapshot jid s' = Some js \<and> stale now js) \<and>
      {jid. mem_Snapshot jid s' \<noteq> mem_Snapshot jid s} \<subseteq> {jid. \<exists>js. mem_Snapshot jid s = Some js \<and> stale now js}"
proof -
  let ?s = "fold mem_step ops newMemoryJobStore"
  have ok: "mem_ok ?s" using mem.run_ok [OF mem_new_ok] by blast
  have view: "mem_Snapshot jid (snd (mem_ReapStale now k ?s)) = map_option (\<lambda>js. fst (reap_job now k js)) (mem_Snapshot jid ?s)" for jid
    using mem_reap(1) [OF ok] by (rule fun_cong)
  have "\<exists>js. mem_Snapshot jid ?s = Some js \<and> stale now js"
    if "mem_Snapshot jid (snd (mem_ReapStale now k ?s)) \<noteq> mem_Snapshot jid ?s" for jid
    using that by (cases "mem_Snapshot jid ?s") (auto simp: view, metis reap_job_stale(2))
  then show ?thesis
    using mem_reap_count [OF ok, of now k] by (auto simp: Let_def case_prod_beta view reap_job_stale(3))
qed

text \<open>
  A job whose workers never finish does not stay unnoticed: after being started and reaped past its deadline
  once more than the retry limit, it is failed, with the error saying so.
\<close>

theorem stuck_job_fails:
  assumes "length ts = nat k" and "0 \<le> k"
  shows "map_option (\<lambda>js. (Status js, Error js)) (mem_Snapshot jid (fold mem_step
     (Create t0 jid # concat (map (\<lambda>t. [Update t t jid JobProcessing None '''', Reap (t + 300000000000) k]) (ts @ [t1])))
     (newMemoryJobStore :: 'r memoryJobStore))) = Some (JobFailed, ''max retries exceeded'')"
proof -
  let ?T = "tab_step 300000000000 (Create t0 jid) (Map.empty :: 'r table)"
  let ?rounds = "\<lambda>ts. concat (map (\<lambda>t. [Update t t jid JobProcessing None '''', Reap (t + 300000000000) k]) ts) :: 'r job_op list"
  obtain js where js: "fold (tab_step 300000000000) (?rounds ts) ?T jid = Some js" "Status js \<noteq> JobFailed" "RetryCount js = k"
    using stuck_rounds [of ?T jid "new_job t0 jid" ts k 300000000000] assms by (auto simp: new_job_def)
  have "mem_Snapshot jid (fold mem_step (Create t0 jid # ?rounds (ts @ [t1])) newMemoryJobStore) =
      fold (tab_step 300000000000) (Create t0 jid # ?rounds (ts @ [t1])) Map.empty jid"
    using fun_cong [OF mem.run_view [OF mem_new_ok, of "Create t0 jid # ?rounds (ts @ [t1])"], of jid] by simp
  also have "\<dots> = Some (fst (reap_job (t1 + 300000000000) k (update_job t1 t1 300000000000 JobProcessing None '''' js)))"
    using js by simp
  finally have eq: "mem_Snapshot jid (fold mem_step (Create t0 jid # ?rounds (ts @ [t1])) newMemoryJobStore) =
      Some (fst (reap_job (t1 + 300000000000) k (update_job t1 t1 300000000000 JobProcessing None '''' js)))" .
  show ?thesis unfolding eq using js(3) by (simp add: reap_job_def update_job_def)
qed

theorem stuck_job_fails_witness:
  "map_option (\<lambda>js. (Status js, Error js)) (mem_Snapshot ''a'' (fold mem_step
     (Create 0 ''a'' # concat (map (\<lambda>t. [Update t t ''a'' JobProcessing None '''', Reap (t + 300000000000) 1]) ([1] @ [2])))
     (newMemoryJobStore :: nat memoryJobStore))) = Some (JobFailed, ''max retries exceeded'')"
  by (rule stuck_job_fails) simp_all

end
