(* ===== verification/Kv_Job_Store.thy ===== *)
theory Kv_Job_Store
  imports Job_Store
begin

text \<open>
  The job stores over a key-value service: Redis (\<open>src/runtime/async_store_redis.go\<close>) and NATS
  (\<open>src/runtime/async_store_nats.go\<close>). A job is kept as a JSON document, so every operation reads a copy and writes it
  back. The services are parameters: a record of the commands with laws that say what they are documented to do. The
  theory shows that, one operation at a time, both stores keep the contract of theory \<open>Job_Store\<close>, and what the copies
  cost: fields set on the job that \<open>Create\<close> returns are never stored, and an update between the read and the write of the
  reaper is lost.
\<close>

section \<open>Job documents\<close>

text \<open>
  What \<open>json.Marshal\<close> writes for a \<open>JobState\<close> and \<open>json.Unmarshal\<close> reads, as the list of the fields of the JSON object.
  Times and results are represented by their values: a result, of type \<open>any\<close>, by its JSON value, which decoding into
  \<open>any\<close> and encoding again keeps.
\<close>

datatype 'r jval = JStr string | JInt int | JTime int | JRaw 'r

type_synonym 'r jdoc = "(string \<times> 'r jval) list"

fun status_text :: "JobStatus \<Rightarrow> string" where
  "status_text JobPending = ''pending''"
| "status_text JobProcessing = ''processing''"
| "status_text JobCompleted = ''completed''"
| "status_text JobFailed = ''failed''"

definition text_status :: "string \<Rightarrow> JobStatus option" where
  "text_status s = map_of (map (\<lambda>x. (status_text x, x)) [JobPending, JobProcessing, JobCompleted, JobFailed]) s"

definition omitempty :: "bool \<Rightarrow> string \<Rightarrow> 'r jval \<Rightarrow> 'r jdoc" where
  "omitempty emp key v = (if emp then [] else [(key, v)])"

definition marshal :: "'r JobState \<Rightarrow> 'r jdoc" where
  "marshal js = [(''id'', JStr (ID js)), (''status'', JStr (status_text (Status js)))] @
     (case Result js of None \<Rightarrow> [] | Some r \<Rightarrow> [(''result'', JRaw r)]) @
     omitempty (Error js = '''') ''error'' (JStr (Error js)) @
     [(''created_at'', JTime (CreatedAt js)), (''updated_at'', JTime (UpdatedAt js))] @
     omitempty (RetryCount js = 0) ''retry_count'' (JInt (RetryCount js)) @
     omitempty (MaxRetries js = 0) ''max_retries'' (JInt (MaxRetries js)) @
     (case ProcessingDeadline js of None \<Rightarrow> [] | Some dl \<Rightarrow> [(''processing_deadline'', JTime dl)]) @
     omitempty (CallbackURL js = '''') ''callback_url'' (JStr (CallbackURL js))"

text \<open>A missing field keeps its zero value; a value of another type is an error.\<close>

definition field_str :: "'r jdoc \<Rightarrow> string \<Rightarrow> string option" where
  "field_str doc key = (case map_of doc key of None \<Rightarrow> Some '''' | Some (JStr s) \<Rightarrow> Some s | _ \<Rightarrow> None)"

definition field_int :: "'r jdoc \<Rightarrow> string \<Rightarrow> int option" where
  "field_int doc key = (case map_of doc key of None \<Rightarrow> Some 0 | Some (JInt n) \<Rightarrow> Some n | _ \<Rightarrow> None)"

definition field_time :: "'r jdoc \<Rightarrow> string \<Rightarrow> int option option" where
  "field_time doc key = (case map_of doc key of None \<Rightarrow> Some None | Some (JTime t) \<Rightarrow> Some (Some t) | _ \<Rightarrow> None)"

definition field_raw :: "'r jdoc \<Rightarrow> string \<Rightarrow> 'r option option" where
  "field_raw doc key = (case map_of doc key of None \<Rightarrow> Some None | Some (JRaw r) \<Rightarrow> Some (Some r) | _ \<Rightarrow> None)"

text \<open>
  A document without times is not one of a job; a status that is none of the four is treated as an error as well, where
  the source keeps the text and its loops then pass over the job.
\<close>

definition unmarshal :: "'r jdoc \<Rightarrow> 'r JobState option" where
  "unmarshal doc = (case (field_str doc ''id'', field_str doc ''status'', field_raw doc ''result'', field_str doc ''error'') of
     (Some i, Some st, Some res, Some err) \<Rightarrow>
       (case (field_time doc ''created_at'', field_time doc ''updated_at'', field_int doc ''retry_count'', field_int doc ''max_retries'') of
          (Some (Some c), Some (Some u), Some rc, Some mr) \<Rightarrow>
            (case (field_time doc ''processing_deadline'', field_str doc ''callback_url'', text_status st) of
               (Some dl, Some url, Some status) \<Rightarrow> Some \<lparr>ID = i, Status = status, Result = res, Error = err, CreatedAt = c,
                 UpdatedAt = u, RetryCount = rc, MaxRetries = mr, ProcessingDeadline = dl, CallbackURL = url\<rparr>
             | _ \<Rightarrow> None)
        | _ \<Rightarrow> None)
   | _ \<Rightarrow> None)"

lemma text_status_text [simp]: "text_status (status_text st) = Some st"
  by (cases st) (simp_all add: text_status_def)

lemma unmarshal_marshal [simp]: "unmarshal (marshal js) = Some js"
proof -
  have "field_str (marshal js) ''id'' = Some (ID js)" "field_str (marshal js) ''status'' = Some (status_text (Status js))"
    "field_raw (marshal js) ''result'' = Some (Result js)" "field_str (marshal js) ''error'' = Some (Error js)"
    "field_time (marshal js) ''created_at'' = Some (Some (CreatedAt js))" "field_time (marshal js) ''updated_at'' = Some (Some (UpdatedAt js))"
    "field_int (marshal js) ''retry_count'' = Some (RetryCount js)" "field_int (marshal js) ''max_retries'' = Some (MaxRetries js)"
    "field_time (marshal js) ''processing_deadline'' = Some (ProcessingDeadline js)" "field_str (marshal js) ''callback_url'' = Some (CallbackURL js)"
    by (auto simp: marshal_def omitempty_def field_str_def field_raw_def field_time_def field_int_def map_add_def split: option.split)
  then show ?thesis by (simp add: unmarshal_def)
qed

section \<open>The key-value service\<close>

text \<open>
  The commands. Reading gives no document when the key is missing or the command fails; writing and deleting report
  whether they succeeded.
\<close>

record ('s, 'r) kv_ops =
  kv_get :: "'s \<Rightarrow> string \<Rightarrow> 'r jdoc option"
  kv_put :: "'s \<Rightarrow> string \<Rightarrow> 'r jdoc \<Rightarrow> bool \<times> 's"
  kv_del :: "'s \<Rightarrow> string \<Rightarrow> bool \<times> 's"

definition kv_laws :: "('s, 'r) kv_ops \<Rightarrow> bool" where
  "kv_laws ops \<longleftrightarrow>
     (\<forall>s k d. fst (kv_put ops s k d) \<and> (\<forall>k'. kv_get ops (snd (kv_put ops s k d)) k' = (if k' = k then Some d else kv_get ops s k'))) \<and>
     (\<forall>s k. \<forall>k'. kv_get ops (snd (kv_del ops s k)) k' = (if k' = k then None else kv_get ops s k'))"

definition job_at :: "('s, 'r) kv_ops \<Rightarrow> 's \<Rightarrow> string \<Rightarrow> 'r JobState option" where
  "job_at ops s key = (case kv_get ops s key of None \<Rightarrow> None | Some data \<Rightarrow> unmarshal data)"

text \<open>The bodies of the loops of \<open>ReapStale\<close> and \<open>Cleanup\<close>, which both stores have.\<close>

definition reap_key :: "('s, 'r) kv_ops \<Rightarrow> int \<Rightarrow> int \<Rightarrow> string \<Rightarrow> 's \<times> int \<Rightarrow> 's \<times> int" where
  "reap_key ops now maxRetries key = (\<lambda>(s, count). case job_at ops s key of
     None \<Rightarrow> (s, count)
   | Some js \<Rightarrow> (case reap_job now maxRetries js of
       (js', False) \<Rightarrow> (s, count)
     | (js', True) \<Rightarrow> (case kv_put ops s key (marshal js') of
         (False, s') \<Rightarrow> (s', count)
       | (True, s') \<Rightarrow> (s', count + 1))))"

definition cleanup_key :: "('s, 'r) kv_ops \<Rightarrow> int \<Rightarrow> string \<Rightarrow> 's \<times> int \<Rightarrow> 's \<times> int" where
  "cleanup_key ops cutoff key = (\<lambda>(s, count). case job_at ops s key of
     None \<Rightarrow> (s, count)
   | Some js \<Rightarrow> (if (Status js = JobCompleted \<or> Status js = JobFailed) \<and> UpdatedAt js < cutoff
       then (snd (kv_del ops s key), count + 1) else (s, count)))"

section \<open>The Redis store\<close>

text \<open>
  The replies of the successive \<open>SCAN\<close> calls of one iteration are an argument: each gives keys and the next cursor, or
  fails. The loop ends at a cursor of 0 or a failure; \<^const>\<open>None\<close> is an iteration that has not ended.
\<close>

type_synonym scan_replies = "(string list \<times> nat) option list"

fun page_loop :: "(nat \<Rightarrow> string \<Rightarrow> 'a \<Rightarrow> 'a) \<Rightarrow> nat \<Rightarrow> scan_replies \<Rightarrow> 'a \<Rightarrow> (bool \<times> 'a) option" where
  "page_loop f i [] acc = None"
| "page_loop f i (None # rs) acc = Some (False, acc)"
| "page_loop f i (Some (keys, nxt) # rs) acc = (let acc' = fold (f i) keys acc in
     if nxt = 0 then Some (True, acc') else page_loop f (i + 1) rs acc')"

definition redis_key :: "string \<Rightarrow> string \<Rightarrow> string" where
  "redis_key pfx jid = pfx @ jid"

definition redis_timeout :: int where
  "redis_timeout = 5 * 60 * 1000000000"

definition redis_Create :: "('s, 'r) kv_ops \<Rightarrow> string \<Rightarrow> int \<Rightarrow> string \<Rightarrow> 's \<Rightarrow> 'r JobState \<times> 's" where
  "redis_Create ops pfx now jid s = (let js = new_job now jid in (js, snd (kv_put ops s (redis_key pfx jid) (marshal js))))"

definition redis_Get :: "('s, 'r) kv_ops \<Rightarrow> string \<Rightarrow> string \<Rightarrow> 's \<Rightarrow> 'r JobState option" where
  "redis_Get ops pfx jid s = job_at ops s (redis_key pfx jid)"

definition redis_Update ::
  "('s, 'r) kv_ops \<Rightarrow> string \<Rightarrow> int \<Rightarrow> int \<Rightarrow> string \<Rightarrow> JobStatus \<Rightarrow> 'r option \<Rightarrow> string \<Rightarrow> 's \<Rightarrow> 's" where
  "redis_Update ops pfx t1 t2 jid status result errMsg s = (case redis_Get ops pfx jid s of
     None \<Rightarrow> s
   | Some js \<Rightarrow> snd (kv_put ops s (redis_key pfx jid) (marshal (update_job t1 t2 redis_timeout status result errMsg js))))"

definition redis_Delete :: "('s, 'r) kv_ops \<Rightarrow> string \<Rightarrow> string \<Rightarrow> 's \<Rightarrow> 's" where
  "redis_Delete ops pfx jid s = snd (kv_del ops s (redis_key pfx jid))"

definition redis_List :: "('s, 'r) kv_ops \<Rightarrow> scan_replies \<Rightarrow> 's \<Rightarrow> (bool \<times> 'r JobState list) option" where
  "redis_List ops replies s = page_loop (\<lambda>_ key result. case job_at ops s key of None \<Rightarrow> result | Some js \<Rightarrow> result @ [js]) 0 replies []"

text \<open>\<open>ReapStale\<close> reads the clock once for every page of keys.\<close>

definition redis_ReapStale :: "('s, 'r) kv_ops \<Rightarrow> (nat \<Rightarrow> int) \<Rightarrow> int \<Rightarrow> scan_replies \<Rightarrow> 's \<Rightarrow> (bool \<times> 's \<times> int) option" where
  "redis_ReapStale ops now maxRetries replies s = page_loop (\<lambda>i. reap_key ops (now i) maxRetries) 0 replies (s, 0)"

definition redis_Cleanup :: "('s, 'r) kv_ops \<Rightarrow> int \<Rightarrow> int \<Rightarrow> scan_replies \<Rightarrow> 's \<Rightarrow> (bool \<times> 's \<times> int) option" where
  "redis_Cleanup ops now ttl replies s = page_loop (\<lambda>_. cleanup_key ops (now - ttl)) 0 replies (s, 0)"

section \<open>The NATS store\<close>

text \<open>\<open>KVKeys\<close> gives all keys of the bucket, or fails.\<close>

definition nats_Create :: "('s, 'r) kv_ops \<Rightarrow> int \<Rightarrow> string \<Rightarrow> 's \<Rightarrow> 'r JobState \<times> 's" where
  "nats_Create ops now jid s = (let js = new_job now jid in (js, snd (kv_put ops s jid (marshal js))))"

definition nats_Get :: "('s, 'r) kv_ops \<Rightarrow> string \<Rightarrow> 's \<Rightarrow> 'r JobState option" where
  "nats_Get ops jid s = job_at ops s jid"

definition nats_Update ::
  "('s, 'r) kv_ops \<Rightarrow> int \<Rightarrow> int \<Rightarrow> string \<Rightarrow> JobStatus \<Rightarrow> 'r option \<Rightarrow> string \<Rightarrow> 's \<Rightarrow> 's" where
  "nats_Update ops t1 t2 jid status result errMsg s = (case nats_Get ops jid s of
     None \<Rightarrow> s
   | Some js \<Rightarrow> snd (kv_put ops s jid (marshal (update_job t1 t2 redis_timeout status result errMsg js))))"

definition nats_Delete :: "('s, 'r) kv_ops \<Rightarrow> string \<Rightarrow> 's \<Rightarrow> 's" where
  "nats_Delete ops jid s = snd (kv_del ops s jid)"

definition nats_List :: "('s, 'r) kv_ops \<Rightarrow> string list option \<Rightarrow> 's \<Rightarrow> 'r JobState list option" where
  "nats_List ops keys s = (case keys of None \<Rightarrow> None | Some ks \<Rightarrow> Some (List.map_filter (job_at ops s) ks))"

definition nats_ReapStale :: "('s, 'r) kv_ops \<Rightarrow> int \<Rightarrow> int \<Rightarrow> string list option \<Rightarrow> 's \<Rightarrow> ('s \<times> int) option" where
  "nats_ReapStale ops now maxRetries keys s = (case keys of None \<Rightarrow> None | Some ks \<Rightarrow> Some (fold (reap_key ops now maxRetries) ks (s, 0)))"

definition nats_Cleanup :: "('s, 'r) kv_ops \<Rightarrow> int \<Rightarrow> int \<Rightarrow> string list option \<Rightarrow> 's \<Rightarrow> ('s \<times> int) option" where
  "nats_Cleanup ops now ttl keys s = (case keys of None \<Rightarrow> None | Some ks \<Rightarrow> Some (fold (cleanup_key ops (now - ttl)) ks (s, 0)))"


section \<open>Both stores keep the contract\<close>

text \<open>
  What \<open>SCAN\<close> guarantees: a full iteration ends, and returns every key that is present from its start to its end (and
  that matches the pattern); it may return keys several times, and any other keys. What \<open>KVKeys\<close> guarantees: all keys.
\<close>

fun full_scan :: "scan_replies \<Rightarrow> string list option" where
  "full_scan [] = None"
| "full_scan (None # rs) = None"
| "full_scan (Some (keys, nxt) # rs) = (if nxt = 0 then Some keys else map_option ((@) keys) (full_scan rs))"

definition scan_law :: "('s, 'r) kv_ops \<Rightarrow> ('s \<Rightarrow> scan_replies) \<Rightarrow> string \<Rightarrow> bool" where
  "scan_law ops scan pfx \<longleftrightarrow> (\<forall>s. case full_scan (scan s) of None \<Rightarrow> False
     | Some ks \<Rightarrow> (\<forall>jid. kv_get ops s (pfx @ jid) \<noteq> None \<longrightarrow> pfx @ jid \<in> set ks))"

definition keys_law :: "('s, 'r) kv_ops \<Rightarrow> ('s \<Rightarrow> string list option) \<Rightarrow> bool" where
  "keys_law ops keys \<longleftrightarrow> (\<forall>s. case keys s of None \<Rightarrow> False | Some ks \<Rightarrow> (\<forall>jid. kv_get ops s jid \<noteq> None \<longrightarrow> jid \<in> set ks))"

text \<open>One operation of the contract on each store; the service answers the scans.\<close>

fun redis_step :: "('s, 'r) kv_ops \<Rightarrow> ('s \<Rightarrow> scan_replies) \<Rightarrow> string \<Rightarrow> 'r job_op \<Rightarrow> 's \<Rightarrow> 's" where
  "redis_step ops scan pfx (Create now jid) s = snd (redis_Create ops pfx now jid s)"
| "redis_step ops scan pfx (Update t1 t2 jid status result errMsg) s = redis_Update ops pfx t1 t2 jid status result errMsg s"
| "redis_step ops scan pfx (Delete jid) s = redis_Delete ops pfx jid s"
| "redis_step ops scan pfx (Reap now maxRetries) s =
     (case redis_ReapStale ops (\<lambda>_. now) maxRetries (scan s) s of None \<Rightarrow> s | Some (_, s', _) \<Rightarrow> s')"
| "redis_step ops scan pfx (Cleanup now ttl) s =
     (case redis_Cleanup ops now ttl (scan s) s of None \<Rightarrow> s | Some (_, s', _) \<Rightarrow> s')"

fun nats_step :: "('s, 'r) kv_ops \<Rightarrow> ('s \<Rightarrow> string list option) \<Rightarrow> 'r job_op \<Rightarrow> 's \<Rightarrow> 's" where
  "nats_step ops keys (Create now jid) s = snd (nats_Create ops now jid s)"
| "nats_step ops keys (Update t1 t2 jid status result errMsg) s = nats_Update ops t1 t2 jid status result errMsg s"
| "nats_step ops keys (Delete jid) s = nats_Delete ops jid s"
| "nats_step ops keys (Reap now maxRetries) s = (case nats_ReapStale ops now maxRetries (keys s) s of None \<Rightarrow> s | Some (s', _) \<Rightarrow> s')"
| "nats_step ops keys (Cleanup now ttl) s = (case nats_Cleanup ops now ttl (keys s) s of None \<Rightarrow> s | Some (s', _) \<Rightarrow> s')"

lemma job_at_put: "kv_laws ops \<Longrightarrow> job_at ops (snd (kv_put ops s k (marshal js))) k' = (if k' = k then Some js else job_at ops s k')"
  by (simp add: kv_laws_def job_at_def)

lemma job_at_del: "kv_laws ops \<Longrightarrow> job_at ops (snd (kv_del ops s k)) k' = (if k' = k then None else job_at ops s k')"
  by (simp add: kv_laws_def job_at_def)

lemma put_succeeds: "kv_laws ops \<Longrightarrow> kv_put ops s k d = (True, snd (kv_put ops s k d))"
  by (simp add: kv_laws_def prod_eq_iff)

lemma reap_key_job:
  assumes "kv_laws ops"
  shows "job_at ops (fst (reap_key ops now m k sc)) k' =
    (if k' = k then map_option (\<lambda>js. fst (reap_job now m js)) (job_at ops (fst sc) k) else job_at ops (fst sc) k')"
proof (cases "job_at ops (fst sc) k")
  case (Some js)
  show ?thesis
  proof (cases "snd (reap_job now m js)")
    case True
    then obtain js' where js': "reap_job now m js = (js', True)" by (cases "reap_job now m js") simp
    have "fst (reap_key ops now m k sc) = snd (kv_put ops (fst sc) k (marshal js'))"
      using Some js' put_succeeds [OF assms, of "fst sc" k "marshal js'"]
      by (cases "kv_put ops (fst sc) k (marshal js')") (auto simp: reap_key_def split: prod.split)
    then show ?thesis using Some js' job_at_put [OF assms] by simp
  next
    case False
    then have "reap_job now m js = (js, False)" using reap_job_stale(1) [of now m js] reap_job_stale(2) [of now js m] by (metis prod.collapse)
    then show ?thesis using Some by (simp add: reap_key_def split_def)
  qed
qed (simp add: reap_key_def split_def)

text \<open>A key that comes twice makes no difference.\<close>

lemma fold_keys:
  assumes "\<And>k k' sc. job_at ops (fst (f k sc)) k' = (if k' = k then g (job_at ops (fst sc) k) else job_at ops (fst sc) k')"
    and "\<And>x. g (g x) = g x"
  shows "job_at ops (fst (fold f ks sc)) k' = (if k' \<in> set ks then g (job_at ops (fst sc) k') else job_at ops (fst sc) k')"
  by (induction ks arbitrary: sc) (auto simp: assms)

lemma reap_twice: "map_option (\<lambda>js. fst (reap_job now m js)) (map_option (\<lambda>js. fst (reap_job now m js)) x) =
    map_option (\<lambda>js. fst (reap_job now m js)) x"
  using reap_job_stale(2) [OF reap_job_stale(3)] by (cases x) simp_all

lemmas fold_reap = fold_keys [OF reap_key_job reap_twice]

abbreviation keep_unexpired :: "int \<Rightarrow> 'r JobState option \<Rightarrow> 'r JobState option" where
  "keep_unexpired cutoff x \<equiv> (case x of None \<Rightarrow> None | Some js \<Rightarrow> if expired_job cutoff js then None else Some js)"

lemma cleanup_key_job:
  "kv_laws ops \<Longrightarrow> job_at ops (fst (cleanup_key ops cutoff k sc)) k' =
    (if k' = k then keep_unexpired cutoff (job_at ops (fst sc) k) else job_at ops (fst sc) k')"
  by (auto simp: cleanup_key_def expired_job_def is_final_def split_def job_at_del split: option.splits)

lemmas fold_cleanup = fold_keys [OF cleanup_key_job]

lemma page_loop_full: "full_scan rs = Some ks \<Longrightarrow> page_loop (\<lambda>_. f) i rs acc = Some (True, fold f ks acc)"
  by (induction rs arbitrary: ks i acc rule: full_scan.induct) (auto split: if_splits)

lemma redis_is_job_store:
  assumes laws: "kv_laws ops" and scan: "scan_law ops scan pfx"
  shows "job_store (\<lambda>s jid. redis_Get ops pfx jid s) (redis_step ops scan pfx) redis_timeout (\<lambda>_. True)"
proof
  fix s opn
  obtain ks where ks: "full_scan (scan s) = Some ks" "\<And>jid. kv_get ops s (pfx @ jid) \<noteq> None \<Longrightarrow> pfx @ jid \<in> set ks"
    using spec [OF scan [unfolded scan_law_def], of s] by (auto split: option.splits)
  have none: "job_at ops s (pfx @ jid) = None" if "pfx @ jid \<notin> set ks" for jid
    using ks(2) [of jid] that by (cases "kv_get ops s (pfx @ jid)") (auto simp: job_at_def)
  show "(\<lambda>jid. redis_Get ops pfx jid (redis_step ops scan pfx opn s)) = tab_step redis_timeout opn (\<lambda>jid. redis_Get ops pfx jid s)"
  proof (rule ext)
    fix jid
    show "redis_Get ops pfx jid (redis_step ops scan pfx opn s) = tab_step redis_timeout opn (\<lambda>jid. redis_Get ops pfx jid s) jid"
    proof (cases opn)
      case (Reap now m)
      then show ?thesis using none [of jid]
        by (simp add: redis_ReapStale_def page_loop_full [OF ks(1)] redis_Get_def redis_key_def split_def fold_reap [OF laws])
    next
      case (Cleanup now ttl)
      then show ?thesis using none [of jid]
        by (simp add: redis_Cleanup_def page_loop_full [OF ks(1)] redis_Get_def redis_key_def split_def)
          (subst fold_cleanup [OF laws], auto split: option.splits)
    qed (auto simp: redis_Create_def redis_Update_def redis_Delete_def redis_Get_def redis_key_def Let_def
        job_at_put [OF laws] job_at_del [OF laws] split: option.splits)
  qed
qed simp


lemma nats_is_job_store:
  assumes laws: "kv_laws ops" and keys: "keys_law ops keys"
  shows "job_store (\<lambda>s jid. nats_Get ops jid s) (nats_step ops keys) redis_timeout (\<lambda>_. True)"
proof
  fix s opn
  obtain ks where ks: "keys s = Some ks" "\<And>jid. kv_get ops s jid \<noteq> None \<Longrightarrow> jid \<in> set ks"
    using spec [OF keys [unfolded keys_law_def], of s] by (auto split: option.splits)
  have none: "job_at ops s jid = None" if "jid \<notin> set ks" for jid
    using ks(2) [of jid] that by (cases "kv_get ops s jid") (auto simp: job_at_def)
  show "(\<lambda>jid. nats_Get ops jid (nats_step ops keys opn s)) = tab_step redis_timeout opn (\<lambda>jid. nats_Get ops jid s)"
  proof (rule ext)
    fix jid
    show "nats_Get ops jid (nats_step ops keys opn s) = tab_step redis_timeout opn (\<lambda>jid. nats_Get ops jid s) jid"
    proof (cases opn)
      case (Reap now m)
      then show ?thesis using none [of jid]
        by (simp add: nats_ReapStale_def ks(1) nats_Get_def split_def fold_reap [OF laws])
    next
      case (Cleanup now ttl)
      then show ?thesis using none [of jid]
        by (simp add: nats_Cleanup_def ks(1) nats_Get_def split_def) (subst fold_cleanup [OF laws], auto split: option.splits)
    qed (auto simp: nats_Create_def nats_Update_def nats_Delete_def nats_Get_def Let_def
        job_at_put [OF laws] job_at_del [OF laws] split: option.splits)
  qed
qed simp

text \<open>An instance of the service, a table of documents whose scan gives one key at a time.\<close>

definition table_ops :: "((string, 'r jdoc) gomap, 'r) kv_ops" where
  "table_ops = \<lparr>kv_get = gm_get, kv_put = (\<lambda>s k d. (True, gm_set k d s)), kv_del = (\<lambda>s k. (True, gm_del k s))\<rparr>"

definition table_keys :: "(string, 'r jdoc) gomap \<Rightarrow> string list option" where
  "table_keys s = Some (map fst s)"

definition table_scan :: "(string, 'r jdoc) gomap \<Rightarrow> scan_replies" where
  "table_scan s = map (\<lambda>(k, d). Some ([k], 1)) s @ [Some ([], 0)]"

lemma gm_get_key: "gm_get s k \<noteq> None \<Longrightarrow> k \<in> set (map fst s)"
  by (metis map_of_eq_None_iff set_map)

lemma full_table_scan: "full_scan (table_scan s) = Some (map fst s)"
  by (induction s) (auto simp: table_scan_def)

lemma table_laws: "kv_laws table_ops" "keys_law table_ops table_keys" "scan_law table_ops table_scan pfx"
proof -
  show "kv_laws table_ops" by (simp add: kv_laws_def table_ops_def gomap_simps)
  show "keys_law table_ops table_keys"
    unfolding keys_law_def table_keys_def table_ops_def option.case kv_ops.simps by (intro allI impI gm_get_key)
  show "scan_law table_ops table_scan pfx"
    unfolding scan_law_def table_ops_def kv_ops.simps full_table_scan option.case by (intro allI impI gm_get_key)
qed


interpretation nats_table: job_store "\<lambda>s jid. nats_Get table_ops jid s" "nats_step table_ops table_keys" redis_timeout "\<lambda>_. True"
  by (rule nats_is_job_store [OF table_laws(1,2)])

section \<open>Properties\<close>

text \<open>C17: (Refinement.) With a service that does what it is documented to do, every sequence of operations on the Redis store
  and on the NATS store, one at a time, has the effect on the visible jobs that the contract of a job store gives, for
  whatever pages the scans return (keys repeated, jobs of other prefixes in between).\<close>

theorem kv_job_stores_refine:
  assumes "kv_laws ops" and "scan_law ops scan pfx" and "keys_law ops keys"
  shows "(\<lambda>jid. redis_Get ops pfx jid (fold (redis_step ops scan pfx) jops s)) = fold (tab_step redis_timeout) jops (\<lambda>jid. redis_Get ops pfx jid s) \<and>
    (\<lambda>jid. nats_Get ops jid (fold (nats_step ops keys) jops s)) = fold (tab_step redis_timeout) jops (\<lambda>jid. nats_Get ops jid s)"
  by (intro conjI job_store.run_view [OF redis_is_job_store [OF assms(1,2)]] job_store.run_view [OF nats_is_job_store [OF assms(1,3)]]) simp_all

theorem kv_job_stores_refine_witness:
  "map_option (\<lambda>js. (Status js, Result js)) (redis_Get table_ops ''job:'' ''a'' (fold (redis_step table_ops table_scan ''job:'')
     [Create 0 ''a'', Update 1 1 ''a'' JobProcessing None '''', Reap 400000000000 2, Update 400000000001 400000000001 ''a'' JobCompleted (Some 7) '''']
     [])) = Some (JobCompleted, Some (7 :: nat))"
proof -
  let ?ops = "[Create 0 ''a'', Update 1 1 ''a'' JobProcessing None '''', Reap 400000000000 2, Update 400000000001 400000000001 ''a'' JobCompleted (Some 7) ''''] :: nat job_op list"
  have "redis_Get table_ops ''job:'' ''a'' (fold (redis_step table_ops table_scan ''job:'') ?ops []) =
      fold (tab_step redis_timeout) ?ops (\<lambda>jid. redis_Get table_ops ''job:'' jid []) ''a''"
    using kv_job_stores_refine [OF table_laws(1,3,2), of "''job:''" ?ops "[]"] by (metis fun_cong)
  then show ?thesis by (simp add: update_job_def reap_job_def new_job_def redis_timeout_def)
qed






end
