(* ===== verification/Rolling_Window.thy ===== *)
theory Rolling_Window
  imports Go_Prelude
begin

text \<open>
  \<open>src/infra/collection/rollingwindow.go\<close>: counters over the last \<open>size\<close> intervals of time.

  The buckets are a parameter of the Go type (\<open>BucketInterface\<close>); here they are an interface, the
  locale \<open>bucket_ops\<close>, whose law relates a bucket to the list of values added since its last reset.
  Inside the locale the window is shown to hold, for each of the last \<open>size\<close> intervals, exactly the
  values added in that interval.  The locale is interpreted on the counting \<open>Bucket\<close> of the same
  source file, and in theory \<open>Google_Breaker\<close> on the bucket of the circuit breaker.
\<close>

section \<open>The window\<close>

text \<open>
  \<open>RollingWindow\<close> together with the \<open>window\<close> it points to: \<open>win.size\<close> equals \<open>size\<close> and
  \<open>len(buckets) = size\<close> by construction, the fields being private to the package.
\<close>

record 'b RollingWindow =
  rw_size :: nat
  buckets :: "'b list"
  interval :: int
  offset :: nat
  ignoreCurrent :: bool
  lastTime :: int

definition NewRollingWindow ::
  "'b \<Rightarrow> int \<Rightarrow> int \<Rightarrow> ('b RollingWindow \<Rightarrow> 'b RollingWindow) list \<Rightarrow> int \<Rightarrow> panic + 'b RollingWindow" where
  "NewRollingWindow newBucket n ival opts now =
     (if n < 1 then Inl (ExplicitPanic ''size must be greater than 0'')
      else Inr (fold (\<lambda>opt w. opt w) opts
             \<lparr>rw_size = nat n, buckets = replicate (nat n) newBucket, interval = ival,
              offset = 0, ignoreCurrent = False, lastTime = now\<rparr>))"

definition IgnoreCurrentBucket :: "'b RollingWindow \<Rightarrow> 'b RollingWindow" where
  "IgnoreCurrentBucket w = w\<lparr>ignoreCurrent := True\<rparr>"

definition rw_span :: "int \<Rightarrow> 'b RollingWindow \<Rightarrow> panic + nat" where
  "rw_span now rw =
     (if interval rw = 0 then Inl DivideByZero
      else let off = go_quot (now - lastTime rw) (interval rw)
           in if 0 \<le> off \<and> off < int (rw_size rw) then Inr (nat off) else Inr (rw_size rw))"

definition resetBucket :: "('b \<Rightarrow> 'b) \<Rightarrow> nat \<Rightarrow> 'b RollingWindow \<Rightarrow> 'b RollingWindow" where
  "resetBucket breset off rw =
     rw\<lparr>buckets := (buckets rw)[off mod rw_size rw := breset (buckets rw ! (off mod rw_size rw))]\<rparr>"

definition win_add :: "('v \<Rightarrow> 'b \<Rightarrow> 'b) \<Rightarrow> nat \<Rightarrow> 'v \<Rightarrow> 'b RollingWindow \<Rightarrow> 'b RollingWindow" where
  "win_add badd off v rw =
     rw\<lparr>buckets := (buckets rw)[off mod rw_size rw := badd v (buckets rw ! (off mod rw_size rw))]\<rparr>"

definition reset_loop :: "('b \<Rightarrow> 'b) \<Rightarrow> nat \<Rightarrow> nat \<Rightarrow> 'b RollingWindow \<Rightarrow> 'b RollingWindow" where
  "reset_loop breset off n rw = fold (\<lambda>i w. resetBucket breset ((off + i + 1) mod rw_size w) w) [0..<n] rw"

text \<open>
  \<open>updateOffset\<close> reads the clock twice: \<open>t1\<close> inside \<open>span\<close> and \<open>t2\<close> to move \<open>lastTime\<close>.
\<close>

definition updateOffset :: "('b \<Rightarrow> 'b) \<Rightarrow> int \<Rightarrow> int \<Rightarrow> 'b RollingWindow \<Rightarrow> panic + 'b RollingWindow" where
  "updateOffset breset t1 t2 rw =
     (case rw_span t1 rw of
        Inl e \<Rightarrow> Inl e
      | Inr sp \<Rightarrow>
          if sp = 0 then Inr rw
          else let off = offset rw;
                   rw = reset_loop breset off sp rw
               in Inr (rw\<lparr>offset := (off + sp) mod rw_size rw,
                          lastTime := t2 - go_rem (t2 - lastTime rw) (interval rw)\<rparr>))"

definition RollingWindow_Add ::
  "('b \<Rightarrow> 'b) \<Rightarrow> ('v \<Rightarrow> 'b \<Rightarrow> 'b) \<Rightarrow> int \<Rightarrow> int \<Rightarrow> 'v \<Rightarrow> 'b RollingWindow \<Rightarrow> panic + 'b RollingWindow" where
  "RollingWindow_Add breset badd t1 t2 v rw =
     (case updateOffset breset t1 t2 rw of
        Inl e \<Rightarrow> Inl e
      | Inr rw \<Rightarrow> Inr (win_add badd (offset rw) v rw))"

definition win_reduce :: "nat \<Rightarrow> nat \<Rightarrow> ('b \<Rightarrow> 's \<Rightarrow> 's) \<Rightarrow> 'b RollingWindow \<Rightarrow> 's \<Rightarrow> 's" where
  "win_reduce start count fn rw s = fold (\<lambda>i. fn (buckets rw ! ((start + i) mod rw_size rw))) [0..<count] s"

definition RollingWindow_Reduce :: "int \<Rightarrow> ('b \<Rightarrow> 's \<Rightarrow> 's) \<Rightarrow> 'b RollingWindow \<Rightarrow> 's \<Rightarrow> panic + 's" where
  "RollingWindow_Reduce now fn rw s =
     (case rw_span now rw of
        Inl e \<Rightarrow> Inl e
      | Inr sp \<Rightarrow>
          let diff = (if sp = 0 \<and> ignoreCurrent rw then rw_size rw - 1 else rw_size rw - sp)
          in if diff > 0
             then Inr (win_reduce ((offset rw + sp + 1) mod rw_size rw) diff fn rw s)
             else Inr s)"

section \<open>The counting bucket\<close>

record Bucket =
  Sum :: int
  Count :: int

definition Bucket_Add :: "int \<Rightarrow> Bucket \<Rightarrow> Bucket" where
  "Bucket_Add v b = \<lparr>Sum = Sum b + v, Count = Count b + 1\<rparr>"

definition Bucket_Reset :: "Bucket \<Rightarrow> Bucket" where
  "Bucket_Reset b = \<lparr>Sum = 0, Count = 0\<rparr>"

section \<open>The interface of a bucket\<close>

text \<open>\<open>rep vs b\<close>: the bucket \<open>b\<close> accounts for the values \<open>vs\<close>, added since its last reset.\<close>

locale bucket_ops =
  fixes breset :: "'b \<Rightarrow> 'b"
    and badd :: "'v \<Rightarrow> 'b \<Rightarrow> 'b"
    and rep :: "'v list \<Rightarrow> 'b \<Rightarrow> bool"
  assumes rep_reset: "rep [] (breset b)"
    and rep_add: "rep vs b \<Longrightarrow> rep (vs @ [v]) (badd v b)"

text \<open>
  Time is divided into slots of one interval, counted from the creation time \<open>t0\<close>.  A history maps
  each slot to the values added in it.  The invariant: the newest bucket belongs to slot \<open>l\<close>, the
  slot of \<open>lastTime\<close>, and the buckets before it, cyclically, to the slots before \<open>l\<close>.
\<close>

definition slot :: "int \<Rightarrow> int \<Rightarrow> int \<Rightarrow> int" where
  "slot t0 ival t = (t - t0) div ival"

definition rw_pos :: "'b RollingWindow \<Rightarrow> nat \<Rightarrow> nat" where
  "rw_pos rw j = (offset rw + rw_size rw - j) mod rw_size rw"

definition rw_inv :: "('v list \<Rightarrow> 'b \<Rightarrow> bool) \<Rightarrow> int \<Rightarrow> (int \<Rightarrow> 'v list) \<Rightarrow> int \<Rightarrow> 'b RollingWindow \<Rightarrow> bool" where
  "rw_inv rep t0 hist l rw \<longleftrightarrow>
     0 < interval rw \<and> length (buckets rw) = rw_size rw \<and> offset rw < rw_size rw \<and>
     lastTime rw = t0 + l * interval rw \<and> (\<forall>s>l. hist s = []) \<and>
     (\<forall>j<rw_size rw. rep (hist (l - int j)) (buckets rw ! rw_pos rw j))"

lemma slot_lastTime:
  assumes "0 < ival"
  shows "slot t0 ival t = l + (t - (t0 + l * ival)) div ival"
proof -
  have "t - t0 = t - (t0 + l * ival) + l * ival" by simp
  then have "(t - t0) div ival = (t - (t0 + l * ival)) div ival + l"
    using assms by (metis div_mult_self1 add.commute less_irrefl)
  then show ?thesis by (simp add: slot_def)
qed

lemma span_slot:
  assumes "rw_inv rep t0 hist l rw" and "lastTime rw \<le> now"
  shows "rw_span now rw = Inr (nat (min (slot t0 (interval rw) now - l) (int (rw_size rw))))"
    and "l \<le> slot t0 (interval rw) now"
proof -
  from assms have i: "0 < interval rw" and lt: "lastTime rw = t0 + l * interval rw"
    by (auto simp: rw_inv_def)
  have d: "slot t0 (interval rw) now - l = (now - lastTime rw) div interval rw"
    using slot_lastTime [OF i, of t0 now l] lt by simp
  moreover have "0 \<le> (now - lastTime rw) div interval rw"
    using assms(2) i by (simp add: pos_imp_zdiv_nonneg_iff)
  ultimately show "rw_span now rw = Inr (nat (min (slot t0 (interval rw) now - l) (int (rw_size rw))))"
    and "l \<le> slot t0 (interval rw) now"
    using i assms(2) by (auto simp: rw_span_def Let_def min_def)
qed

text \<open>The loop that resets the expired buckets.\<close>

lemma reset_loop_simps:
  "reset_loop breset off 0 rw = rw"
  "reset_loop breset off (Suc n) rw =
     resetBucket breset ((off + n + 1) mod rw_size (reset_loop breset off n rw)) (reset_loop breset off n rw)"
  by (simp_all add: reset_loop_def)

lemma reset_loop_fields [simp]:
  "rw_size (reset_loop breset off n rw) = rw_size rw"
  "interval (reset_loop breset off n rw) = interval rw"
  "ignoreCurrent (reset_loop breset off n rw) = ignoreCurrent rw"
  "lastTime (reset_loop breset off n rw) = lastTime rw"
  "length (buckets (reset_loop breset off n rw)) = length (buckets rw)"
  by (induction n) (simp_all add: reset_loop_simps resetBucket_def)

lemma reset_loop_nth:
  assumes "length (buckets rw) = rw_size rw" and "p < rw_size rw"
  shows "if \<exists>i<n. p = (off + i + 1) mod rw_size rw
    then \<exists>b. buckets (reset_loop breset off n rw) ! p = breset b
    else buckets (reset_loop breset off n rw) ! p = buckets rw ! p"
proof (induction n)
  case (Suc n)
  let ?p = "(off + n + 1) mod rw_size rw"
  have "buckets (reset_loop breset off (Suc n) rw) ! p =
      (if p = ?p then breset (buckets (reset_loop breset off n rw) ! p)
       else buckets (reset_loop breset off n rw) ! p)"
    using assms by (auto simp: reset_loop_simps resetBucket_def nth_list_update)
  with Suc show ?case by (auto simp: less_Suc_eq split: if_splits)
qed (simp add: reset_loop_simps)

lemma rw_pos_moved:
  fixes off n j sz :: nat
  assumes "off < sz" and "n \<le> sz" and "j < sz"
  shows "j < n \<Longrightarrow> \<exists>i<n. ((off + n) mod sz + sz - j) mod sz = (off + i + 1) mod sz"
    and "n \<le> j \<Longrightarrow> ((off + n) mod sz + sz - j) mod sz = (off + sz - (j - n)) mod sz \<and>
           \<not> (\<exists>i<n. (off + sz - (j - n)) mod sz = (off + i + 1) mod sz)"
proof -
  have "(off + n) mod sz + sz - j = (off + n) mod sz + (sz - j)"
    using assms(3) by linarith
  then have "((off + n) mod sz + sz - j) mod sz = ((off + n) mod sz + (sz - j)) mod sz" by (rule arg_cong)
  also have "\<dots> = (off + n + (sz - j)) mod sz" by (rule mod_add_left_eq)
  finally have eq: "((off + n) mod sz + sz - j) mod sz = (off + n + (sz - j)) mod sz" .
  show "\<exists>i<n. ((off + n) mod sz + sz - j) mod sz = (off + i + 1) mod sz" if "j < n"
  proof (intro exI [of _ "n - j - 1"] conjI)
    have "off + n + (sz - j) = off + (n - j - 1) + 1 + sz" using that assms by simp
    then show "((off + n) mod sz + sz - j) mod sz = (off + (n - j - 1) + 1) mod sz"
      using eq by (metis mod_add_self2)
  qed (use that in simp)
  show "((off + n) mod sz + sz - j) mod sz = (off + sz - (j - n)) mod sz \<and>
      \<not> (\<exists>i<n. (off + sz - (j - n)) mod sz = (off + i + 1) mod sz)" if "n \<le> j"
  proof -
    have "off + n + (sz - j) = off + sz - (j - n)" using that assms by simp
    moreover have "(off + i + 1) mod sz \<noteq> (off + sz - (j - n)) mod sz" if "i < n" for i
      using that \<open>n \<le> j\<close> assms by (intro mod_neq_within) linarith+
    ultimately show ?thesis using eq by metis
  qed
qed

context bucket_ops
begin

lemma update_inv:
  assumes inv: "rw_inv rep t0 hist l rw" and t: "lastTime rw \<le> t1" "t1 \<le> t2"
    and same: "slot t0 (interval rw) t2 = slot t0 (interval rw) t1"
  shows "\<exists>rw'. updateOffset breset t1 t2 rw = Inr rw' \<and> rw_inv rep t0 hist (slot t0 (interval rw) t1) rw' \<and>
    rw_size rw' = rw_size rw \<and> interval rw' = interval rw \<and> ignoreCurrent rw' = ignoreCurrent rw"
proof -
  let ?s = "slot t0 (interval rw) t1" and ?sz = "rw_size rw"
  define n where "n = nat (min (?s - l) (int ?sz))"
  note sp = span_slot [OF inv t(1), folded n_def]
  show ?thesis
  proof (cases "?s = l")
    case True
    then show ?thesis using sp inv by (simp add: updateOffset_def n_def)
  next
    case False
    with sp(2) have gt: "l < ?s" by simp
    from inv have len: "length (buckets rw) = ?sz" and off: "offset rw < ?sz" and i: "0 < interval rw"
      and lt: "lastTime rw = t0 + l * interval rw" and none: "\<And>s. l < s \<Longrightarrow> hist s = []"
      and old: "\<And>j. j < ?sz \<Longrightarrow> rep (hist (l - int j)) (buckets rw ! rw_pos rw j)"
      by (auto simp: rw_inv_def)
    have n: "0 < n" "n \<le> ?sz" "int n \<le> ?s - l" "n < ?sz \<Longrightarrow> int n = ?s - l"
      using gt off by (auto simp: n_def min_def split: if_splits)
    define rw1 where "rw1 = reset_loop breset (offset rw) n rw"
    define rw' where "rw' = rw1\<lparr>offset := (offset rw + n) mod ?sz, lastTime := t2 - (t2 - lastTime rw) mod interval rw\<rparr>"
    have upd: "updateOffset breset t1 t2 rw = Inr rw'"
      using sp(1) n(1) i t by (simp add: updateOffset_def rw'_def rw1_def Let_def)
    have "lastTime rw' = t0 + ?s * interval rw"
      using slot_lastTime [OF i, of t0 t2 l] lt same
      by (simp add: rw'_def minus_mod_eq_div_mult [symmetric] algebra_simps)
    moreover have "rep (hist (?s - int j)) (buckets rw' ! rw_pos rw' j)" if j: "j < ?sz" for j
    proof -
      have p: "rw_pos rw' j = ((offset rw + n) mod ?sz + ?sz - j) mod ?sz" "buckets rw' = buckets rw1"
        by (simp_all add: rw_pos_def rw'_def rw1_def)
      have nth: "if \<exists>i<n. rw_pos rw' j = (offset rw + i + 1) mod ?sz then \<exists>b. buckets rw1 ! rw_pos rw' j = breset b
          else buckets rw1 ! rw_pos rw' j = buckets rw ! rw_pos rw' j"
        unfolding rw1_def using len off p(1) by (intro reset_loop_nth) auto
      show ?thesis
      proof (cases "j < n")
        case True
        with rw_pos_moved(1) [OF off n(2) j] p nth obtain b where "buckets rw' ! rw_pos rw' j = breset b"
          by (metis (no_types, lifting))
        moreover have "hist (?s - int j) = []" using True n by (intro none) linarith
        ultimately show ?thesis by (simp add: rep_reset)
      next
        case False
        then have nj: "n \<le> j" by simp
        from rw_pos_moved(2) [OF off n(2) j nj] p(1)
        have "rw_pos rw' j = rw_pos rw (j - n)" "\<not> (\<exists>i<n. rw_pos rw' j = (offset rw + i + 1) mod ?sz)"
          unfolding rw_pos_def by metis+
        with nth p(2) have "buckets rw' ! rw_pos rw' j = buckets rw ! rw_pos rw (j - n)" by metis
        moreover have "?s - int j = l - int (j - n)" using n nj j by simp
        ultimately show ?thesis using old [of "j - n"] j by simp
      qed
    qed
    ultimately have "rw_inv rep t0 hist ?s rw'"
      using i len off gt none n(1) by (simp add: rw_inv_def rw'_def rw1_def)
    with upd show ?thesis by (simp add: rw'_def rw1_def)
  qed
qed

lemma add_inv:
  assumes inv: "rw_inv rep t0 hist l rw" and t: "lastTime rw \<le> t1" "t1 \<le> t2"
    and same: "slot t0 (interval rw) t2 = slot t0 (interval rw) t1"
  defines "sl \<equiv> slot t0 (interval rw) t1"
  shows "\<exists>rw'. RollingWindow_Add breset badd t1 t2 v rw = Inr rw' \<and>
    rw_inv rep t0 (hist(sl := hist sl @ [v])) sl rw' \<and>
    rw_size rw' = rw_size rw \<and> interval rw' = interval rw \<and> ignoreCurrent rw' = ignoreCurrent rw"
proof -
  from update_inv [OF inv t same] obtain w where w: "updateOffset breset t1 t2 rw = Inr w"
    "rw_inv rep t0 hist sl w" "rw_size w = rw_size rw" "interval w = interval rw" "ignoreCurrent w = ignoreCurrent rw"
    by (auto simp: sl_def)
  let ?w = "win_add badd (offset w) v w"
  from w(2) have off: "offset w < rw_size w" "length (buckets w) = rw_size w"
    and b: "\<And>j. j < rw_size w \<Longrightarrow> rep (hist (sl - int j)) (buckets w ! rw_pos w j)"
    by (auto simp: rw_inv_def)
  have p0: "rw_pos w 0 = offset w" using off by (simp add: rw_pos_def)
  have pj: "rw_pos w j \<noteq> offset w" if "0 < j" "j < rw_size w" for j
  proof -
    have "offset w mod rw_size w \<noteq> (offset w + rw_size w - j) mod rw_size w"
      by (rule mod_neq_within) (use that in linarith)+
    then show ?thesis using off by (simp add: rw_pos_def)
  qed
  have "rep ((hist(sl := hist sl @ [v])) (sl - int j)) (buckets ?w ! rw_pos w j)" if "j < rw_size w" for j
    using b [OF that] pj [OF _ that] p0 off rep_add [of "hist sl" "buckets w ! offset w" v]
    by (cases "j = 0") (auto simp: win_add_def)
  with w(2) have "rw_inv rep t0 (hist(sl := hist sl @ [v])) sl ?w"
    by (auto simp: rw_inv_def win_add_def rw_pos_def)
  with w show ?thesis by (simp add: RollingWindow_Add_def win_add_def)
qed

lemma reduce_window:
  assumes inv: "rw_inv rep t0 hist l rw" and now: "lastTime rw \<le> now"
  defines "cur \<equiv> slot t0 (interval rw) now"
  shows "\<exists>bs. (\<forall>s. RollingWindow_Reduce now fn rw s = Inr (fold fn bs s)) \<and>
    list_all2 rep (map hist [cur - int (rw_size rw) + 1 .. (if cur = l \<and> ignoreCurrent rw then l - 1 else l)]) bs"
proof -
  let ?sz = "rw_size rw" and ?lo = "cur - int (rw_size rw) + 1"
  define n where "n = nat (min (cur - l) (int ?sz))"
  note sp = span_slot [OF inv now, folded cur_def, folded n_def]
  from inv have off: "offset rw < ?sz"
    and b: "\<And>j. j < ?sz \<Longrightarrow> rep (hist (l - int j)) (buckets rw ! rw_pos rw j)"
    by (auto simp: rw_inv_def)
  define diff where "diff = (if n = 0 \<and> ignoreCurrent rw then ?sz - 1 else ?sz - n)"
  define bs where "bs = map (\<lambda>i. buckets rw ! (((offset rw + n + 1) mod ?sz + i) mod ?sz)) [0..<diff]"
  have red: "RollingWindow_Reduce now fn rw s = Inr (fold fn bs s)" for s
    using sp(1) by (simp add: RollingWindow_Reduce_def win_reduce_def bs_def fold_map comp_def flip: diff_def)
  have n: "n \<le> ?sz" "n < ?sz \<Longrightarrow> int n = cur - l" "n = ?sz \<Longrightarrow> int ?sz \<le> cur - l" "n = 0 \<longleftrightarrow> cur = l"
    using sp(2) off by (auto simp: n_def min_def split: if_splits)
  let ?hi = "if cur = l \<and> ignoreCurrent rw then l - 1 else l"
  have len: "length bs = nat (?hi - ?lo + 1)"
    using n off by (cases "n = ?sz") (auto simp: bs_def diff_def)
  have "rep (hist (?lo + int i)) (bs ! i)" if i: "i < diff" for i
  proof -
    have "n < ?sz" using i off by (auto simp: diff_def split: if_splits)
    with n have nl: "int n = cur - l" by simp
    define j where "j = ?sz - n - 1 - i"
    have ij: "i + n + 1 \<le> ?sz" using i by (auto simp: diff_def split: if_splits)
    then have "offset rw + ?sz - j = offset rw + n + 1 + i" by (simp add: j_def)
    then have "bs ! i = buckets rw ! rw_pos rw j"
      using i by (simp add: bs_def rw_pos_def mod_add_left_eq)
    moreover have "?lo + int i = l - int j" "j < ?sz" using ij nl by (simp_all add: j_def of_nat_diff)
    ultimately show ?thesis using b [of j] by metis
  qed
  then have "list_all2 rep (map hist [?lo .. ?hi]) bs"
    using len by (auto simp: list_all2_conv_all_nth bs_def)
  with red show ?thesis by blast
qed

end

section \<open>Sequences of additions\<close>

text \<open>
  An addition \<open>(t1, t2, v)\<close> reads the clock at \<open>t1\<close> and, when it moves the window, again at \<open>t2\<close>.
  \<open>timely\<close> says that the clock does not go back and that no slot boundary falls between the two
  readings of one addition.
\<close>

fun run_adds :: "('b \<Rightarrow> 'b) \<Rightarrow> ('v \<Rightarrow> 'b \<Rightarrow> 'b) \<Rightarrow> (int \<times> int \<times> 'v) list \<Rightarrow> 'b RollingWindow \<Rightarrow> panic + 'b RollingWindow" where
  "run_adds breset badd [] rw = Inr rw"
| "run_adds breset badd ((t1, t2, v) # tr) rw =
     (case RollingWindow_Add breset badd t1 t2 v rw of Inl e \<Rightarrow> Inl e | Inr rw' \<Rightarrow> run_adds breset badd tr rw')"

fun timely :: "int \<Rightarrow> int \<Rightarrow> int \<Rightarrow> (int \<times> int \<times> 'v) list \<Rightarrow> int \<Rightarrow> bool" where
  "timely t0 ival t [] now \<longleftrightarrow> t \<le> now"
| "timely t0 ival t ((t1, t2, v) # tr) now \<longleftrightarrow>
     t \<le> t1 \<and> t1 \<le> t2 \<and> slot t0 ival t2 = slot t0 ival t1 \<and> timely t0 ival t2 tr now"

definition hist_of :: "int \<Rightarrow> int \<Rightarrow> (int \<times> int \<times> 'v) list \<Rightarrow> int \<Rightarrow> 'v list" where
  "hist_of t0 ival tr s = map (\<lambda>(t1, t2, v). v) (filter (\<lambda>(t1, t2, v). slot t0 ival t1 = s) tr)"

lemma slot_start: "0 < ival \<Longrightarrow> t0 + slot t0 ival t * ival \<le> t"
  using pos_mod_sign [of ival "t - t0"] by (simp add: slot_def minus_mod_eq_div_mult [symmetric])

lemma timely_le: "timely t0 ival t tr now \<Longrightarrow> t \<le> now"
  by (induction t0 ival t tr now rule: timely.induct) auto

context bucket_ops
begin

lemma run_adds_inv:
  assumes "rw_inv rep t0 hist l rw" and "lastTime rw \<le> t" and "timely t0 (interval rw) t tr now"
  shows "\<exists>rw' l'. run_adds breset badd tr rw = Inr rw' \<and> lastTime rw' \<le> now \<and>
    rw_inv rep t0 (\<lambda>s. hist s @ hist_of t0 (interval rw) tr s) l' rw' \<and>
    rw_size rw' = rw_size rw \<and> interval rw' = interval rw \<and> ignoreCurrent rw' = ignoreCurrent rw"
  using assms
proof (induction tr arbitrary: hist l rw t)
  case Nil
  then show ?case by (auto simp: hist_of_def)
next
  case (Cons e tr)
  obtain t1 t2 v where e: "e = (t1, t2, v)" by (cases e)
  let ?s = "slot t0 (interval rw) t1"
  from Cons.prems e have t: "lastTime rw \<le> t1" "t1 \<le> t2" "slot t0 (interval rw) t2 = ?s"
    and rest: "timely t0 (interval rw) t2 tr now" by auto
  from add_inv [OF Cons.prems(1) t, of v] obtain w where w: "RollingWindow_Add breset badd t1 t2 v rw = Inr w"
    "rw_inv rep t0 (hist(?s := hist ?s @ [v])) ?s w"
    "rw_size w = rw_size rw" "interval w = interval rw" "ignoreCurrent w = ignoreCurrent rw" by blast
  have "lastTime w \<le> t2"
    using w(2,4) slot_start [of "interval rw" t0 t2] t(3) by (simp add: rw_inv_def)
  moreover have "(\<lambda>s. (hist(?s := hist ?s @ [v])) s @ hist_of t0 (interval rw) tr s) =
      (\<lambda>s. hist s @ hist_of t0 (interval rw) (e # tr) s)"
    by (auto simp: hist_of_def e)
  ultimately show ?case
    using Cons.IH [OF w(2), of t2] w rest by (simp add: e)
qed

lemma new_inv:
  assumes "rep [] b" and "0 < ival"
    and "NewRollingWindow b n ival (if ign then [IgnoreCurrentBucket] else []) t0 = Inr rw"
  shows "rw_inv rep t0 (\<lambda>_. []) 0 rw \<and> rw_size rw = nat n \<and> interval rw = ival \<and>
    ignoreCurrent rw = ign \<and> lastTime rw = t0"
  using assms
  by (auto simp: NewRollingWindow_def IgnoreCurrentBucket_def rw_inv_def rw_pos_def split: if_splits)

text \<open>
  After any timely sequence of additions, a reduction at \<open>now\<close> visits buckets that account for the
  slots of the window; the slots of the window it leaves out are empty.
\<close>

lemma reduce_history:
  assumes rep: "rep [] b" and ival: "0 < ival"
    and new: "NewRollingWindow b n ival (if ign then [IgnoreCurrentBucket] else []) t0 = Inr rw0"
    and tr: "timely t0 ival t0 tr now"
  defines "cur \<equiv> slot t0 ival now" and "h \<equiv> hist_of t0 ival tr"
  shows "\<exists>rw bs hi. run_adds breset badd tr rw0 = Inr rw \<and>
    (\<forall>s. RollingWindow_Reduce now fn rw s = Inr (fold fn bs s)) \<and>
    list_all2 rep (map h [cur - n + 1 .. hi]) bs \<and>
    hi \<le> (if ign then cur - 1 else cur) \<and> (\<forall>s. hi < s \<and> s \<le> (if ign then cur - 1 else cur) \<longrightarrow> h s = [])"
proof -
  from new_inv [OF rep ival new] have 0: "rw_inv rep t0 (\<lambda>_. []) 0 rw0" "rw_size rw0 = nat n"
    "interval rw0 = ival" "ignoreCurrent rw0 = ign" "lastTime rw0 \<le> t0" by auto
  from new have n: "1 \<le> n" by (auto simp: NewRollingWindow_def split: if_splits)
  from run_adds_inv [OF 0(1,5), of tr now] tr obtain rw l where r: "run_adds breset badd tr rw0 = Inr rw"
    "lastTime rw \<le> now" "rw_inv rep t0 h l rw" "rw_size rw = nat n" "interval rw = ival" "ignoreCurrent rw = ign"
    by (auto simp: 0 h_def)
  from reduce_window [OF r(3,2), of fn] r obtain bs where
    bs: "\<forall>s. RollingWindow_Reduce now fn rw s = Inr (fold fn bs s)"
    "list_all2 rep (map h [cur - n + 1 .. (if cur = l \<and> ign then l - 1 else l)]) bs"
    using n by (auto simp: cur_def)
  have "l \<le> cur" using span_slot(2) [OF r(3,2)] r(5) by (simp add: cur_def)
  moreover have "\<And>s. l < s \<Longrightarrow> h s = []" using r(3) by (simp add: rw_inv_def)
  ultimately show ?thesis
    using r(1) bs by (intro exI [of _ rw] exI [of _ bs] exI [of _ "if cur = l \<and> ign then l - 1 else l"]) auto
qed

end

section \<open>The counting bucket implements the interface\<close>

definition bucket_counts :: "int list \<Rightarrow> Bucket \<Rightarrow> bool" where
  "bucket_counts vs b \<longleftrightarrow> Sum b = sum_list vs \<and> Count b = int (length vs)"

interpretation counting: bucket_ops Bucket_Reset Bucket_Add bucket_counts
  by unfold_locales (auto simp: bucket_counts_def Bucket_Reset_def Bucket_Add_def)

lemma fold_bucket_totals:
  assumes "list_all2 bucket_counts hs bs"
  shows "fold (\<lambda>b (s, c). (s + Sum b, c + Count b)) bs (s0, c0) =
    (s0 + sum_list (map sum_list hs), c0 + (\<Sum>h\<leftarrow>hs. int (length h)))"
  using assms by (induction hs bs arbitrary: s0 c0 rule: list_all2_induct) (auto simp: bucket_counts_def)

lemma sum_list_upto_hist:
  "sum_list (map (\<lambda>s. \<Sum>v\<leftarrow>hist_of t0 ival tr s. f v) [lo..hi]) =
     (\<Sum>(t1, t2, v)\<leftarrow>filter (\<lambda>(t1, t2, v). lo \<le> slot t0 ival t1 \<and> slot t0 ival t1 \<le> hi) tr. f v)"
  for f :: "'v \<Rightarrow> int"
proof (induction tr)
  case (Cons e tr)
  obtain t1 t2 v where e: "e = (t1, t2, v)" by (cases e)
  have "(\<Sum>w\<leftarrow>hist_of t0 ival (e # tr) s. f w) = (if slot t0 ival t1 = s then f v else 0) + (\<Sum>w\<leftarrow>hist_of t0 ival tr s. f w)" for s
    by (simp add: hist_of_def e)
  moreover have "(\<Sum>s\<in>{lo..hi}. if slot t0 ival t1 = s then f v else 0) =
      (if lo \<le> slot t0 ival t1 \<and> slot t0 ival t1 \<le> hi then f v else 0)"
    by (simp add: sum.delta')
  ultimately show ?case
    using Cons.IH by (simp add: e sum_list_distinct_conv_sum_set sum.distrib)
qed (simp add: hist_of_def sum_list_0)

lemma hist_prefix_total:
  fixes f :: "'v \<Rightarrow> int"
  assumes "hi \<le> up" and "\<And>s. hi < s \<Longrightarrow> s \<le> up \<Longrightarrow> hist_of t0 ival tr s = []"
  shows "sum_list (map (\<lambda>s. \<Sum>v\<leftarrow>hist_of t0 ival tr s. f v) [lo..hi]) =
    sum_list (map (\<lambda>s. \<Sum>v\<leftarrow>hist_of t0 ival tr s. f v) [lo..up])"
  using assms by (auto simp: sum_list_distinct_conv_sum_set intro!: sum.mono_neutral_left)

definition window_values :: "int \<Rightarrow> int \<Rightarrow> int \<Rightarrow> bool \<Rightarrow> (int \<times> int \<times> int) list \<Rightarrow> int \<Rightarrow> int list" where
  "window_values t0 ival n ign tr now =
     map (\<lambda>(t1, t2, v). v)
       (filter (\<lambda>(t1, t2, v). slot t0 ival now - n < slot t0 ival t1 \<and>
                 (if ign then slot t0 ival t1 < slot t0 ival now else slot t0 ival t1 \<le> slot t0 ival now)) tr)"

lemma window_total:
  fixes f :: "int \<Rightarrow> int"
  assumes "hi \<le> (if ign then slot t0 ival now - 1 else slot t0 ival now)"
    and "\<And>s. hi < s \<Longrightarrow> s \<le> (if ign then slot t0 ival now - 1 else slot t0 ival now) \<Longrightarrow> hist_of t0 ival tr s = []"
  shows "(\<Sum>s\<leftarrow>[slot t0 ival now - n + 1 .. hi]. \<Sum>v\<leftarrow>hist_of t0 ival tr s. f v) =
    (\<Sum>v\<leftarrow>window_values t0 ival n ign tr now. f v)"
proof -
  let ?cur = "slot t0 ival now" and ?h = "hist_of t0 ival tr"
  let ?top = "if ign then ?cur - 1 else ?cur"
  have "filter (\<lambda>(t1, t2, v). ?cur - n + 1 \<le> slot t0 ival t1 \<and> slot t0 ival t1 \<le> ?top) tr =
      filter (\<lambda>(t1, t2, v). ?cur - n < slot t0 ival t1 \<and>
               (if ign then slot t0 ival t1 < ?cur else slot t0 ival t1 \<le> ?cur)) tr"
    by (rule filter_cong) auto
  moreover have "sum_list (map (\<lambda>s. \<Sum>v\<leftarrow>?h s. f v) [?cur - n + 1 .. hi]) =
      sum_list (map (\<lambda>s. \<Sum>v\<leftarrow>?h s. f v) [?cur - n + 1 .. ?top])"
    using assms by (rule hist_prefix_total)
  ultimately show ?thesis
    unfolding sum_list_upto_hist window_values_def by (simp add: comp_def split_def)
qed

section \<open>Properties\<close>

text \<open>
  C5: A rolling window of \<open>n\<close> counting buckets, after any timely sequence of additions (the
  buckets reset and reused as time passes, however long the pauses), reduces at time \<open>now\<close> to exactly
  the sum and the number of the values added during the last \<open>n\<close> intervals, counted from the creation
  of the window; with \<open>IgnoreCurrentBucket\<close> those of the interval in progress are left out.
\<close>

theorem rolling_window_exact:
  assumes "NewRollingWindow \<lparr>Sum = 0, Count = 0\<rparr> n ival (if ign then [IgnoreCurrentBucket] else []) t0 = Inr rw0"
    and "0 < ival" and "timely t0 ival t0 tr now"
  shows "\<exists>rw. run_adds Bucket_Reset Bucket_Add tr rw0 = Inr rw \<and>
    RollingWindow_Reduce now (\<lambda>b (s, c). (s + Sum b, c + Count b)) rw (0, 0) =
      Inr (sum_list (window_values t0 ival n ign tr now), int (length (window_values t0 ival n ign tr now)))"
proof -
  let ?cur = "slot t0 ival now" and ?h = "hist_of t0 ival tr"
  let ?top = "if ign then ?cur - 1 else ?cur"
  have zero: "bucket_counts [] \<lparr>Sum = 0, Count = 0\<rparr>" by (simp add: bucket_counts_def)
  from counting.reduce_history [OF zero assms(2,1,3), of "\<lambda>b (s, c). (s + Sum b, c + Count b)"]
  obtain rw bs hi where r: "run_adds Bucket_Reset Bucket_Add tr rw0 = Inr rw"
    "RollingWindow_Reduce now (\<lambda>b (s, c). (s + Sum b, c + Count b)) rw (0, 0) =
      Inr (fold (\<lambda>b (s, c). (s + Sum b, c + Count b)) bs (0, 0))"
    "list_all2 bucket_counts (map ?h [?cur - n + 1 .. hi]) bs"
    and hi: "hi \<le> ?top" "\<And>s. hi < s \<Longrightarrow> s \<le> ?top \<Longrightarrow> ?h s = []" by blast
  note tot = window_total [OF hi, where n = n]
  from tot [of "\<lambda>v. v"] tot [of "\<lambda>v. 1"] r show ?thesis
    by (auto simp: fold_bucket_totals comp_def sum_list_triv)
qed

theorem rolling_window_exact_witness:
  "\<exists>rw. run_adds Bucket_Reset Bucket_Add [(100, 100, 5), (111, 112, 6), (125, 125, 7)]
       \<lparr>rw_size = 2, buckets = [\<lparr>Sum = 0, Count = 0\<rparr>, \<lparr>Sum = 0, Count = 0\<rparr>], interval = 10, offset = 0,
        ignoreCurrent = False, lastTime = 100\<rparr> = Inr rw \<and>
     RollingWindow_Reduce 129 (\<lambda>b (s, c). (s + Sum b, c + Count b)) rw (0, 0) = Inr (13, 2)"
  using rolling_window_exact [of 2 10 False 100 "\<lparr>rw_size = 2, buckets = [\<lparr>Sum = 0, Count = 0\<rparr>, \<lparr>Sum = 0, Count = 0\<rparr>],
        interval = 10, offset = 0, ignoreCurrent = False, lastTime = 100\<rparr>" "[(100, 100, 5), (111, 112, 6), (125, 125, 7)]" 129]
  by (simp add: NewRollingWindow_def window_values_def slot_def numeral_2_eq_2)

end
