(* ===== verification/Google_Breaker.thy ===== *)
theory Google_Breaker
  imports Rolling_Window
begin

text \<open>
  \<open>src/infra/breaker/googlebreaker.go\<close> and \<open>bucket.go\<close>: the client-side throttling algorithm behind
  the circuit breaker.  Every finished, failed and dropped request is a mark in a rolling window of
  40 buckets of 250ms; a request is dropped with a probability computed from the window.

  The source computes with \<open>float64\<close>; the model computes with exact rationals.  The random number
  drawn by \<open>Proba.TrueOnProba\<close> and the readings of the clock are arguments.
\<close>

section \<open>The bucket\<close>

definition mark_success :: int where
  "mark_success = 0"

definition mark_fail :: int where
  "mark_fail = 1"

definition mark_drop :: int where
  "mark_drop = 2"

record bucket =
  bSum :: int
  Success :: int
  Failure :: int
  Drop :: int

definition bucket_drop :: "bucket \<Rightarrow> bucket" where
  "bucket_drop b = b\<lparr>bSum := bSum b + 1, Drop := Drop b + 1\<rparr>"

definition bucket_fail :: "bucket \<Rightarrow> bucket" where
  "bucket_fail b = b\<lparr>bSum := bSum b + 1, Failure := Failure b + 1\<rparr>"

definition bucket_succeed :: "bucket \<Rightarrow> bucket" where
  "bucket_succeed b = b\<lparr>bSum := bSum b + 1, Success := Success b + 1\<rparr>"

definition bucket_Add :: "int \<Rightarrow> bucket \<Rightarrow> bucket" where
  "bucket_Add v b =
     (if v = mark_fail then bucket_fail b else if v = mark_drop then bucket_drop b else bucket_succeed b)"

definition bucket_Reset :: "bucket \<Rightarrow> bucket" where
  "bucket_Reset b = \<lparr>bSum = 0, Success = 0, Failure = 0, Drop = 0\<rparr>"

section \<open>The breaker\<close>

text \<open>Durations are in nanoseconds.\<close>

definition window_ns :: int where
  "window_ns = 10 * 1000000000"

definition n_buckets :: int where
  "n_buckets = 40"

definition forcePassDuration :: int where
  "forcePassDuration = 1000000000"

definition k_factor :: rat where
  "k_factor = 3 / 2"

definition minK :: rat where
  "minK = 11 / 10"

definition protection :: int where
  "protection = 5"

record googleBreaker =
  gk :: rat
  stat :: "bucket RollingWindow"
  lastPass :: int
  manualOpen :: bool

record windowResult =
  accepts :: int
  total :: int
  failingBuckets :: int
  workingBuckets :: int

definition newGoogleBreaker :: "int \<Rightarrow> panic + googleBreaker" where
  "newGoogleBreaker now =
     (case NewRollingWindow \<lparr>bSum = 0, Success = 0, Failure = 0, Drop = 0\<rparr> n_buckets
             (go_quot window_ns n_buckets) [] now of
        Inl e \<Rightarrow> Inl e
      | Inr st \<Rightarrow> Inr \<lparr>gk = k_factor, stat = st, lastPass = 0, manualOpen = False\<rparr>)"

definition history_step :: "bucket \<Rightarrow> windowResult \<Rightarrow> windowResult" where
  "history_step b r =
     \<lparr>accepts = accepts r + Success b,
      total = total r + bSum b,
      failingBuckets = (if Failure b > 0 then failingBuckets r + 1 else failingBuckets r),
      workingBuckets = (if Success b > 0 then workingBuckets r + 1 else workingBuckets r)\<rparr>"

definition gb_history :: "int \<Rightarrow> googleBreaker \<Rightarrow> panic + windowResult" where
  "gb_history now b =
     RollingWindow_Reduce now history_step (stat b)
       \<lparr>accepts = 0, total = 0, failingBuckets = 0, workingBuckets = 0\<rparr>"

text \<open>
  \<open>mathx.AtLeast\<close>, and \<open>Proba.TrueOnProba\<close>: the draw is a number in \<open>[0, 1)\<close>, or \<^const>\<open>None\<close> when the
  random source fails.
\<close>

definition AtLeast :: "rat \<Rightarrow> rat \<Rightarrow> rat" where
  "AtLeast x lower = (if x < lower then lower else x)"

definition TrueOnProba :: "rat option \<Rightarrow> rat \<Rightarrow> bool" where
  "TrueOnProba draw proba = (case draw of None \<Rightarrow> False | Some r \<Rightarrow> r < proba)"

text \<open>
  The readings one call makes: the clock for \<open>history\<close>, for \<open>Since(lastPass)\<close>, for the new \<open>lastPass\<close>
  and the two of the mark, and the random draw.
\<close>

record reads =
  t_hist :: int
  t_since :: int
  t_pass :: int
  t_mark1 :: int
  t_mark2 :: int
  draw :: "rat option"

definition dropRatio :: "rat \<Rightarrow> windowResult \<Rightarrow> rat" where
  "dropRatio kf h =
     (let weightFactor = kf - (kf - minK) * of_int (failingBuckets h) / of_int n_buckets;
          weightedAccepts = AtLeast weightFactor minK * of_int (accepts h)
      in (of_int (total h - protection) - weightedAccepts) / of_int (total h + 1))"

text \<open>\<open>accept\<close> answers true for a nil error and false for \<open>ErrServiceUnavailable\<close>.\<close>

definition gb_accept :: "reads \<Rightarrow> googleBreaker \<Rightarrow> panic + (bool \<times> googleBreaker)" where
  "gb_accept rd b =
     (if manualOpen b then Inr (False, b)
      else case gb_history (t_hist rd) b of
        Inl e \<Rightarrow> Inl e
      | Inr h \<Rightarrow>
          let ratio = dropRatio (gk b) h
          in if ratio \<le> 0 then Inr (True, b)
             else if lastPass b > 0 \<and> t_since rd - lastPass b > forcePassDuration
             then Inr (True, b\<lparr>lastPass := t_pass rd\<rparr>)
             else let ratio = ratio * (of_int (n_buckets - workingBuckets h) / of_int n_buckets)
                  in if TrueOnProba (draw rd) ratio then Inr (False, b)
                     else Inr (True, b\<lparr>lastPass := t_pass rd\<rparr>))"

definition gb_mark :: "int \<Rightarrow> int \<Rightarrow> int \<Rightarrow> googleBreaker \<Rightarrow> panic + googleBreaker" where
  "gb_mark v t1 t2 b =
     (case RollingWindow_Add bucket_Reset bucket_Add t1 t2 v (stat b) of
        Inl e \<Rightarrow> Inl e | Inr st \<Rightarrow> Inr (b\<lparr>stat := st\<rparr>))"

definition markDrop :: "int \<Rightarrow> int \<Rightarrow> googleBreaker \<Rightarrow> panic + googleBreaker" where
  "markDrop = gb_mark mark_drop"

definition markFailure :: "int \<Rightarrow> int \<Rightarrow> googleBreaker \<Rightarrow> panic + googleBreaker" where
  "markFailure = gb_mark mark_fail"

definition markSuccess :: "int \<Rightarrow> int \<Rightarrow> googleBreaker \<Rightarrow> panic + googleBreaker" where
  "markSuccess = gb_mark mark_success"

text \<open>\<open>allow\<close> answers whether the caller gets a promise; \<open>Accept\<close> and \<open>Reject\<close> of the promise mark.\<close>

definition gb_allow :: "reads \<Rightarrow> googleBreaker \<Rightarrow> panic + (bool \<times> googleBreaker)" where
  "gb_allow rd b =
     (case gb_accept rd b of
        Inl e \<Rightarrow> Inl e
      | Inr (True, b) \<Rightarrow> Inr (True, b)
      | Inr (False, b) \<Rightarrow>
          (case markDrop (t_mark1 rd) (t_mark2 rd) b of Inl e \<Rightarrow> Inl e | Inr b \<Rightarrow> Inr (False, b)))"

definition gb_IsOpen :: "reads \<Rightarrow> googleBreaker \<Rightarrow> panic + (bool \<times> googleBreaker)" where
  "gb_IsOpen rd b = (case gb_accept rd b of Inl e \<Rightarrow> Inl e | Inr (ok, b) \<Rightarrow> Inr (\<not> ok, b))"

definition gb_ForceOpen :: "googleBreaker \<Rightarrow> googleBreaker" where
  "gb_ForceOpen b = b\<lparr>manualOpen := True\<rparr>"

definition gb_ForceClose :: "googleBreaker \<Rightarrow> googleBreaker" where
  "gb_ForceClose b = b\<lparr>manualOpen := False\<rparr>"

text \<open>
  A request either returns an error (\<^const>\<open>None\<close> is \<open>nil\<close>) or panics.  The request, the fallback and
  the predicate \<open>acceptable\<close> are functions of the caller; what they do is the state \<open>'s\<close>.
\<close>

datatype 'e breaker_err = ErrServiceUnavailable | ReqErr 'e

datatype 'e outcome = Returned "'e breaker_err option" | Panicked

definition gb_doReq ::
  "reads \<Rightarrow> ('s \<Rightarrow> 'e outcome \<times> 's) \<Rightarrow> ('e breaker_err \<Rightarrow> 's \<Rightarrow> 'e outcome \<times> 's) option \<Rightarrow>
   ('e breaker_err option \<Rightarrow> 's \<Rightarrow> bool \<times> 's) \<Rightarrow> googleBreaker \<Rightarrow> 's \<Rightarrow> panic + ('e outcome \<times> googleBreaker \<times> 's)" where
  "gb_doReq rd req fallback acceptable b s =
     (case gb_accept rd b of
        Inl e \<Rightarrow> Inl e
      | Inr (False, b) \<Rightarrow>
          (case markDrop (t_mark1 rd) (t_mark2 rd) b of
             Inl e \<Rightarrow> Inl e
           | Inr b \<Rightarrow>
               (case fallback of
                  Some f \<Rightarrow> (case f ErrServiceUnavailable s of (r, s) \<Rightarrow> Inr (r, b, s))
                | None \<Rightarrow> Inr (Returned (Some ErrServiceUnavailable), b, s)))
      | Inr (True, b) \<Rightarrow>
          (case req s of
             (Panicked, s) \<Rightarrow>
               (case markFailure (t_mark1 rd) (t_mark2 rd) b of Inl e \<Rightarrow> Inl e | Inr b \<Rightarrow> Inr (Panicked, b, s))
           | (Returned err, s) \<Rightarrow>
               (case acceptable err s of (succ, s) \<Rightarrow>
                  (case (if succ then markSuccess (t_mark1 rd) (t_mark2 rd) b
                         else markFailure (t_mark1 rd) (t_mark2 rd) b) of
                     Inl e \<Rightarrow> Inl e | Inr b \<Rightarrow> Inr (Returned err, b, s)))))"

section \<open>The window of the breaker\<close>

abbreviation is_success :: "int \<Rightarrow> bool" where
  "is_success v \<equiv> v \<noteq> mark_fail \<and> v \<noteq> mark_drop"

definition breaker_counts :: "int list \<Rightarrow> bucket \<Rightarrow> bool" where
  "breaker_counts vs b \<longleftrightarrow>
     bSum b = int (length vs) \<and> Success b = (\<Sum>v\<leftarrow>vs. if is_success v then 1 else 0) \<and>
     Failure b = (\<Sum>v\<leftarrow>vs. if v = mark_fail then 1 else 0)"

lemmas mark_defs = mark_success_def mark_fail_def mark_drop_def

interpretation marks: bucket_ops bucket_Reset bucket_Add breaker_counts
  by unfold_locales
    (auto simp: breaker_counts_def bucket_Reset_def bucket_Add_def bucket_drop_def bucket_fail_def
       bucket_succeed_def mark_defs)

lemma count_pos_iff: "0 < (\<Sum>v\<leftarrow>vs. if P v then 1 else 0 :: int) \<longleftrightarrow> (\<exists>v\<in>set vs. P v)"
proof (induction vs)
  case (Cons v vs)
  have "0 \<le> (\<Sum>v\<leftarrow>vs. if P v then 1 else 0 :: int)" by (rule sum_list_nonneg) auto
  with Cons show ?case by auto
qed simp

lemma fold_history:
  assumes "list_all2 breaker_counts (map h ss) bs"
  shows "fold history_step bs r =
    \<lparr>accepts = accepts r + (\<Sum>s\<leftarrow>ss. \<Sum>v\<leftarrow>h s. if is_success v then 1 else 0),
     total = total r + (\<Sum>s\<leftarrow>ss. \<Sum>v\<leftarrow>h s. 1),
     failingBuckets = failingBuckets r + int (length (filter (\<lambda>s. mark_fail \<in> set (h s)) ss)),
     workingBuckets = workingBuckets r + int (length (filter (\<lambda>s. \<exists>v\<in>set (h s). is_success v) ss))\<rparr>"
  using assms
proof (induction ss arbitrary: bs r)
  case (Cons s ss)
  then obtain b bs' where bs: "bs = b # bs'" "breaker_counts (h s) b" "list_all2 breaker_counts (map h ss) bs'"
    by (auto simp: list_all2_Cons1)
  then have "Failure b > 0 \<longleftrightarrow> mark_fail \<in> set (h s)" "Success b > 0 \<longleftrightarrow> (\<exists>v\<in>set (h s). is_success v)"
    by (auto simp: breaker_counts_def count_pos_iff)
  with Cons.IH [OF bs(3), of "history_step b r"] bs(1,2) show ?case
    by (auto simp: history_step_def breaker_counts_def sum_list_triv)
qed simp

lemma filter_upto_card:
  assumes "hi \<le> up" and "\<And>s. hi < s \<Longrightarrow> s \<le> up \<Longrightarrow> \<not> P s"
  shows "int (length (filter P [lo..hi])) = int (card {s. lo \<le> s \<and> s \<le> up \<and> P s})"
proof -
  have "length (filter P [lo..hi]) = card (set (filter P [lo..hi]))"
    by (metis distinct_card distinct_filter distinct_upto)
  also have "set (filter P [lo..hi]) = {s. lo \<le> s \<and> s \<le> up \<and> P s}"
    using assms by (auto simp: not_le [symmetric])
  finally show ?thesis by simp
qed

text \<open>
  The marks of concurrent requests reach the window one at a time; \<open>run_marks\<close> runs a sequence of
  them.  \<open>expected_history\<close> is what the window should report at \<open>now\<close>.
\<close>

fun run_marks :: "(int \<times> int \<times> int) list \<Rightarrow> googleBreaker \<Rightarrow> panic + googleBreaker" where
  "run_marks [] b = Inr b"
| "run_marks ((t1, t2, v) # tr) b = (case gb_mark v t1 t2 b of Inl e \<Rightarrow> Inl e | Inr b' \<Rightarrow> run_marks tr b')"

definition bucket_ns :: int where
  "bucket_ns = 250000000"

definition expected_history :: "int \<Rightarrow> (int \<times> int \<times> int) list \<Rightarrow> int \<Rightarrow> windowResult" where
  "expected_history t0 tr now =
     (let vs = window_values t0 bucket_ns n_buckets False tr now;
          cur = slot t0 bucket_ns now;
          marks = hist_of t0 bucket_ns tr
      in \<lparr>accepts = int (length (filter is_success vs)), total = int (length vs),
          failingBuckets = int (card {s. cur - n_buckets + 1 \<le> s \<and> s \<le> cur \<and> mark_fail \<in> set (marks s)}),
          workingBuckets = int (card {s. cur - n_buckets + 1 \<le> s \<and> s \<le> cur \<and> (\<exists>v\<in>set (marks s). is_success v)})\<rparr>)"

lemma run_marks_adds:
  "run_marks tr b = (case run_adds bucket_Reset bucket_Add tr (stat b) of Inl e \<Rightarrow> Inl e | Inr st \<Rightarrow> Inr (b\<lparr>stat := st\<rparr>))"
proof (induction tr arbitrary: b)
  case (Cons e tr)
  obtain t1 t2 v where "e = (t1, t2, v)" by (cases e)
  with Cons show ?case by (auto simp: gb_mark_def split: sum.splits)
qed simp

lemma sum_indicator_length: "(\<Sum>v\<leftarrow>vs. if P v then 1 else 0 :: int) = int (length (filter P vs))"
  by (induction vs) auto

lemma history_exact:
  assumes new: "newGoogleBreaker t0 = Inr b0" and tr: "timely t0 bucket_ns t0 tr now"
  shows "\<exists>b. run_marks tr b0 = Inr b \<and> gk b = k_factor \<and> gb_history now b = Inr (expected_history t0 tr now)"
proof -
  let ?cur = "slot t0 bucket_ns now" and ?h = "hist_of t0 bucket_ns tr"
  let ?r0 = "\<lparr>accepts = 0, total = 0, failingBuckets = 0, workingBuckets = 0\<rparr>"
  have ns: "go_quot window_ns n_buckets = bucket_ns" "0 < bucket_ns"
    by (simp_all add: window_ns_def n_buckets_def bucket_ns_def)
  from new ns(1) have k: "gk b0 = k_factor" and st: "NewRollingWindow \<lparr>bSum = 0, Success = 0, Failure = 0, Drop = 0\<rparr>
      n_buckets bucket_ns (if False then [IgnoreCurrentBucket] else []) t0 = Inr (stat b0)"
    by (auto simp: newGoogleBreaker_def split: sum.splits)
  have zero: "breaker_counts [] \<lparr>bSum = 0, Success = 0, Failure = 0, Drop = 0\<rparr>" by (simp add: breaker_counts_def)
  from marks.reduce_history [OF zero ns(2) st tr, of history_step]
  obtain w bs hi where w: "run_adds bucket_Reset bucket_Add tr (stat b0) = Inr w"
    "RollingWindow_Reduce now history_step w ?r0 = Inr (fold history_step bs ?r0)"
    "list_all2 breaker_counts (map ?h [?cur - n_buckets + 1 .. hi]) bs"
    and hi: "hi \<le> ?cur" "\<And>s. hi < s \<Longrightarrow> s \<le> ?cur \<Longrightarrow> ?h s = []" by auto
  note tot = window_total [where ign = False, simplified, OF hi, where n = n_buckets]
  have "fold history_step bs ?r0 = expected_history t0 tr now"
    unfolding fold_history [OF w(3)] expected_history_def Let_def
    using hi tot [where f = "\<lambda>v. if is_success v then 1 else 0"] tot [where f = "\<lambda>v. 1"]
    by (simp add: sum_indicator_length sum_list_triv filter_upto_card [where up = ?cur])
  with w k show ?thesis by (simp add: run_marks_adds gb_history_def)
qed

section \<open>Properties\<close>

text \<open>
  After any timely sequence of marks, in whatever order concurrent requests finish, the history the
  breaker decides on is exact: successes and requests of the last 40 intervals of 250ms, and the numbers of
  those intervals with at least one failure and with at least one success.
\<close>

theorem breaker_history_exact:
  assumes "newGoogleBreaker t0 = Inr b0" and "timely t0 bucket_ns t0 tr now"
  shows "\<exists>b. run_marks tr b0 = Inr b \<and> gb_history now b = Inr (expected_history t0 tr now)"
  using history_exact [OF assms] by blast

definition example_breaker :: googleBreaker where
  "example_breaker =
     \<lparr>gk = 3 / 2,
      stat = \<lparr>rw_size = 40, buckets = replicate 40 \<lparr>bSum = 0, Success = 0, Failure = 0, Drop = 0\<rparr>,
              interval = 250000000, offset = 0, ignoreCurrent = False, lastTime = 1\<rparr>,
      lastPass = 0, manualOpen = False\<rparr>"

lemma example_breaker_new: "newGoogleBreaker 1 = Inr example_breaker"
  by (simp add: newGoogleBreaker_def NewRollingWindow_def n_buckets_def window_ns_def k_factor_def
        example_breaker_def)

theorem breaker_history_exact_witness:
  "\<exists>b. run_marks [(1, 2, 0), (300000000, 300000000, 1), (20000000000, 20000000000, 2)] example_breaker = Inr b \<and>
     gb_history 20000000000 b = Inr (expected_history 1 [(1, 2, 0), (300000000, 300000000, 1), (20000000000, 20000000000, 2)] 20000000000)"
  using breaker_history_exact [OF example_breaker_new,
      of "[(1, 2, 0), (300000000, 300000000, 1), (20000000000, 20000000000, 2)]" 20000000000]
  by (simp add: bucket_ns_def slot_def)




end
