(* ===== verification/Adaptive_Shedder.thy ===== *)
theory Adaptive_Shedder
  imports Google_Breaker
begin

text \<open>
  The adaptive load shedder (\<open>src/infra/load/adaptiveshedder.go\<close>, \<open>nopshedder.go\<close>, \<open>sheddingstat.go\<close>). A request is
  rejected when the processor is, or has recently been, overloaded and more requests are in flight than the service has
  shown to handle: the largest number of requests passed in one bucket of the rolling window times the smallest average
  response time. Floating-point numbers are exact rationals; the clock readings and the processor usage that a call
  observes are its arguments. The calls on a shedder are taken one after the other.
\<close>

subsection \<open>The shedder\<close>

definition defaultBuckets :: int where "defaultBuckets = 50"

definition defaultWindow :: int where "defaultWindow = 5 * 1000000000"

definition defaultCpuThreshold :: int where "defaultCpuThreshold = 900"

definition defaultMinRt :: rat where "defaultMinRt = 1000"

definition flyingBeta :: rat where "flyingBeta = 9 / 10"

definition coolOffDuration :: int where "coolOffDuration = 1000000000"

definition cpuMax :: int where "cpuMax = 1000"

definition millisecondsPerSecond :: rat where "millisecondsPerSecond = 1000"

definition overloadFactorLowerBound :: rat where "overloadFactorLowerBound = 1 / 10"

record shedderOptions =
  opt_window :: int
  opt_buckets :: int
  opt_cpuThreshold :: int

datatype ShedderOption = WithBuckets int | WithCpuThreshold int | WithWindow int

fun apply_ShedderOption :: "ShedderOption \<Rightarrow> shedderOptions \<Rightarrow> shedderOptions" where
  "apply_ShedderOption (WithBuckets n) opts = opts\<lparr>opt_buckets := n\<rparr>"
| "apply_ShedderOption (WithCpuThreshold threshold) opts = opts\<lparr>opt_cpuThreshold := threshold\<rparr>"
| "apply_ShedderOption (WithWindow w) opts = opts\<lparr>opt_window := w\<rparr>"

record adaptiveShedder =
  cpuThreshold :: int
  windowScale :: rat
  flying :: int
  avgFlying :: rat
  overloadTime :: int
  droppedRecently :: bool
  passCounter :: "Bucket RollingWindow"
  rtCounter :: "Bucket RollingWindow"

datatype Shedder = nopShedder | Adaptive adaptiveShedder

text \<open>
  Go divides the window by the number of buckets as integers, so no buckets are a panic. With a bucket of less than a
  nanosecond the scale would be infinite; the model has 0 there, but every use of such a window panics before it reads
  the scale.
\<close>

definition NewAdaptiveShedder :: "bool \<Rightarrow> ShedderOption list \<Rightarrow> int \<Rightarrow> int \<Rightarrow> panic + Shedder" where
  "NewAdaptiveShedder enabled opts now1 now2 = (if \<not> enabled then Inr nopShedder
     else let options = fold apply_ShedderOption opts
                \<lparr>opt_window = defaultWindow, opt_buckets = defaultBuckets, opt_cpuThreshold = defaultCpuThreshold\<rparr>
       in if opt_buckets options = 0 then Inl DivideByZero
       else let bucketDuration = go_quot (opt_window options) (opt_buckets options);
                newBucket = \<lparr>Sum = 0, Count = 0\<rparr>
       in case NewRollingWindow newBucket (opt_buckets options) bucketDuration [IgnoreCurrentBucket] now1 of
            Inl e \<Rightarrow> Inl e
          | Inr pass \<Rightarrow> (case NewRollingWindow newBucket (opt_buckets options) bucketDuration [IgnoreCurrentBucket] now2 of
              Inl e \<Rightarrow> Inl e
            | Inr rt \<Rightarrow> Inr (Adaptive \<lparr>cpuThreshold = opt_cpuThreshold options,
                windowScale = 1000000000 / of_int bucketDuration / millisecondsPerSecond, flying = 0, avgFlying = 0,
                overloadTime = 0, droppedRecently = False, passCounter = pass, rtCounter = rt\<rparr>)))"

definition addFlying :: "int \<Rightarrow> adaptiveShedder \<Rightarrow> adaptiveShedder" where
  "addFlying delta as = (let fl = flying as + delta; as = as\<lparr>flying := fl\<rparr> in
     if delta < 0 then as\<lparr>avgFlying := avgFlying as * flyingBeta + of_int fl * (1 - flyingBeta)\<rparr> else as)"

definition maxPass :: "int \<Rightarrow> adaptiveShedder \<Rightarrow> panic + int" where
  "maxPass now as = RollingWindow_Reduce now (\<lambda>b result. if Sum b > result then Sum b else result) (passCounter as) 1"

text \<open>\<open>math.Round\<close> rounds half away from zero.\<close>

definition math_Round :: "rat \<Rightarrow> rat" where
  "math_Round x = of_int (if x < 0 then - \<lfloor>1 / 2 - x\<rfloor> else \<lfloor>x + 1 / 2\<rfloor>)"

definition minRt_step :: "Bucket \<Rightarrow> rat \<Rightarrow> rat" where
  "minRt_step b result = (if Count b \<le> 0 then result
     else let avg = math_Round (of_int (Sum b) / of_int (Count b)) in if avg < result then avg else result)"

definition minRt :: "int \<Rightarrow> adaptiveShedder \<Rightarrow> panic + rat" where
  "minRt now as = RollingWindow_Reduce now minRt_step (rtCounter as) defaultMinRt"

definition maxFlight :: "int \<Rightarrow> int \<Rightarrow> adaptiveShedder \<Rightarrow> panic + rat" where
  "maxFlight t1 t2 as = (case maxPass t1 as of Inl e \<Rightarrow> Inl e | Inr mp \<Rightarrow> (case minRt t2 as of Inl e \<Rightarrow> Inl e
     | Inr rt \<Rightarrow> Inr (AtLeast (of_int mp * rt * windowScale as) 1)))"

definition Between :: "rat \<Rightarrow> rat \<Rightarrow> rat \<Rightarrow> rat" where
  "Between x lower upper = (if x < lower then lower else if x > upper then upper else x)"

text \<open>
  The factor divides by \<open>cpuMax - cpuThreshold\<close>. With a threshold of 1000 the floating-point quotient is infinite, or not
  a number (\<^const>\<open>None\<close>) when the usage is 1000 as well.
\<close>

definition overloadFactor :: "int \<Rightarrow> adaptiveShedder \<Rightarrow> rat option" where
  "overloadFactor cpu as = (let num = of_int (cpuMax - cpu); den = of_int (cpuMax - cpuThreshold as) in
     if den = 0 then (if num = 0 then None else if num > 0 then Some 1 else Some overloadFactorLowerBound)
     else Some (Between (num / den) overloadFactorLowerBound 1))"

text \<open>The readings one call of \<open>Allow\<close> makes, in the order of the calls.\<close>

record allow_reads =
  rd_cpu :: int
  rd_overload :: int
  rd_hot :: int
  rd_pass :: int
  rd_rt :: int
  rd_factor :: int
  rd_pass_log :: int
  rd_rt_log :: int
  rd_hot_log :: int
  rd_start :: int

definition highThru :: "allow_reads \<Rightarrow> adaptiveShedder \<Rightarrow> panic + bool" where
  "highThru rd as = (case maxFlight (rd_pass rd) (rd_rt rd) as of Inl e \<Rightarrow> Inl e
     | Inr mf \<Rightarrow> (case overloadFactor (rd_factor rd) as of None \<Rightarrow> Inr False
       | Some factor \<Rightarrow> Inr (avgFlying as > mf * factor \<and> of_int (flying as) > mf * factor)))"

definition stillHot :: "int \<Rightarrow> adaptiveShedder \<Rightarrow> bool \<times> adaptiveShedder" where
  "stillHot now as = (if \<not> droppedRecently as then (False, as)
     else if overloadTime as = 0 then (False, as)
     else if now - overloadTime as < coolOffDuration then (True, as)
     else (False, as\<lparr>droppedRecently := False\<rparr>))"

definition systemOverloaded :: "int \<Rightarrow> int \<Rightarrow> adaptiveShedder \<Rightarrow> bool \<times> adaptiveShedder" where
  "systemOverloaded cpu now as = (if \<not> (cpu \<ge> cpuThreshold as) then (False, as) else (True, as\<lparr>overloadTime := now\<rparr>))"

text \<open>Before it answers yes the function logs the state, for which it calls \<open>stillHot\<close> again.\<close>

definition shouldDrop :: "allow_reads \<Rightarrow> adaptiveShedder \<Rightarrow> panic + (bool \<times> adaptiveShedder)" where
  "shouldDrop rd as =
     (let (over, as1) = systemOverloaded (rd_cpu rd) (rd_overload rd) as;
          (hot, as2) = (if over then (True, as1) else stillHot (rd_hot rd) as1)
      in if hot then (case highThru rd as2 of Inl e \<Rightarrow> Inl e
           | Inr False \<Rightarrow> Inr (False, as2)
           | Inr True \<Rightarrow> (case maxPass (rd_pass_log rd) as2 of Inl e \<Rightarrow> Inl e
               | Inr _ \<Rightarrow> (case minRt (rd_rt_log rd) as2 of Inl e \<Rightarrow> Inl e
                 | Inr _ \<Rightarrow> Inr (True, snd (stillHot (rd_hot_log rd) as2)))))
         else Inr (False, as2))"

text \<open>A promise is represented by the time it was made; \<^const>\<open>None\<close> is \<open>ErrServiceOverloaded\<close>.\<close>

definition Shedder_Allow :: "allow_reads \<Rightarrow> adaptiveShedder \<Rightarrow> panic + (int option \<times> adaptiveShedder)" where
  "Shedder_Allow rd as = (case shouldDrop rd as of Inl e \<Rightarrow> Inl e
     | Inr (True, as') \<Rightarrow> Inr (None, as'\<lparr>droppedRecently := True\<rparr>)
     | Inr (False, as') \<Rightarrow> Inr (Some (rd_start rd), addFlying 1 as'))"

definition promise_Fail :: "adaptiveShedder \<Rightarrow> adaptiveShedder" where
  "promise_Fail as = addFlying (- 1) as"

text \<open>\<open>Pass\<close> reads the clock once for the response time and twice for each of the two windows.\<close>

record pass_reads =
  rd_now :: int
  rd_rt1 :: int
  rd_rt2 :: int
  rd_pass1 :: int
  rd_pass2 :: int

definition response_time :: "int \<Rightarrow> int \<Rightarrow> int" where
  "response_time start now = \<lceil>of_int (now - start) / (1000000 :: rat)\<rceil>"

definition promise_Pass :: "pass_reads \<Rightarrow> int \<Rightarrow> adaptiveShedder \<Rightarrow> panic + adaptiveShedder" where
  "promise_Pass rd start as = (let rt = response_time start (rd_now rd); as = addFlying (- 1) as in
     case RollingWindow_Add Bucket_Reset Bucket_Add (rd_rt1 rd) (rd_rt2 rd) rt (rtCounter as) of Inl e \<Rightarrow> Inl e
     | Inr w \<Rightarrow> (case RollingWindow_Add Bucket_Reset Bucket_Add (rd_pass1 rd) (rd_pass2 rd) 1 (passCounter as) of Inl e \<Rightarrow> Inl e
       | Inr w' \<Rightarrow> Inr (as\<lparr>rtCounter := w, passCounter := w'\<rparr>)))"

text \<open>The counters of the statistics log (\<open>sheddingstat.go\<close>); \<open>reset\<close> returns and clears them.\<close>

record SheddingStat =
  st_total :: int
  st_pass :: int
  st_drop :: int

definition IncrementTotal :: "SheddingStat \<Rightarrow> SheddingStat" where
  "IncrementTotal s = s\<lparr>st_total := st_total s + 1\<rparr>"

definition IncrementPass :: "SheddingStat \<Rightarrow> SheddingStat" where
  "IncrementPass s = s\<lparr>st_pass := st_pass s + 1\<rparr>"

definition IncrementDrop :: "SheddingStat \<Rightarrow> SheddingStat" where
  "IncrementDrop s = s\<lparr>st_drop := st_drop s + 1\<rparr>"

definition stat_reset :: "SheddingStat \<Rightarrow> SheddingStat \<times> SheddingStat" where
  "stat_reset s = (s, \<lparr>st_total = 0, st_pass = 0, st_drop = 0\<rparr>)"


text \<open>
  The middleware (\<open>src/server/middleware/shedding.go\<close>): a rejected request is answered with 503; a granted one settles its
  promise by the status code its handler has left.
\<close>

definition Shedding_admit :: "(unit \<Rightarrow> bool) option \<Rightarrow> allow_reads \<Rightarrow> adaptiveShedder \<Rightarrow> panic + (int option \<times> int option \<times> adaptiveShedder)" where
  "Shedding_admit cfg rd as = (case cfg of
     Some allow \<Rightarrow> Inr (if allow () then None else Some 503, None, as)
   | None \<Rightarrow> (case Shedder_Allow rd as of Inl e \<Rightarrow> Inl e
     | Inr (cb, as') \<Rightarrow> Inr (if cb = None then Some 503 else None, cb, as')))"

definition Shedding_done :: "int \<Rightarrow> pass_reads \<Rightarrow> int \<Rightarrow> adaptiveShedder \<Rightarrow> panic + adaptiveShedder" where
  "Shedding_done status rd cb as = (if status \<ge> 500 then Inr (promise_Fail as) else promise_Pass rd cb as)"

subsection \<open>Sequences of calls\<close>

datatype shed_call = CAllow allow_reads | CPass pass_reads int | CFail int

text \<open>The shedder after a sequence of calls, with the promises not yet settled.\<close>

inductive shed_reach :: "adaptiveShedder \<Rightarrow> shed_call list \<Rightarrow> int list \<Rightarrow> adaptiveShedder \<Rightarrow> bool" for as0 where
  shed_start: "shed_reach as0 [] [] as0"
| shed_grant: "shed_reach as0 cs pend as \<Longrightarrow> Shedder_Allow rd as = Inr (Some s, as') \<Longrightarrow> shed_reach as0 (cs @ [CAllow rd]) (pend @ [s]) as'"
| shed_reject: "shed_reach as0 cs pend as \<Longrightarrow> Shedder_Allow rd as = Inr (None, as') \<Longrightarrow> shed_reach as0 (cs @ [CAllow rd]) pend as'"
| shed_pass: "shed_reach as0 cs pend as \<Longrightarrow> s \<in> set pend \<Longrightarrow> promise_Pass rd s as = Inr as' \<Longrightarrow>
    shed_reach as0 (cs @ [CPass rd s]) (remove1 s pend) as'"
| shed_fail: "shed_reach as0 cs pend as \<Longrightarrow> s \<in> set pend \<Longrightarrow> shed_reach as0 (cs @ [CFail s]) (remove1 s pend) (promise_Fail as)"

fun passes_of :: "shed_call \<Rightarrow> (int \<times> int \<times> int) list" where
  "passes_of (CPass rd s) = [(rd_pass1 rd, rd_pass2 rd, 1)]"
| "passes_of _ = []"

fun times_of :: "shed_call \<Rightarrow> (int \<times> int \<times> int) list" where
  "times_of (CPass rd s) = [(rd_rt1 rd, rd_rt2 rd, response_time s (rd_now rd))]"
| "times_of _ = []"

definition pass_log :: "shed_call list \<Rightarrow> (int \<times> int \<times> int) list" where
  "pass_log cs = concat (map passes_of cs)"

definition time_log :: "shed_call list \<Rightarrow> (int \<times> int \<times> int) list" where
  "time_log cs = concat (map times_of cs)"

text \<open>The slots of the window that have values, the current one left out, and what the shedder needs of them.\<close>

definition busy_slots :: "int \<Rightarrow> int \<Rightarrow> int \<Rightarrow> (int \<times> int \<times> int) list \<Rightarrow> int \<Rightarrow> int list" where
  "busy_slots t0 ival n tr now = filter (\<lambda>s. hist_of t0 ival tr s \<noteq> []) [slot t0 ival now - n + 1 .. slot t0 ival now - 1]"

definition most_passes :: "int \<Rightarrow> int \<Rightarrow> int \<Rightarrow> (int \<times> int \<times> int) list \<Rightarrow> int \<Rightarrow> int" where
  "most_passes t0 ival n tr now = fold max (map (\<lambda>s. int (length (hist_of t0 ival tr s))) (busy_slots t0 ival n tr now)) 1"

definition least_time :: "int \<Rightarrow> int \<Rightarrow> int \<Rightarrow> (int \<times> int \<times> int) list \<Rightarrow> int \<Rightarrow> rat" where
  "least_time t0 ival n tr now = fold min
     (map (\<lambda>s. math_Round (of_int (sum_list (hist_of t0 ival tr s)) / of_int (int (length (hist_of t0 ival tr s))))) (busy_slots t0 ival n tr now)) 1000"

lemma filter_upto_extend:
  assumes "hi \<le> up" "\<And>s. hi < s \<Longrightarrow> s \<le> up \<Longrightarrow> \<not> P s"
  shows "filter P [lo..up] = filter P [lo..hi :: int]"
proof (cases "lo \<le> hi + 1")
  case True
  have "[lo..up] = [lo..hi] @ [hi + 1..up]"
    using upto_split1 [OF True, of up] assms(1) by (cases "hi = up") simp_all
  moreover have "filter P [hi + 1..up] = []" using assms(2) by (auto simp: filter_empty_conv)
  ultimately show ?thesis by simp
next
  case False
  then have "filter P [lo..up] = []" using assms(2) by (auto simp: filter_empty_conv)
  then show ?thesis using False by simp
qed

lemma fold_nonempty:
  assumes "\<And>r. okr r \<Longrightarrow> g [] r = r" "\<And>vs r. okr r \<Longrightarrow> okr (g vs r)" "okr r"
  shows "fold g (map h xs) r = fold (\<lambda>s. g (h s)) (filter (\<lambda>s. h s \<noteq> []) xs) r"
  using assms(3) by (induction xs arbitrary: r) (auto simp: assms(1,2))

lemma fold_counts:
  assumes "list_all2 bucket_counts hs bs" "\<And>vs b r. bucket_counts vs b \<Longrightarrow> f b r = g vs r"
  shows "fold f bs r = fold g hs r"
  using assms(1) by (induction hs bs arbitrary: r rule: list_all2_induct) (auto simp: assms(2))

text \<open>A reduction over the window, step by step over the slots that have values.\<close>

lemma reduce_busy:
  assumes new: "NewRollingWindow \<lparr>Sum = 0, Count = 0\<rparr> n ival [IgnoreCurrentBucket] t0 = Inr rw0" and ival: "0 < ival"
    and tr: "timely t0 ival t0 tr now" and run: "run_adds Bucket_Reset Bucket_Add tr rw0 = Inr rw"
    and step: "\<And>vs b r. bucket_counts vs b \<Longrightarrow> f b r = g vs r"
    and inv: "\<And>r. okr r \<Longrightarrow> g [] r = r" "\<And>vs r. okr r \<Longrightarrow> okr (g vs r)" "okr r"
  shows "RollingWindow_Reduce now f rw r = Inr (fold (\<lambda>s. g (hist_of t0 ival tr s)) (busy_slots t0 ival n tr now) r)"
proof -
  let ?cur = "slot t0 ival now" and ?h = "hist_of t0 ival tr"
  have zero: "bucket_counts [] \<lparr>Sum = 0, Count = 0\<rparr>" by (simp add: bucket_counts_def)
  have new': "NewRollingWindow \<lparr>Sum = 0, Count = 0\<rparr> n ival (if True then [IgnoreCurrentBucket] else []) t0 = Inr rw0" using new by simp
  obtain bs hi where r: "RollingWindow_Reduce now f rw r = Inr (fold f bs r)" "list_all2 bucket_counts (map ?h [?cur - n + 1 .. hi]) bs"
    "hi \<le> ?cur - 1" "\<And>s. hi < s \<Longrightarrow> s \<le> ?cur - 1 \<Longrightarrow> ?h s = []"
    using counting.reduce_history [OF zero ival new' tr, of f] run by auto
  have "fold f bs r = fold g (map ?h [?cur - n + 1 .. hi]) r" by (rule fold_counts [OF r(2) step])
  also have "... = fold (\<lambda>s. g (?h s)) (filter (\<lambda>s. ?h s \<noteq> []) [?cur - n + 1 .. hi]) r" by (rule fold_nonempty [where okr = okr]) (fact inv)+
  also have "filter (\<lambda>s. ?h s \<noteq> []) [?cur - n + 1 .. hi] = busy_slots t0 ival n tr now"
    unfolding busy_slots_def using filter_upto_extend [OF r(3), of "\<lambda>s. ?h s \<noteq> []" "?cur - n + 1"] r(4) by simp
  finally show ?thesis using r(1) by simp
qed


lemma most_passes_exact:
  assumes "NewRollingWindow \<lparr>Sum = 0, Count = 0\<rparr> n ival [IgnoreCurrentBucket] t0 = Inr rw0" "0 < ival"
    "timely t0 ival t0 tr now" "run_adds Bucket_Reset Bucket_Add tr rw0 = Inr (passCounter as)" "list_all (\<lambda>(t1, t2, v). v = 1) tr"
  shows "maxPass now as = Inr (most_passes t0 ival n tr now)"
proof -
  let ?g = "\<lambda>vs r. if sum_list vs > r then sum_list vs else r"
  have ones: "sum_list (hist_of t0 ival tr s) = int (length (hist_of t0 ival tr s))" for s
  proof -
    have "list_all (\<lambda>v. v = 1) (hist_of t0 ival tr s)" using assms(5) by (auto simp: hist_of_def list_all_iff)
    then have "sum_list (map (\<lambda>v. v) (hist_of t0 ival tr s)) = sum_list (map (\<lambda>v. 1) (hist_of t0 ival tr s))"
      by (intro arg_cong [of _ _ sum_list] map_cong) (auto simp: list_all_iff)
    then show ?thesis unfolding sum_list_triv by simp
  qed
  have "RollingWindow_Reduce now (\<lambda>b r. if Sum b > r then Sum b else r) (passCounter as) 1 =
      Inr (fold (\<lambda>s. ?g (hist_of t0 ival tr s)) (busy_slots t0 ival n tr now) 1)"
    by (rule reduce_busy [OF assms(1-4), where okr = "\<lambda>r. 0 \<le> r"]) (auto simp: bucket_counts_def)
  also have "... = Inr (most_passes t0 ival n tr now)"
    unfolding most_passes_def fold_map comp_def ones by (auto intro!: fold_cong simp: max_def)
  finally show ?thesis unfolding maxPass_def .
qed

lemma least_time_exact:
  assumes "NewRollingWindow \<lparr>Sum = 0, Count = 0\<rparr> n ival [IgnoreCurrentBucket] t0 = Inr rw0" "0 < ival"
    "timely t0 ival t0 tr now" "run_adds Bucket_Reset Bucket_Add tr rw0 = Inr (rtCounter as)"
  shows "minRt now as = Inr (least_time t0 ival n tr now)"
proof -
  let ?a = "\<lambda>vs. math_Round (of_int (sum_list vs) / of_int (int (length vs)))"
  let ?g = "\<lambda>vs r. if vs = [] then r else if ?a vs < r then ?a vs else r"
  have "RollingWindow_Reduce now minRt_step (rtCounter as) 1000 =
      Inr (fold (\<lambda>s. ?g (hist_of t0 ival tr s)) (busy_slots t0 ival n tr now) 1000)"
    by (rule reduce_busy [OF assms, where okr = "\<lambda>_. True"]) (auto simp: bucket_counts_def minRt_step_def Let_def)
  also have "... = Inr (least_time t0 ival n tr now)"
    unfolding least_time_def fold_map comp_def by (auto intro!: fold_cong simp: busy_slots_def min_def)
  finally show ?thesis unfolding minRt_def defaultMinRt_def .
qed

subsection \<open>What the calls keep\<close>

lemma run_adds_snoc: "run_adds breset badd (tr @ [(t1, t2, v)]) rw =
    (case run_adds breset badd tr rw of Inl e \<Rightarrow> Inl e | Inr rw' \<Rightarrow> RollingWindow_Add breset badd t1 t2 v rw')"
  by (induction tr arbitrary: rw) (auto split: sum.splits)

lemma Add_interval: "RollingWindow_Add breset badd t1 t2 v rw = Inr rw' \<Longrightarrow> interval rw' = interval rw"
  by (auto simp: RollingWindow_Add_def updateOffset_def win_add_def Let_def split: sum.splits if_splits)

lemma Add_total: "interval rw \<noteq> 0 \<Longrightarrow> \<exists>rw'. RollingWindow_Add breset badd t1 t2 v rw = Inr rw'"
  by (auto simp: RollingWindow_Add_def updateOffset_def rw_span_def Let_def split: sum.splits)

lemma Reduce_total: "interval rw \<noteq> 0 \<Longrightarrow> \<exists>r'. RollingWindow_Reduce now f rw r = Inr r'"
  by (auto simp: RollingWindow_Reduce_def rw_span_def Let_def)

definition same_counters :: "adaptiveShedder \<Rightarrow> adaptiveShedder \<Rightarrow> bool" where
  "same_counters as as' \<longleftrightarrow> cpuThreshold as' = cpuThreshold as \<and> windowScale as' = windowScale as \<and> flying as' = flying as \<and>
     avgFlying as' = avgFlying as \<and> passCounter as' = passCounter as \<and> rtCounter as' = rtCounter as"

definition under_load :: "allow_reads \<Rightarrow> adaptiveShedder \<Rightarrow> bool" where
  "under_load rd as \<longleftrightarrow> cpuThreshold as \<le> rd_cpu rd \<or>
     droppedRecently as \<and> overloadTime as \<noteq> 0 \<and> rd_hot rd - overloadTime as < coolOffDuration"

definition asked :: "allow_reads \<Rightarrow> adaptiveShedder \<Rightarrow> adaptiveShedder" where
  "asked rd as = (if cpuThreshold as \<le> rd_cpu rd then as\<lparr>overloadTime := rd_overload rd\<rparr> else snd (stillHot (rd_hot rd) as))"

lemma stillHot_counters: "same_counters as (snd (stillHot now as))"
  by (simp add: same_counters_def stillHot_def)

lemma asked_counters: "same_counters as (asked rd as)"
  using stillHot_counters by (simp add: asked_def same_counters_def)

lemma same_counters_trans: "same_counters a b \<Longrightarrow> same_counters b c \<Longrightarrow> same_counters a c"
  by (simp add: same_counters_def)

lemma highThru_same: "same_counters as as' \<Longrightarrow> highThru rd as' = highThru rd as"
proof -
  assume "same_counters as as'"
  then have e: "cpuThreshold as' = cpuThreshold as" "windowScale as' = windowScale as" "flying as' = flying as"
    "avgFlying as' = avgFlying as" "passCounter as' = passCounter as" "rtCounter as' = rtCounter as" by (simp_all add: same_counters_def)
  show ?thesis unfolding highThru_def maxFlight_def maxPass_def minRt_def overloadFactor_def e ..
qed

lemma shouldDrop_unfold:
  "shouldDrop rd as = (if under_load rd as then (case highThru rd (asked rd as) of Inl e \<Rightarrow> Inl e
           | Inr False \<Rightarrow> Inr (False, asked rd as)
           | Inr True \<Rightarrow> (case maxPass (rd_pass_log rd) (asked rd as) of Inl e \<Rightarrow> Inl e
               | Inr _ \<Rightarrow> (case minRt (rd_rt_log rd) (asked rd as) of Inl e \<Rightarrow> Inl e
                 | Inr _ \<Rightarrow> Inr (True, snd (stillHot (rd_hot_log rd) (asked rd as))))))
         else Inr (False, asked rd as))"
proof -
  have l: "under_load rd as \<longleftrightarrow> cpuThreshold as \<le> rd_cpu rd \<or> fst (stillHot (rd_hot rd) as)"
    by (simp add: under_load_def stillHot_def)
  show ?thesis
  proof (cases "cpuThreshold as \<le> rd_cpu rd")
    case True
    then have a: "asked rd as = as\<lparr>overloadTime := rd_overload rd\<rparr>" by (simp add: asked_def)
    show ?thesis using True unfolding a l shouldDrop_def systemOverloaded_def by simp
  next
    case False
    then have "asked rd as = snd (stillHot (rd_hot rd) as)" by (simp add: asked_def)
    then show ?thesis using False unfolding l shouldDrop_def systemOverloaded_def
      by (cases "stillHot (rd_hot rd) as") simp
  qed
qed

text \<open>With windows of a positive bucket length no call panics, and a request is rejected exactly under load.\<close>

lemma Allow_eq:
  assumes "interval (passCounter as) \<noteq> 0" "interval (rtCounter as) \<noteq> 0"
  obtains b as' where "highThru rd as = Inr b" "same_counters as as'"
    "Shedder_Allow rd as = Inr (if under_load rd as \<and> b then (None, as') else (Some (rd_start rd), addFlying 1 as'))"
proof -
  let ?a = "asked rd as"
  have i: "interval (passCounter ?a) \<noteq> 0" "interval (rtCounter ?a) \<noteq> 0"
    using asked_counters [of as rd] assms by (simp_all add: same_counters_def)
  obtain m1 m2 m3 m4 where m: "maxPass (rd_pass rd) as = Inr m1" "minRt (rd_rt rd) as = Inr m2"
      "maxPass (rd_pass_log rd) ?a = Inr m3" "minRt (rd_rt_log rd) ?a = Inr m4"
    unfolding maxPass_def minRt_def using Reduce_total [OF assms(1)] Reduce_total [OF assms(2)] Reduce_total [OF i(1)] Reduce_total [OF i(2)]
    by meson
  obtain b where b: "highThru rd as = Inr b"
    by (cases "overloadFactor (rd_factor rd) as") (auto simp: highThru_def maxFlight_def m)
  then have b': "highThru rd ?a = Inr b" using highThru_same [OF asked_counters] by simp
  have d: "shouldDrop rd as = Inr (if under_load rd as \<and> b then (True, snd (stillHot (rd_hot_log rd) ?a)) else (False, ?a))"
    by (cases b) (simp_all add: shouldDrop_unfold b' m)
  let ?as' = "if under_load rd as \<and> b then (snd (stillHot (rd_hot_log rd) ?a))\<lparr>droppedRecently := True\<rparr> else ?a"
  have "same_counters as ?as'"
    using same_counters_trans [OF asked_counters [of as rd] stillHot_counters [of _ "rd_hot_log rd"]] asked_counters [of as rd]
    by (simp add: same_counters_def)
  moreover have "Shedder_Allow rd as = Inr (if under_load rd as \<and> b then (None, ?as') else (Some (rd_start rd), addFlying 1 ?as'))"
    by (simp add: Shedder_Allow_def d)
  ultimately show ?thesis using b that by blast
qed


lemma Pass_eq:
  assumes "interval (passCounter as) \<noteq> 0" "interval (rtCounter as) \<noteq> 0"
  shows "\<exists>as'. promise_Pass rd s as = Inr as'"
proof -
  have c: "passCounter (addFlying (- 1) as) = passCounter as" "rtCounter (addFlying (- 1) as) = rtCounter as" by (simp_all add: addFlying_def Let_def)
  obtain w where "RollingWindow_Add Bucket_Reset Bucket_Add (rd_rt1 rd) (rd_rt2 rd) (response_time s (rd_now rd)) (rtCounter as) = Inr w"
    using Add_total [OF assms(2)] by metis
  moreover obtain w' where "RollingWindow_Add Bucket_Reset Bucket_Add (rd_pass1 rd) (rd_pass2 rd) 1 (passCounter as) = Inr w'"
    using Add_total [OF assms(1)] by metis
  ultimately show ?thesis by (simp add: promise_Pass_def Let_def c)
qed

definition shed_inv :: "adaptiveShedder \<Rightarrow> shed_call list \<Rightarrow> int list \<Rightarrow> adaptiveShedder \<Rightarrow> bool" where
  "shed_inv as0 cs pend as \<longleftrightarrow> flying as = int (length pend) \<and> 0 \<le> avgFlying as \<and>
     cpuThreshold as = cpuThreshold as0 \<and> windowScale as = windowScale as0 \<and>
     run_adds Bucket_Reset Bucket_Add (pass_log cs) (passCounter as0) = Inr (passCounter as) \<and>
     run_adds Bucket_Reset Bucket_Add (time_log cs) (rtCounter as0) = Inr (rtCounter as) \<and>
     interval (passCounter as) = interval (passCounter as0) \<and> interval (rtCounter as) = interval (rtCounter as0)"

lemma Allow_inv:
  assumes "shed_inv as0 cs pend as" "Shedder_Allow rd as = Inr (p, as')"
    "interval (passCounter as0) \<noteq> 0" "interval (rtCounter as0) \<noteq> 0"
  shows "shed_inv as0 (cs @ [CAllow rd]) (pend @ (case p of None \<Rightarrow> [] | Some s \<Rightarrow> [s])) as'"
proof -
  have i: "interval (passCounter as) \<noteq> 0" "interval (rtCounter as) \<noteq> 0" using assms(1,3,4) by (simp_all add: shed_inv_def)
  obtain b as1 where "same_counters as as1"
    "Shedder_Allow rd as = Inr (if under_load rd as \<and> b then (None, as1) else (Some (rd_start rd), addFlying 1 as1))"
    using Allow_eq [OF i, of rd] by metis
  then show ?thesis using assms(1,2)
    by (auto simp: shed_inv_def same_counters_def addFlying_def Let_def pass_log_def time_log_def split: if_splits)
qed

lemma settle_inv:
  assumes "shed_inv as0 cs pend as" "s \<in> set pend"
  shows "flying (addFlying (- 1) as) = int (length (remove1 s pend)) \<and> 0 \<le> avgFlying (addFlying (- 1) as)"
proof -
  obtain k where k: "length pend = Suc k" "length (remove1 s pend) = k"
    using assms(2) length_remove1 [of s pend] by (cases "length pend") auto
  then have "flying as = int k + 1" "0 \<le> avgFlying as" using assms(1) by (simp_all add: shed_inv_def)
  then show ?thesis unfolding k(2) by (auto simp: addFlying_def Let_def flyingBeta_def)
qed

lemma Pass_inv:
  assumes "shed_inv as0 cs pend as" "s \<in> set pend" "promise_Pass rd s as = Inr as'"
  shows "shed_inv as0 (cs @ [CPass rd s]) (remove1 s pend) as'"
proof -
  have c: "passCounter (addFlying (- 1) as) = passCounter as" "rtCounter (addFlying (- 1) as) = rtCounter as"
    "cpuThreshold (addFlying (- 1) as) = cpuThreshold as" "windowScale (addFlying (- 1) as) = windowScale as"
    by (simp_all add: addFlying_def Let_def)
  obtain w w' where w: "RollingWindow_Add Bucket_Reset Bucket_Add (rd_rt1 rd) (rd_rt2 rd) (response_time s (rd_now rd)) (rtCounter as) = Inr w"
    "RollingWindow_Add Bucket_Reset Bucket_Add (rd_pass1 rd) (rd_pass2 rd) 1 (passCounter as) = Inr w'"
    "as' = (addFlying (- 1) as)\<lparr>rtCounter := w, passCounter := w'\<rparr>"
    using assms(3) by (auto simp: promise_Pass_def Let_def c split: sum.splits)
  show ?thesis using assms(1) settle_inv [OF assms(1,2)] w Add_interval [OF w(1)] Add_interval [OF w(2)]
    by (simp add: shed_inv_def pass_log_def time_log_def run_adds_snoc c)
qed

lemma Fail_inv:
  assumes "shed_inv as0 cs pend as" "s \<in> set pend"
  shows "shed_inv as0 (cs @ [CFail s]) (remove1 s pend) (promise_Fail as)"
proof -
  have c: "passCounter (addFlying (- 1) as) = passCounter as" "rtCounter (addFlying (- 1) as) = rtCounter as"
    "cpuThreshold (addFlying (- 1) as) = cpuThreshold as" "windowScale (addFlying (- 1) as) = windowScale as"
    by (simp_all add: addFlying_def Let_def)
  show ?thesis using assms(1) settle_inv [OF assms] by (simp add: shed_inv_def promise_Fail_def pass_log_def time_log_def c)
qed

lemma shed_reach_inv:
  assumes "shed_reach as0 cs pend as" "flying as0 = 0" "avgFlying as0 = 0" "interval (passCounter as0) \<noteq> 0" "interval (rtCounter as0) \<noteq> 0"
  shows "shed_inv as0 cs pend as"
  using assms(1)
proof induction
  case shed_start
  then show ?case using assms by (simp add: shed_inv_def pass_log_def time_log_def)
next
  case (shed_grant cs pend as rd s as')
  then show ?case using Allow_inv [OF _ shed_grant(2) assms(4,5)] by fastforce
next
  case (shed_reject cs pend as rd as')
  then show ?case using Allow_inv [OF _ shed_reject(2) assms(4,5)] by fastforce
qed (simp_all add: Pass_inv Fail_inv)


subsection \<open>When requests are rejected\<close>

lemma pass_log_ones: "list_all (\<lambda>(a, b, v). v = 1) (pass_log cs)"
proof (induction cs)
  case (Cons c cs)
  then show ?case by (cases c) (simp_all add: pass_log_def)
qed (simp add: pass_log_def)

definition flight_limit :: "adaptiveShedder \<Rightarrow> int \<Rightarrow> rat \<Rightarrow> int \<Rightarrow> rat" where
  "flight_limit as mp rt cpu = AtLeast (of_int mp * rt * windowScale as) 1 *
     Between (of_int (cpuMax - cpu) / of_int (cpuMax - cpuThreshold as)) overloadFactorLowerBound 1"

lemma new_shedder:
  assumes "NewAdaptiveShedder True opts t1 t2 = Inr (Adaptive as0)"
  obtains n w where "0 < n" "NewRollingWindow \<lparr>Sum = 0, Count = 0\<rparr> n (go_quot w n) [IgnoreCurrentBucket] t1 = Inr (passCounter as0)"
    "NewRollingWindow \<lparr>Sum = 0, Count = 0\<rparr> n (go_quot w n) [IgnoreCurrentBucket] t2 = Inr (rtCounter as0)"
    "flying as0 = 0" "avgFlying as0 = 0" "interval (passCounter as0) = go_quot w n" "interval (rtCounter as0) = go_quot w n"
    "rw_size (passCounter as0) = nat n" "windowScale as0 = 1000000 / of_int (go_quot w n)"
proof -
  define os where "os = fold apply_ShedderOption opts \<lparr>opt_window = defaultWindow, opt_buckets = defaultBuckets, opt_cpuThreshold = defaultCpuThreshold\<rparr>"
  show ?thesis
    by (rule that [of "opt_buckets os" "opt_window os"]; use assms in
      \<open>auto simp: NewAdaptiveShedder_def os_def [symmetric] Let_def NewRollingWindow_def IgnoreCurrentBucket_def millisecondsPerSecond_def split: if_splits sum.splits\<close>)
qed

text \<open>C18: (Rejections.) After any sequence of calls on a new shedder whose buckets last at least a nanosecond, with clock
  readings that follow one another, the number of requests in flight is the number of unsettled promises; no call panics;
  and \<open>Allow\<close> rejects exactly when the processor is overloaded (or requests were rejected within a second of the last
  overload) and both the number of requests in flight and its moving average exceed the limit, computed from the largest
  number of passes and the smallest average response time recorded in the finished slots of the window. With no
  unsettled promise nothing is rejected.\<close>

theorem shedder_rejects_only_overload:
  assumes "NewAdaptiveShedder True opts t1 t2 = Inr (Adaptive as0)" and "0 < interval (passCounter as0)" and "cpuThreshold as0 < 1000"
    and "shed_reach as0 cs pend as"
    and "timely t1 (interval (passCounter as0)) t1 (pass_log cs) (rd_pass rd)"
    and "timely t2 (interval (passCounter as0)) t2 (time_log cs) (rd_rt rd)"
  shows "flying as = int (length pend) \<and> (\<forall>prd s. \<exists>as'. promise_Pass prd s as = Inr as') \<and>
    (\<exists>p as'. Shedder_Allow rd as = Inr (p, as') \<and> (pend = [] \<longrightarrow> p \<noteq> None) \<and>
      (p = None \<longleftrightarrow> under_load rd as \<and>
        (let m = flight_limit as0
               (most_passes t1 (interval (passCounter as0)) (int (rw_size (passCounter as0))) (pass_log cs) (rd_pass rd))
               (least_time t2 (interval (passCounter as0)) (int (rw_size (passCounter as0))) (time_log cs) (rd_rt rd)) (rd_factor rd)
         in m < avgFlying as \<and> m < of_int (int (length pend)))))"
proof -
  obtain n w where n: "0 < n" "NewRollingWindow \<lparr>Sum = 0, Count = 0\<rparr> n (go_quot w n) [IgnoreCurrentBucket] t1 = Inr (passCounter as0)"
    "NewRollingWindow \<lparr>Sum = 0, Count = 0\<rparr> n (go_quot w n) [IgnoreCurrentBucket] t2 = Inr (rtCounter as0)"
    "flying as0 = 0" "avgFlying as0 = 0" "interval (passCounter as0) = go_quot w n" "interval (rtCounter as0) = go_quot w n"
    "rw_size (passCounter as0) = nat n" by (rule new_shedder [OF assms(1)])
  let ?i = "go_quot w n"
  have i: "0 < ?i" using assms(2) n by simp
  have inv: "shed_inv as0 cs pend as" by (rule shed_reach_inv [OF assms(4) n(4,5)]) (use i n in simp_all)
  let ?mp = "most_passes t1 ?i n (pass_log cs) (rd_pass rd)" and ?rt = "least_time t2 ?i n (time_log cs) (rd_rt rd)"
  let ?m = "flight_limit as0 ?mp ?rt (rd_factor rd)"
  have ones: "list_all (\<lambda>(a, b, v). v = 1) (pass_log cs)"
    by (rule pass_log_ones)
  have mp: "maxPass (rd_pass rd) as = Inr ?mp"
    by (rule most_passes_exact [OF n(2) i _ _ ones]) (use assms(5) n inv in \<open>simp_all add: shed_inv_def\<close>)
  have rt: "minRt (rd_rt rd) as = Inr ?rt"
    by (rule least_time_exact [OF n(3) i]) (use assms(6) n inv in \<open>simp_all add: shed_inv_def\<close>)
  have hi: "highThru rd as = Inr (?m < avgFlying as \<and> ?m < of_int (flying as))"
    using inv assms(3) by (simp add: highThru_def maxFlight_def mp rt overloadFactor_def cpuMax_def flight_limit_def shed_inv_def)
  have "0 < AtLeast x 1" "0 < Between x overloadFactorLowerBound 1" for x
    by (auto simp: AtLeast_def Between_def overloadFactorLowerBound_def)
  then have pos: "0 < ?m" unfolding flight_limit_def by (intro mult_pos_pos)
  have nz: "interval (passCounter as) \<noteq> 0" "interval (rtCounter as) \<noteq> 0" using i n inv by (simp_all add: shed_inv_def)
  obtain b as1 where b: "highThru rd as = Inr b"
    "Shedder_Allow rd as = Inr (if under_load rd as \<and> b then (None, as1) else (Some (rd_start rd), addFlying 1 as1))"
    by (rule Allow_eq [OF nz])
  have fl: "flying as = int (length pend)" using inv by (simp add: shed_inv_def)
  have e: "int (rw_size (passCounter as0)) = n" using n(1,8) by simp
  have "b \<longleftrightarrow> ?m < avgFlying as \<and> ?m < of_int (int (length pend))" using hi b(1) fl by simp
  then show ?thesis using fl b(2) pos Pass_eq [OF nz] unfolding n(6) e Let_def by (auto simp: not_less intro: order_less_imp_le)
qed


theorem shedder_rejects_only_overload_witness:
  "\<exists>as0 as p as'. NewAdaptiveShedder True [WithBuckets 2, WithWindow 200000000] 0 0 = Inr (Adaptive as0) \<and>
     (let rd = \<lparr>rd_cpu = 1000, rd_overload = 7, rd_hot = 7, rd_pass = 8, rd_rt = 9, rd_factor = 1000, rd_pass_log = 10, rd_rt_log = 11,
                rd_hot_log = 12, rd_start = 13\<rparr>
      in shed_reach as0 [CAllow rd] [13] as \<and> Shedder_Allow rd as = Inr (p, as') \<and> p \<noteq> None)"
proof -
  let ?rd = "\<lparr>rd_cpu = 1000, rd_overload = 7, rd_hot = 7, rd_pass = 8, rd_rt = 9, rd_factor = 1000, rd_pass_log = 10, rd_rt_log = 11,
                rd_hot_log = 12, rd_start = 13\<rparr>"
  let ?w = "\<lparr>rw_size = 2, buckets = [\<lparr>Sum = 0, Count = 0\<rparr>, \<lparr>Sum = 0, Count = 0\<rparr>], interval = 100000000, offset = 0,
             ignoreCurrent = True, lastTime = 0\<rparr>"
  let ?as0 = "\<lparr>cpuThreshold = 900, windowScale = 1 / 100, flying = 0, avgFlying = 0, overloadTime = 0, droppedRecently = False,
               passCounter = ?w, rtCounter = ?w\<rparr>"
  have new: "NewAdaptiveShedder True [WithBuckets 2, WithWindow 200000000] 0 0 = Inr (Adaptive ?as0)"
    by (simp add: NewAdaptiveShedder_def NewRollingWindow_def IgnoreCurrentBucket_def defaultWindow_def defaultBuckets_def
      defaultCpuThreshold_def millisecondsPerSecond_def go_quot_def numeral_2_eq_2 Let_def)
  obtain p as where 1: "Shedder_Allow ?rd ?as0 = Inr (p, as)" "p \<noteq> None"
    using shedder_rejects_only_overload [OF new _ _ shed_start, of ?rd] by (auto simp: pass_log_def time_log_def)
  then have p: "p = Some 13" by (auto simp: Shedder_Allow_def split: sum.splits prod.splits bool.splits)
  then have r: "shed_reach ?as0 [CAllow ?rd] [13] as" using shed_grant [OF shed_start, of ?rd ?as0 13 as] 1 by simp
  obtain p' as' where "Shedder_Allow ?rd as = Inr (p', as')" "p' \<noteq> None"
    using shedder_rejects_only_overload [OF new _ _ r, of ?rd]
    by (auto simp: pass_log_def time_log_def flight_limit_def most_passes_def least_time_def busy_slots_def hist_of_def
      AtLeast_def Between_def overloadFactorLowerBound_def cpuMax_def)
  then show ?thesis using new r by (auto simp: Let_def)
qed

end
