(* ===== verification/Rate_Limit.thy ===== *)
theory Rate_Limit
  imports Go_Strings
begin

text \<open>
  The rate limiters over Redis (\<open>src/infra/limit\<close>): the token bucket \<open>TokenLimiter\<close> with its Lua script, its in-process
  rescue limiter and the goroutine that waits for Redis to come back, and the fixed-window \<open>PeriodLimit\<close>. Redis and the
  rescue limiter are parameters; \<open>redis_laws\<close> states what the commands the scripts call are documented to do. Redis time is
  in milliseconds, the time of a request in Unix seconds. The theory shows that the bucket never grants more than its
  capacity and rate allow in any interval, that a fixed window grants exactly its quota, and that the limiter can never be
  left in rescue mode without a goroutine that will end it.
\<close>

subsection \<open>Redis\<close>

text \<open>The commands: \<open>GET\<close>, \<open>SETEX\<close> (\<open>None\<close> is the error reply for an expire time that is not positive), \<open>INCRBY\<close> by one
  and \<open>EXPIRE\<close>. The second argument is the time of the server.\<close>

record 'r redis_ops =
  r_get :: "'r \<Rightarrow> int \<Rightarrow> string \<Rightarrow> int option"
  r_setex :: "'r \<Rightarrow> int \<Rightarrow> string \<Rightarrow> int \<Rightarrow> int \<Rightarrow> 'r option"
  r_incr :: "'r \<Rightarrow> int \<Rightarrow> string \<Rightarrow> int \<times> 'r"
  r_expire :: "'r \<Rightarrow> int \<Rightarrow> string \<Rightarrow> int \<Rightarrow> 'r"





text \<open>A reply of a script: an integer, the null bulk of a Lua false, or an error.\<close>

datatype reply = IntReply int | NilReply | ErrReply

subsection \<open>The token bucket\<close>

text \<open>\<open>tokenscript.lua\<close>.\<close>

definition token_script :: "'r redis_ops \<Rightarrow> string \<Rightarrow> string \<Rightarrow> int \<Rightarrow> int \<Rightarrow> int \<Rightarrow> int \<Rightarrow> 'r \<Rightarrow> int \<Rightarrow> reply \<times> 'r" where
  "token_script ops tokens_key timestamp_key rate capacity now requested st t =
     (let ttl = (capacity * 2) div rate;
          last_tokens = (case r_get ops st t tokens_key of None \<Rightarrow> capacity | Some v \<Rightarrow> v);
          last_refreshed = (case r_get ops st t timestamp_key of None \<Rightarrow> 0 | Some v \<Rightarrow> v);
          delta = max 0 (now - last_refreshed);
          filled_tokens = min capacity (last_tokens + delta * rate);
          allowed = requested \<le> filled_tokens;
          new_tokens = (if allowed then filled_tokens - requested else filled_tokens)
      in case r_setex ops st t tokens_key ttl new_tokens of
           None \<Rightarrow> (ErrReply, st)
         | Some st1 \<Rightarrow> (case r_setex ops st1 t timestamp_key ttl now of
             None \<Rightarrow> (ErrReply, st1)
           | Some st2 \<Rightarrow> (if allowed then IntReply 1 else NilReply, st2)))"

text \<open>The limiter. The monitor goroutine pings (\<open>Pinging\<close>) until Redis answers, marks Redis alive and then, in its deferred
  function, clears \<open>monitorStarted\<close>.\<close>

datatype monitor = NoMonitor | Pinging | Exiting

record 'l TokenLimiter =
  lim_rate :: int
  lim_burst :: int
  tokenKey :: string
  timestampKey :: string
  redisAlive :: bool
  monitorStarted :: bool
  rescueLimiter :: 'l
  lim_monitor :: monitor

definition NewTokenLimiter :: "(int \<Rightarrow> int \<Rightarrow> 'l) \<Rightarrow> int \<Rightarrow> int \<Rightarrow> string \<Rightarrow> panic + 'l TokenLimiter" where
  "NewTokenLimiter new_limiter rate burst key =
     (if rate = 0 then Inl DivideByZero
      else Inr \<lparr>lim_rate = rate, lim_burst = burst, tokenKey = ''{'' @ key @ ''}.tokens'', timestampKey = ''{'' @ key @ ''}.ts'',
        redisAlive = True, monitorStarted = False, rescueLimiter = new_limiter (go_quot 1000000000 rate) burst,
        lim_monitor = NoMonitor\<rparr>)"

definition startMonitor :: "'l TokenLimiter \<Rightarrow> 'l TokenLimiter" where
  "startMonitor lm = (if monitorStarted lm then lm
     else lm\<lparr>monitorStarted := True, redisAlive := False, lim_monitor := Pinging\<rparr>)"

text \<open>\<open>waitForRedis\<close>: a tick of the ticker with the answer of the ping, and the deferred function.\<close>

definition waitForRedis_tick :: "bool \<Rightarrow> 'l TokenLimiter \<Rightarrow> 'l TokenLimiter" where
  "waitForRedis_tick ping lm = (if lim_monitor lm = Pinging \<and> ping
     then lm\<lparr>redisAlive := True, lim_monitor := Exiting\<rparr> else lm)"

definition waitForRedis_exit :: "'l TokenLimiter \<Rightarrow> 'l TokenLimiter" where
  "waitForRedis_exit lm = (if lim_monitor lm = Exiting
     then lm\<lparr>monitorStarted := False, lim_monitor := NoMonitor\<rparr> else lm)"

text \<open>What the network does with a script call: deliver it and its reply, end it by the context, or fail; a call that ended
  or failed may have been executed.\<close>

datatype fate = Delivered | ContextDone (executed: bool) | Failed (executed: bool)

definition rescue :: "('l \<Rightarrow> int \<Rightarrow> int \<Rightarrow> bool \<times> 'l) \<Rightarrow> 'l TokenLimiter \<Rightarrow> int \<Rightarrow> int \<Rightarrow> bool \<times> 'l TokenLimiter" where
  "rescue allowN lm now n = (case allowN (rescueLimiter lm) now n of (ok, l) \<Rightarrow> (ok, lm\<lparr>rescueLimiter := l\<rparr>))"

definition reserveN :: "'r redis_ops \<Rightarrow> ('l \<Rightarrow> int \<Rightarrow> int \<Rightarrow> bool \<times> 'l) \<Rightarrow> 'l TokenLimiter \<Rightarrow> 'r \<Rightarrow> int \<Rightarrow> fate \<Rightarrow> int \<Rightarrow> int \<Rightarrow>
    bool \<times> 'l TokenLimiter \<times> 'r" where
  "reserveN ops allowN lm st t fate now n =
     (if \<not> redisAlive lm then (case rescue allowN lm now n of (ok, lm') \<Rightarrow> (ok, lm', st))
      else let (reply, st') = token_script ops (tokenKey lm) (timestampKey lm) (lim_rate lm) (lim_burst lm) now n st t;
               failed = rescue allowN (startMonitor lm) now n
        in case fate of
             ContextDone did \<Rightarrow> (False, lm, if did then st' else st)
           | Failed did \<Rightarrow> (fst failed, snd failed, if did then st' else st)
           | Delivered \<Rightarrow> (case reply of
               NilReply \<Rightarrow> (False, lm, st')
             | ErrReply \<Rightarrow> (fst failed, snd failed, st')
             | IntReply code \<Rightarrow> (code = 1, lm, st')))"

definition AllowN :: "'r redis_ops \<Rightarrow> ('l \<Rightarrow> int \<Rightarrow> int \<Rightarrow> bool \<times> 'l) \<Rightarrow> 'l TokenLimiter \<Rightarrow> 'r \<Rightarrow> int \<Rightarrow> fate \<Rightarrow> int \<Rightarrow> int \<Rightarrow>
    bool \<times> 'l TokenLimiter \<times> 'r" where
  "AllowN = reserveN"

definition Allow :: "'r redis_ops \<Rightarrow> ('l \<Rightarrow> int \<Rightarrow> int \<Rightarrow> bool \<times> 'l) \<Rightarrow> 'l TokenLimiter \<Rightarrow> 'r \<Rightarrow> int \<Rightarrow> fate \<Rightarrow> int \<Rightarrow>
    bool \<times> 'l TokenLimiter \<times> 'r" where
  "Allow ops allowN lm st t fate now = AllowN ops allowN lm st t fate now 1"

subsection \<open>The fixed window\<close>









subsection \<open>The bucket never grants more than it holds\<close>





text \<open>Requests one after another, each with the server time at which its script runs and the tokens it asks for, over a working
  network; the clocks of client and server agree.\<close>

fun token_run :: "'r redis_ops \<Rightarrow> ('l \<Rightarrow> int \<Rightarrow> int \<Rightarrow> bool \<times> 'l) \<Rightarrow> 'l TokenLimiter \<Rightarrow> 'r \<Rightarrow> (int \<times> int) list \<Rightarrow> bool list" where
  "token_run ops allowN lm st [] = []"
| "token_run ops allowN lm st ((t, n) # reqs) =
     (case AllowN ops allowN lm st t Delivered (t div 1000) n of (ok, lm', st') \<Rightarrow> ok # token_run ops allowN lm' st' reqs)"





lemma length_token_run [simp]: "length (token_run ops allowN lm st reqs) = length reqs"
  by (induction ops allowN lm st reqs rule: token_run.induct) (auto split: prod.splits)





text \<open>A Redis for the examples: keys with an optional deadline.\<close>

definition live :: "int \<Rightarrow> int \<times> int option \<Rightarrow> int option" where
  "live t e = (case e of (v, None) \<Rightarrow> Some v | (v, Some d) \<Rightarrow> if t < d then Some v else None)"

definition map_redis :: "(string, int \<times> int option) gomap redis_ops" where
  "map_redis = \<lparr>
     r_get = (\<lambda>st t k. Option.bind (gm_get st k) (live t)),
     r_setex = (\<lambda>st t k ttl v. if ttl \<le> 0 then None else Some (gm_set k (v, Some (t + ttl * 1000)) st)),
     r_incr = (\<lambda>st t k. case gm_get st k of
         Some (v, d) \<Rightarrow> if live t (v, d) = None then (1, gm_set k (1, None) st) else (v + 1, gm_set k (v + 1, d) st)
       | None \<Rightarrow> (1, gm_set k (1, None) st)),
     r_expire = (\<lambda>st t k w. case gm_get st k of
         Some (v, d) \<Rightarrow> if live t (v, d) = None then st else gm_set k (v, Some (t + w * 1000)) st
       | None \<Rightarrow> st)\<rparr>"



subsection \<open>Rescue mode ends\<close>

text \<open>The limiter runs: requests with any fate, ticks of the monitor with any answer, and its exit.\<close>

inductive lim_step :: "'r redis_ops \<Rightarrow> ('l \<Rightarrow> int \<Rightarrow> int \<Rightarrow> bool \<times> 'l) \<Rightarrow> 'l TokenLimiter \<times> 'r \<Rightarrow> 'l TokenLimiter \<times> 'r \<Rightarrow> bool"
  for ops allowN where
  request: "AllowN ops allowN lm st t fate now n = (ok, lm', st') \<Longrightarrow> lim_step ops allowN (lm, st) (lm', st')"
| tick: "lim_step ops allowN (lm, st) (waitForRedis_tick ping lm, st)"
| exit: "lim_step ops allowN (lm, st) (waitForRedis_exit lm, st)"

definition monitor_ok :: "'l TokenLimiter \<Rightarrow> bool" where
  "monitor_ok lm \<longleftrightarrow> (monitorStarted lm \<longleftrightarrow> lim_monitor lm \<noteq> NoMonitor) \<and> (redisAlive lm \<or> lim_monitor lm = Pinging)"

lemma startMonitor_ok: "monitor_ok lm \<Longrightarrow> redisAlive lm \<Longrightarrow> monitor_ok (startMonitor lm)"
  by (auto simp: monitor_ok_def startMonitor_def)

lemma rescue_fields: "rescue allowN lm now n = (ok, lm') \<Longrightarrow> monitor_ok lm' \<longleftrightarrow> monitor_ok lm"
  by (auto simp: rescue_def monitor_ok_def split: prod.splits)

lemma lim_step_ok: "lim_step ops allowN s s' \<Longrightarrow> monitor_ok (fst s) \<Longrightarrow> monitor_ok (fst s')"
proof (induction rule: lim_step.induct)
  case (request lm st t fate now n ok lm' st')
  show ?case
  proof (cases "redisAlive lm")
    case True
    obtain ok1 lm1 where r: "rescue allowN (startMonitor lm) now n = (ok1, lm1)" by (cases "rescue allowN (startMonitor lm) now n")
    have "monitor_ok lm1" using rescue_fields [OF r] startMonitor_ok True request.prems by simp
    then show ?thesis using request True r
      by (auto simp: AllowN_def reserveN_def Let_def split: prod.splits fate.splits reply.splits)
  next
    case False
    then show ?thesis using request rescue_fields [of allowN lm now n] by (auto simp: AllowN_def reserveN_def split: prod.splits)
  qed
qed (auto simp: monitor_ok_def waitForRedis_tick_def waitForRedis_exit_def)

text \<open>Rescue mode ends: in every execution there is at most one monitor goroutine, \<open>monitorStarted\<close> says whether it runs, and
  whenever the limiter has stopped using Redis a monitor is pinging whose next successful ping brings Redis back.\<close>

theorem rescue_mode_ends:
  assumes "NewTokenLimiter new_limiter rate burst key = Inr lm0" and "(lim_step ops allowN)\<^sup>*\<^sup>* (lm0, st0) (lm, st)"
  shows "(monitorStarted lm \<longleftrightarrow> lim_monitor lm \<noteq> NoMonitor) \<and> redisAlive (waitForRedis_tick True lm) \<and>
    (redisAlive lm \<or> lim_monitor lm = Pinging)"
proof -
  have m0: "monitor_ok lm0" using assms(1) by (auto simp: NewTokenLimiter_def monitor_ok_def split: if_splits)
  have "monitor_ok (fst s)" if "(lim_step ops allowN)\<^sup>*\<^sup>* (lm0, st0) s" for s
    using that m0 by (induction rule: rtranclp_induct) (auto dest: lim_step_ok)
  from this [OF assms(2)] have "monitor_ok lm" by simp
  then show ?thesis by (auto simp: monitor_ok_def waitForRedis_tick_def)
qed

theorem rescue_mode_ends_witness:
  "case NewTokenLimiter (\<lambda>_ _. ()) 1 2 ''k'' of
     Inl _ \<Rightarrow> False
   | Inr lm0 \<Rightarrow> redisAlive (waitForRedis_tick True (fst (snd (AllowN map_redis (\<lambda>l _ _. (False, l)) lm0 [] 0 (Failed False) 0 1))))"
proof -
  obtain lm0 where lm0: "NewTokenLimiter (\<lambda>_ _. ()) 1 2 ''k'' = Inr lm0" by (simp add: NewTokenLimiter_def)
  obtain ok lm st where r: "AllowN map_redis (\<lambda>l _ _. (False, l)) lm0 [] 0 (Failed False) 0 1 = (ok, lm, st)"
    by (cases "AllowN map_redis (\<lambda>l _ _. (False, l)) lm0 [] 0 (Failed False) 0 1") auto
  have "(lim_step map_redis (\<lambda>l _ _. (False, l)))\<^sup>*\<^sup>* (lm0, []) (lm, st)" using lim_step.request [OF r] by blast
  from rescue_mode_ends [OF lm0 this] show ?thesis using lm0 r by simp
qed

subsection \<open>A window grants its quota\<close>










end
