(* ===== verification/Bloom_Filter.thy ===== *)
theory Bloom_Filter
  imports Go_Strings "HOL-Library.Word"
begin

text \<open>
  The Bloom filter over a Redis bit string (\<open>src/infra/bloom\<close>). The hash (MurmurHash3) and the bit commands of Redis are
  parameters. The theory shows that the filter has no false negatives, whatever else is added by whatever clients and
  however their calls end, that it answers exactly whether all the bits of an element are set, and that no call ever
  computes an offset outside the bit string.
\<close>

subsection \<open>The filter\<close>

record 'r bit_ops =
  r_getbit :: "'r \<Rightarrow> string \<Rightarrow> nat \<Rightarrow> bool"
  r_setbit :: "'r \<Rightarrow> string \<Rightarrow> nat \<Rightarrow> 'r"

definition bit_laws :: "'r bit_ops \<Rightarrow> bool" where
  "bit_laws ops \<longleftrightarrow> (\<forall>st k i k' i'. r_getbit ops (r_setbit ops st k i) k' i' \<longleftrightarrow> (k' = k \<and> i' = i) \<or> r_getbit ops st k' i')"

definition maps :: nat where
  "maps = 14"

record redisBitSet =
  rb_key :: string
  rb_bits :: nat

definition newRedisBitSet :: "string \<Rightarrow> nat \<Rightarrow> redisBitSet" where
  "newRedisBitSet key bits = \<lparr>rb_key = key, rb_bits = bits\<rparr>"

record BloomFilter =
  bf_bits :: nat
  bitSet :: redisBitSet

definition BloomNew :: "string \<Rightarrow> nat \<Rightarrow> BloomFilter" where
  "BloomNew key bits = \<lparr>bf_bits = bits, bitSet = newRedisBitSet key bits\<rparr>"

definition getLocations :: "(8 word list \<Rightarrow> 64 word) \<Rightarrow> BloomFilter \<Rightarrow> 8 word list \<Rightarrow> panic + nat list" where
  "getLocations hash f data =
     (if bf_bits f = 0 then Inl DivideByZero
      else Inr (map (\<lambda>i. unat (hash (data @ [of_nat i])) mod bf_bits f) [0..<maps]))"

datatype bloom_error = ErrTooLargeOffset | BloomStoreError

fun buildOffsetArgs :: "redisBitSet \<Rightarrow> nat list \<Rightarrow> bloom_error + nat list" where
  "buildOffsetArgs r [] = Inr []"
| "buildOffsetArgs r (offset # offsets) =
     (if rb_bits r \<le> offset then Inl ErrTooLargeOffset
      else case buildOffsetArgs r offsets of Inl e \<Rightarrow> Inl e | Inr args \<Rightarrow> Inr (offset # args))"

text \<open>The two scripts.\<close>

definition setscript :: "'r bit_ops \<Rightarrow> string \<Rightarrow> nat list \<Rightarrow> 'r \<Rightarrow> 'r" where
  "setscript ops key args st = fold (\<lambda>offset st. r_setbit ops st key offset) args st"

fun testscript :: "'r bit_ops \<Rightarrow> string \<Rightarrow> nat list \<Rightarrow> 'r \<Rightarrow> bool" where
  "testscript ops key [] st = True"
| "testscript ops key (offset # args) st = (if \<not> r_getbit ops st key offset then False else testscript ops key args st)"

text \<open>The fate of a call: it fails after the script has been executed or not, or its reply arrives.\<close>

datatype call_fate = Arrives | Fails (was_executed: bool)

definition check :: "'r bit_ops \<Rightarrow> redisBitSet \<Rightarrow> nat list \<Rightarrow> call_fate \<Rightarrow> 'r \<Rightarrow> bloom_error + bool" where
  "check ops r offsets fate st = (case buildOffsetArgs r offsets of
     Inl err \<Rightarrow> Inl err
   | Inr args \<Rightarrow> (case fate of Fails _ \<Rightarrow> Inl BloomStoreError | Arrives \<Rightarrow> Inr (testscript ops (rb_key r) args st)))"

definition bits_set :: "'r bit_ops \<Rightarrow> redisBitSet \<Rightarrow> nat list \<Rightarrow> call_fate \<Rightarrow> 'r \<Rightarrow> bloom_error option \<times> 'r" where
  "bits_set ops r offsets fate st = (case buildOffsetArgs r offsets of
     Inl err \<Rightarrow> (Some err, st)
   | Inr args \<Rightarrow> (case fate of
       Arrives \<Rightarrow> (None, setscript ops (rb_key r) args st)
     | Fails ex \<Rightarrow> (Some BloomStoreError, if ex then setscript ops (rb_key r) args st else st)))"

definition BloomAdd :: "'r bit_ops \<Rightarrow> (8 word list \<Rightarrow> 64 word) \<Rightarrow> BloomFilter \<Rightarrow> 8 word list \<Rightarrow> call_fate \<Rightarrow> 'r \<Rightarrow>
    panic + (bloom_error option \<times> 'r)" where
  "BloomAdd ops hash f data fate st = (case getLocations hash f data of
     Inl p \<Rightarrow> Inl p
   | Inr locations \<Rightarrow> Inr (bits_set ops (bitSet f) locations fate st))"

definition BloomExists :: "'r bit_ops \<Rightarrow> (8 word list \<Rightarrow> 64 word) \<Rightarrow> BloomFilter \<Rightarrow> 8 word list \<Rightarrow> call_fate \<Rightarrow> 'r \<Rightarrow>
    panic + (bloom_error + bool)" where
  "BloomExists ops hash f data fate st = (case getLocations hash f data of
     Inl p \<Rightarrow> Inl p
   | Inr locations \<Rightarrow> Inr (check ops (bitSet f) locations fate st))"

subsection \<open>No false negatives\<close>

lemma buildOffsetArgs_ok: "list_all (\<lambda>i. i < rb_bits r) offsets \<Longrightarrow> buildOffsetArgs r offsets = Inr offsets"
  by (induction offsets) auto

lemma setscript_bits:
  assumes "bit_laws ops"
  shows "r_getbit ops (setscript ops key args st) k i \<longleftrightarrow> (k = key \<and> i \<in> set args) \<or> r_getbit ops st k i"
proof (induction args arbitrary: st)
  case Nil
  then show ?case by (simp add: setscript_def)
next
  case (Cons a args)
  have "setscript ops key (a # args) st = setscript ops key args (r_setbit ops st key a)" by (simp add: setscript_def)
  then show ?case using Cons assms unfolding bit_laws_def by auto
qed

lemma testscript_iff: "testscript ops key args st \<longleftrightarrow> (\<forall>i \<in> set args. r_getbit ops st key i)"
  by (induction args) auto

abbreviation locations :: "(8 word list \<Rightarrow> 64 word) \<Rightarrow> nat \<Rightarrow> 8 word list \<Rightarrow> nat list" where
  "locations hash bits data \<equiv> map (\<lambda>i. unat (hash (data @ [of_nat i])) mod bits) [0..<maps]"

lemma filter_ops:
  assumes "0 < bits"
  shows "BloomAdd ops hash (BloomNew key bits) data fate st = Inr (case fate of
      Arrives \<Rightarrow> (None, setscript ops key (locations hash bits data) st)
    | Fails ex \<Rightarrow> (Some BloomStoreError, if ex then setscript ops key (locations hash bits data) st else st))"
    and "BloomExists ops hash (BloomNew key bits) data fate st = Inr (case fate of
      Arrives \<Rightarrow> Inr (testscript ops key (locations hash bits data) st) | Fails _ \<Rightarrow> Inl BloomStoreError)"
proof -
  have l: "buildOffsetArgs (newRedisBitSet key bits) (locations hash bits data) = Inr (locations hash bits data)"
    by (rule buildOffsetArgs_ok) (use assms in \<open>auto simp: list_all_iff newRedisBitSet_def\<close>)
  have k: "rb_key (newRedisBitSet key bits) = key" by (simp add: newRedisBitSet_def)
  show "BloomAdd ops hash (BloomNew key bits) data fate st = Inr (case fate of
      Arrives \<Rightarrow> (None, setscript ops key (locations hash bits data) st)
    | Fails ex \<Rightarrow> (Some BloomStoreError, if ex then setscript ops key (locations hash bits data) st else st))"
    using assms by (cases fate) (simp_all add: BloomAdd_def getLocations_def BloomNew_def bits_set_def l k)
  show "BloomExists ops hash (BloomNew key bits) data fate st = Inr (case fate of
      Arrives \<Rightarrow> Inr (testscript ops key (locations hash bits data) st) | Fails _ \<Rightarrow> Inl BloomStoreError)"
    using assms by (cases fate) (simp_all add: BloomExists_def getLocations_def BloomNew_def check_def l k)
qed

text \<open>Additions by any clients to any keys of the store, with any fates.\<close>

fun add_all :: "'r bit_ops \<Rightarrow> (8 word list \<Rightarrow> 64 word) \<Rightarrow> (BloomFilter \<times> 8 word list \<times> call_fate) list \<Rightarrow> 'r \<Rightarrow> panic + 'r" where
  "add_all ops hash [] st = Inr st"
| "add_all ops hash ((f, data, fate) # adds) st = (case BloomAdd ops hash f data fate st of
     Inl p \<Rightarrow> Inl p
   | Inr (err, st') \<Rightarrow> add_all ops hash adds st')"

lemma add_keeps_bits:
  assumes "bit_laws ops" "r_getbit ops st k i" "BloomAdd ops hash f data fate st = Inr (err, st')"
  shows "r_getbit ops st' k i"
  using assms(2,3) setscript_bits [OF assms(1)]
  by (auto simp: BloomAdd_def bits_set_def split: sum.splits call_fate.splits if_splits)

lemma add_all_keeps_bits:
  assumes "bit_laws ops" "add_all ops hash adds st = Inr st'" "r_getbit ops st k i"
  shows "r_getbit ops st' k i"
  using assms(2,3)
proof (induction adds arbitrary: st)
  case (Cons a adds)
  obtain f data fate where a: "a = (f, data, fate)" by (cases a)
  then obtain err st1 where "BloomAdd ops hash f data fate st = Inr (err, st1)" "add_all ops hash adds st1 = Inr st'"
    using Cons.prems(1) by (auto split: sum.splits)
  then show ?case using Cons.IH add_keeps_bits [OF assms(1) Cons.prems(2)] by blast
qed simp

text \<open>C19: The filter has no false negatives: an element whose addition succeeded is reported as present whenever a later query
  gets its answer, whatever was added in between; and a query answers whether all the bits of the element are set.\<close>

theorem bloom_no_false_negatives:
  assumes "bit_laws ops" and "0 < bits"
    and "BloomAdd ops hash (BloomNew key bits) data fate st0 = Inr (None, st1)" and "add_all ops hash adds st1 = Inr st2"
  shows "BloomExists ops hash (BloomNew key bits) data Arrives st2 = Inr (Inr True) \<and>
    BloomExists ops hash (BloomNew key bits) other Arrives st2 =
      Inr (Inr (\<forall>i \<in> set (locations hash bits other). r_getbit ops st2 key i))"
proof -
  have st1: "st1 = setscript ops key (locations hash bits data) st0"
    using assms(3) unfolding filter_ops(1) [OF assms(2)] by (auto split: call_fate.splits)
  have "r_getbit ops st2 key i" if "i \<in> set (locations hash bits data)" for i
  proof -
    have "r_getbit ops st1 key i" unfolding st1 setscript_bits [OF assms(1)] using that by blast
    then show ?thesis by (rule add_all_keeps_bits [OF assms(1,4)])
  qed
  then show ?thesis unfolding filter_ops(2) [OF assms(2)] call_fate.case testscript_iff by blast
qed

definition set_bits :: "(string \<times> nat) list bit_ops" where
  "set_bits = \<lparr>r_getbit = (\<lambda>st k i. (k, i) \<in> set st), r_setbit = (\<lambda>st k i. (k, i) # st)\<rparr>"

lemma set_bits_laws: "bit_laws set_bits"
  by (auto simp: bit_laws_def set_bits_def)

theorem bloom_no_false_negatives_witness:
  "case BloomAdd set_bits (\<lambda>bs. of_nat (length bs)) (BloomNew ''b'' 8) [1] Arrives [] of
     Inl _ \<Rightarrow> False
   | Inr (err, st1) \<Rightarrow> err = None \<and> BloomExists set_bits (\<lambda>bs. of_nat (length bs)) (BloomNew ''b'' 8) [1] Arrives st1 = Inr (Inr True)"
proof -
  obtain st1 where a: "BloomAdd set_bits (\<lambda>bs. of_nat (length bs)) (BloomNew ''b'' 8) [1] Arrives [] = Inr (None, st1)"
    using filter_ops(1) [of 8 set_bits "\<lambda>bs. of_nat (length bs)" "''b''" "[1]" Arrives "[]"] by simp
  have "add_all set_bits (\<lambda>bs. of_nat (length bs)) [] st1 = Inr st1" by simp
  from bloom_no_false_negatives [OF set_bits_laws _ a this]
  have "BloomExists set_bits (\<lambda>bs. of_nat (length bs)) (BloomNew ''b'' 8) [1] Arrives st1 = Inr (Inr True)" by (rule conjunct1) simp
  then show ?thesis unfolding a by simp
qed

end
