(* ===== verification/Periodical_Executor.thy ===== *)
theory Periodical_Executor
  imports Go_Prelude "HOL-Library.Multiset"
begin

text \<open>
  Batching executors (\<open>src/infra/executors\<close>): the \<open>PeriodicalExecutor\<close> that collects tasks in a container and runs them in
  batches, either when the container is full or on a timer, and the two containers the repository has, \<open>bulkContainer\<close> and
  \<open>chunkContainer\<close>. The executor is concurrent: callers of \<open>Add\<close>, a background goroutine that stops when idle and is started
  again, and callers of \<open>Flush\<close> run interleaved. Every section under the lock and every channel operation is a step. What the
  executor needs of a container is the locale \<open>task_container\<close>, interpreted for both containers. The theory shows that in
  every interleaving each task is executed exactly once and that no thread waits for ever.
\<close>

subsection \<open>Containers\<close>

record ('c, 't, 'v) container_ops =
  AddTask :: "'c \<Rightarrow> 't \<Rightarrow> bool \<times> 'c"
  RemoveAll :: "'c \<Rightarrow> 'v list \<times> 'c"

record 'v bulkContainer =
  bulk_tasks :: "'v list"
  maxTasks :: int

definition bulk_AddTask :: "'v bulkContainer \<Rightarrow> 'v \<Rightarrow> bool \<times> 'v bulkContainer" where
  "bulk_AddTask bc task = (let tasks = bulk_tasks bc @ [task] in
     (maxTasks bc \<le> int (length tasks), bc\<lparr>bulk_tasks := tasks\<rparr>))"

definition bulk_RemoveAll :: "'v bulkContainer \<Rightarrow> 'v list \<times> 'v bulkContainer" where
  "bulk_RemoveAll bc = (bulk_tasks bc, bc\<lparr>bulk_tasks := []\<rparr>)"

definition bulk_ops :: "('v bulkContainer, 'v, 'v) container_ops" where
  "bulk_ops = \<lparr>AddTask = bulk_AddTask, RemoveAll = bulk_RemoveAll\<rparr>"

record 'v chunk =
  chunk_val :: 'v
  chunk_size :: int

record 'v chunkContainer =
  chunk_tasks :: "'v list"
  total_size :: int
  maxChunkSize :: int

definition chunk_AddTask :: "'v chunkContainer \<Rightarrow> 'v chunk \<Rightarrow> bool \<times> 'v chunkContainer" where
  "chunk_AddTask bc ck = (let sz = total_size bc + chunk_size ck in
     (maxChunkSize bc \<le> sz, bc\<lparr>chunk_tasks := chunk_tasks bc @ [chunk_val ck], total_size := sz\<rparr>))"

definition chunk_RemoveAll :: "'v chunkContainer \<Rightarrow> 'v list \<times> 'v chunkContainer" where
  "chunk_RemoveAll bc = (chunk_tasks bc, bc\<lparr>chunk_tasks := [], total_size := 0\<rparr>)"

definition chunk_ops :: "('v chunkContainer, 'v chunk, 'v) container_ops" where
  "chunk_ops = \<lparr>AddTask = chunk_AddTask, RemoveAll = chunk_RemoveAll\<rparr>"

subsection \<open>The executor\<close>

text \<open>The places a thread can be at. A caller of \<open>Add\<close> whose task filled the container sends the batch to the commander channel
  and waits for the confirmation. The background goroutine waits in its \<open>select\<close> (\<open>Looping\<close>, with its variables \<open>commanded\<close> and
  \<open>last\<close>), confirms a batch, runs it, runs what a tick flushed, asks whether to quit, or flushes once more before it ends.\<close>

datatype 'v adder = Sending "'v list" | Confirming

datatype 'v background =
    Looping bool int
  | Confirm "'v list"
  | Running "'v list"
  | TickRun "'v list" int
  | Checking int
  | Quitting
  | QuitRun "'v list"

record ('c, 'v) executor =
  container :: 'c
  commander :: "'v list list"
  interval :: int
  waitGroup :: nat
  inflight :: int
  guarded :: bool
  adders :: "'v adder list"
  backgrounds :: "'v background list"
  flushers :: "'v list list"

definition idleRound :: int where
  "idleRound = 10"

definition NewPeriodicalExecutor :: "int \<Rightarrow> 'c \<Rightarrow> ('c, 'v) executor" where
  "NewPeriodicalExecutor i c = \<lparr>container = c, commander = [], interval = i, waitGroup = 0, inflight = 0, guarded = False,
     adders = [], backgrounds = [], flushers = []\<rparr>"

definition remove_nth :: "nat \<Rightarrow> 'a list \<Rightarrow> 'a list" where
  "remove_nth i xs = take i xs @ drop (Suc i) xs"

text \<open>\<open>addAndCheck\<close>, the section of \<open>Add\<close> under the lock, with the start of the background goroutine.\<close>

definition addAndCheck :: "('c, 't, 'v) container_ops \<Rightarrow> int \<Rightarrow> 't \<Rightarrow> ('c, 'v) executor \<Rightarrow> ('c, 'v) executor" where
  "addAndCheck ops now task pe =
     (let (full, c) = AddTask ops (container pe) task;
          pe1 = (if full then let (vals, c') = RemoveAll ops c in
                   pe\<lparr>container := c', inflight := inflight pe + 1, adders := adders pe @ [Sending vals]\<rparr>
                 else pe\<lparr>container := c\<rparr>)
      in if guarded pe1 then pe1
         else pe1\<lparr>guarded := True, backgrounds := backgrounds pe1 @ [Looping False now]\<rparr>)"

text \<open>The rest of \<open>Add\<close>: the channel holds one batch.\<close>

definition Add_send :: "nat \<Rightarrow> ('c, 'v) executor \<Rightarrow> ('c, 'v) executor option" where
  "Add_send i pe = (if i < length (adders pe) \<and> length (commander pe) < 1 then
     (case adders pe ! i of
        Sending vals \<Rightarrow> Some (pe\<lparr>commander := commander pe @ [vals], adders := (adders pe)[i := Confirming]\<rparr>)
      | Confirming \<Rightarrow> None) else None)"

text \<open>\<open>Flush\<close> enters the execution and takes the batch; \<open>executeTasks\<close> runs it when it is not empty.\<close>

definition hasTasks :: "'v list \<Rightarrow> bool" where
  "hasTasks tasks \<longleftrightarrow> tasks \<noteq> []"

definition takeBatch :: "('c, 't, 'v) container_ops \<Rightarrow> ('c, 'v) executor \<Rightarrow> 'v list \<times> ('c, 'v) executor" where
  "takeBatch ops pe = (let (vals, c) = RemoveAll ops (container pe) in
     (vals, pe\<lparr>waitGroup := waitGroup pe + 1, container := c\<rparr>))"

definition Flush :: "('c, 't, 'v) container_ops \<Rightarrow> ('c, 'v) executor \<Rightarrow> ('c, 'v) executor" where
  "Flush ops pe = (case takeBatch ops pe of (vals, pe') \<Rightarrow> pe'\<lparr>flushers := flushers pe' @ [vals]\<rparr>)"

definition executeTasks :: "'v list \<Rightarrow> ('c, 'v) executor \<Rightarrow> 'v list list \<times> ('c, 'v) executor" where
  "executeTasks vals pe = (if hasTasks vals then [vals] else [], pe\<lparr>waitGroup := waitGroup pe - 1\<rparr>)"

text \<open>The steps of the background goroutine; a step yields the batches it has executed.\<close>

definition recv_command :: "nat \<Rightarrow> ('c, 'v) executor \<Rightarrow> ('c, 'v) executor option" where
  "recv_command j pe = (if j < length (backgrounds pe) then
     (case (backgrounds pe ! j, commander pe) of
        (Looping commanded lst, vals # rest) \<Rightarrow> Some (pe\<lparr>commander := rest, inflight := inflight pe - 1,
          waitGroup := waitGroup pe + 1, backgrounds := (backgrounds pe)[j := Confirm vals]\<rparr>)
      | _ \<Rightarrow> None) else None)"

definition confirm :: "nat \<Rightarrow> nat \<Rightarrow> ('c, 'v) executor \<Rightarrow> ('c, 'v) executor option" where
  "confirm i j pe = (if i < length (adders pe) \<and> j < length (backgrounds pe) then
     (case (adders pe ! i, backgrounds pe ! j) of
        (Confirming, Confirm vals) \<Rightarrow> Some (pe\<lparr>adders := remove_nth i (adders pe), backgrounds := (backgrounds pe)[j := Running vals]\<rparr>)
      | _ \<Rightarrow> None) else None)"

definition shallQuit :: "int \<Rightarrow> int \<Rightarrow> ('c, 'v) executor \<Rightarrow> bool \<times> ('c, 'v) executor" where
  "shallQuit now lst pe = (if now - lst \<le> interval pe * idleRound then (False, pe)
     else if inflight pe = 0 then (True, pe\<lparr>guarded := False\<rparr>) else (False, pe))"

definition background_step :: "('c, 't, 'v) container_ops \<Rightarrow> int \<Rightarrow> nat \<Rightarrow> ('c, 'v) executor \<Rightarrow> ('v list list \<times> ('c, 'v) executor) option" where
  "background_step ops now j pe = (if j < length (backgrounds pe) then
     (let set_bg = (\<lambda>b pe. pe\<lparr>backgrounds := (backgrounds pe)[j := b]\<rparr>) in
      case backgrounds pe ! j of
        Looping True lst \<Rightarrow> Some ([], set_bg (Looping False lst) pe)
      | Looping False lst \<Rightarrow> (case takeBatch ops pe of (vals, pe') \<Rightarrow> Some ([], set_bg (TickRun vals lst) pe'))
      | Confirm vals \<Rightarrow> None
      | Running vals \<Rightarrow> (case executeTasks vals pe of (out, pe') \<Rightarrow> Some (out, set_bg (Looping True now) pe'))
      | TickRun vals lst \<Rightarrow> (case executeTasks vals pe of (out, pe') \<Rightarrow>
          Some (out, set_bg (if hasTasks vals then Looping False now else Checking lst) pe'))
      | Checking lst \<Rightarrow> (case shallQuit now lst pe of (stop, pe') \<Rightarrow>
          Some ([], set_bg (if stop then Quitting else Looping False lst) pe'))
      | Quitting \<Rightarrow> (case takeBatch ops pe of (vals, pe') \<Rightarrow> Some ([], set_bg (QuitRun vals) pe'))
      | QuitRun vals \<Rightarrow> (case executeTasks vals pe of (out, pe') \<Rightarrow>
          Some (out, pe'\<lparr>backgrounds := remove_nth j (backgrounds pe')\<rparr>)))
     else None)"

definition flusher_step :: "nat \<Rightarrow> ('c, 'v) executor \<Rightarrow> ('v list list \<times> ('c, 'v) executor) option" where
  "flusher_step i pe = (if i < length (flushers pe) then
     (case executeTasks (flushers pe ! i) pe of (out, pe') \<Rightarrow> Some (out, pe'\<lparr>flushers := remove_nth i (flushers pe')\<rparr>)) else None)"

text \<open>An execution: the tasks added so far, the batches executed so far, and the state.\<close>

inductive pe_run :: "('c, 't, 'v) container_ops \<Rightarrow> ('c, 'v) executor \<Rightarrow> 't list \<Rightarrow> 'v list list \<Rightarrow> ('c, 'v) executor \<Rightarrow> bool"
  for ops pe0 where
  start: "pe_run ops pe0 [] [] pe0"
| add: "pe_run ops pe0 xs out pe \<Longrightarrow> pe_run ops pe0 (xs @ [x]) out (addAndCheck ops now x pe)"
| send: "pe_run ops pe0 xs out pe \<Longrightarrow> Add_send i pe = Some pe' \<Longrightarrow> pe_run ops pe0 xs out pe'"
| recv: "pe_run ops pe0 xs out pe \<Longrightarrow> recv_command j pe = Some pe' \<Longrightarrow> pe_run ops pe0 xs out pe'"
| confirm: "pe_run ops pe0 xs out pe \<Longrightarrow> confirm i j pe = Some pe' \<Longrightarrow> pe_run ops pe0 xs out pe'"
| background: "pe_run ops pe0 xs out pe \<Longrightarrow> background_step ops now j pe = Some (o1, pe') \<Longrightarrow> pe_run ops pe0 xs (out @ o1) pe'"
| flush: "pe_run ops pe0 xs out pe \<Longrightarrow> pe_run ops pe0 xs out (Flush ops pe)"
| flusher: "pe_run ops pe0 xs out pe \<Longrightarrow> flusher_step i pe = Some (o1, pe') \<Longrightarrow> pe_run ops pe0 xs (out @ o1) pe'"

text \<open>The two executors the package offers, with their options.\<close>

definition defaultFlushInterval :: int where
  "defaultFlushInterval = 1000000000"

definition defaultBulkTasks :: int where
  "defaultBulkTasks = 1000"

definition defaultChunkSize :: int where
  "defaultChunkSize = 1024 * 1024"

record bulkOptions =
  cachedTasks :: int
  bulk_flushInterval :: int

definition newBulkOptions :: bulkOptions where
  "newBulkOptions = \<lparr>cachedTasks = defaultBulkTasks, bulk_flushInterval = defaultFlushInterval\<rparr>"

datatype BulkOption = WithBulkTasks int | WithBulkInterval int

fun apply_BulkOption :: "BulkOption \<Rightarrow> bulkOptions \<Rightarrow> bulkOptions" where
  "apply_BulkOption (WithBulkTasks tasks) options = options\<lparr>cachedTasks := tasks\<rparr>"
| "apply_BulkOption (WithBulkInterval duration) options = options\<lparr>bulk_flushInterval := duration\<rparr>"

definition NewBulkExecutor :: "BulkOption list \<Rightarrow> ('v bulkContainer, 'v) executor" where
  "NewBulkExecutor opts = (let options = fold apply_BulkOption opts newBulkOptions in
     NewPeriodicalExecutor (bulk_flushInterval options) \<lparr>bulk_tasks = [], maxTasks = cachedTasks options\<rparr>)"

record chunkOptions =
  chunkSize :: int
  chunk_flushInterval :: int

definition newChunkOptions :: chunkOptions where
  "newChunkOptions = \<lparr>chunkSize = defaultChunkSize, chunk_flushInterval = defaultFlushInterval\<rparr>"

datatype ChunkOption = WithChunkBytes int | WithFlushInterval int

fun apply_ChunkOption :: "ChunkOption \<Rightarrow> chunkOptions \<Rightarrow> chunkOptions" where
  "apply_ChunkOption (WithChunkBytes sz) options = options\<lparr>chunkSize := sz\<rparr>"
| "apply_ChunkOption (WithFlushInterval duration) options = options\<lparr>chunk_flushInterval := duration\<rparr>"

definition NewChunkExecutor :: "ChunkOption list \<Rightarrow> ('v chunkContainer, 'v) executor" where
  "NewChunkExecutor opts = (let options = fold apply_ChunkOption opts newChunkOptions in
     NewPeriodicalExecutor (chunk_flushInterval options) \<lparr>chunk_tasks = [], total_size = 0, maxChunkSize = chunkSize options\<rparr>)"

subsection \<open>Totals over threads and channels\<close>

definition tot :: "('a \<Rightarrow> nat) \<Rightarrow> 'a list \<Rightarrow> nat" where
  "tot f xs = sum_list (map f xs)"

named_theorems tot_simps \<open>totals of constructed lists\<close>

lemma tot_basic [tot_simps]: "tot f [] = 0" "tot f (x # xs) = f x + tot f xs" "tot f (xs @ ys) = tot f xs + tot f ys"
  by (simp_all add: tot_def)

lemma tot_update: "i < length xs \<Longrightarrow> tot f (xs[i := y]) + f (xs ! i) = tot f xs + f y"
proof (induction xs arbitrary: i)
  case (Cons x xs)
  show ?case
  proof (cases i)
    case (Suc n)
    then show ?thesis using Cons.IH [of n] Cons.prems by (simp add: tot_simps)
  qed (simp add: tot_simps)
qed simp

lemma tot_remove: "i < length xs \<Longrightarrow> tot f (remove_nth i xs) + f (xs ! i) = tot f xs"
proof -
  assume "i < length xs"
  then have "xs = take i xs @ xs ! i # drop (Suc i) xs" by (rule id_take_nth_drop)
  then have "tot f xs = tot f (take i xs @ xs ! i # drop (Suc i) xs)" by simp
  then show ?thesis by (simp add: remove_nth_def tot_simps)
qed

lemma tot_ge: "i < length xs \<Longrightarrow> f (xs ! i) \<le> tot f xs"
  using tot_remove [of i xs f] by simp

lemma tot_pos: "0 < tot f xs \<Longrightarrow> \<exists>i < length xs. 0 < f (xs ! i)"
proof (induction xs)
  case (Cons x xs)
  show ?case
  proof (cases "0 < f x")
    case False
    then obtain i where "i < length xs" "0 < f (xs ! i)" using Cons by (auto simp: tot_simps)
    then show ?thesis by (intro exI [of _ "Suc i"]) simp
  qed (auto intro: exI [of _ 0])
qed (simp add: tot_simps)

subsection \<open>The invariant\<close>

fun adder_count :: "'v \<Rightarrow> 'v adder \<Rightarrow> nat" where
  "adder_count v (Sending vals) = count_list vals v"
| "adder_count v Confirming = 0"

fun background_count :: "'v \<Rightarrow> 'v background \<Rightarrow> nat" where
  "background_count v (Confirm vals) = count_list vals v"
| "background_count v (Running vals) = count_list vals v"
| "background_count v (TickRun vals _) = count_list vals v"
| "background_count v (QuitRun vals) = count_list vals v"
| "background_count v _ = 0"

fun sending :: "'v adder \<Rightarrow> nat" where
  "sending (Sending _) = 1"
| "sending Confirming = 0"

fun confirming :: "'v adder \<Rightarrow> nat" where
  "confirming (Sending _) = 0"
| "confirming Confirming = 1"

fun to_confirm :: "'v background \<Rightarrow> nat" where
  "to_confirm (Confirm _) = 1"
| "to_confirm _ = 0"

fun active :: "'v background \<Rightarrow> nat" where
  "active Quitting = 0"
| "active (QuitRun _) = 0"
| "active _ = 1"

fun quitting :: "'v background \<Rightarrow> nat" where
  "quitting Quitting = 1"
| "quitting _ = 0"

fun executing :: "'v background \<Rightarrow> nat" where
  "executing (Looping _ _) = 0"
| "executing (Checking _) = 0"
| "executing Quitting = 0"
| "executing _ = 1"

lemma background_update:
  assumes "j < length bs"
  shows "tot active (bs[j := b]) + active (bs ! j) = tot active bs + active b"
    "tot executing (bs[j := b]) + executing (bs ! j) = tot executing bs + executing b"
    "tot quitting (bs[j := b]) + quitting (bs ! j) = tot quitting bs + quitting b"
    "tot to_confirm (bs[j := b]) + to_confirm (bs ! j) = tot to_confirm bs + to_confirm b"
    "tot (background_count v) (bs[j := b]) + background_count v (bs ! j) = tot (background_count v) bs + background_count v b"
    "active (bs ! j) \<le> tot active bs" "executing (bs ! j) \<le> tot executing bs"
  by (simp_all add: tot_update [OF assms] tot_ge [OF assms])

text \<open>Where the occurrences of a task \<open>v\<close> are.\<close>

definition whereabouts :: "('c \<Rightarrow> 'v list) \<Rightarrow> 'v \<Rightarrow> ('c, 'v) executor \<Rightarrow> nat" where
  "whereabouts items v pe = count_list (items (container pe)) v + tot (adder_count v) (adders pe) +
     tot (\<lambda>b. count_list b v) (commander pe) + tot (background_count v) (backgrounds pe) + tot (\<lambda>b. count_list b v) (flushers pe)"

definition threads_ok :: "('c \<Rightarrow> 'v list) \<Rightarrow> ('c, 'v) executor \<Rightarrow> bool" where
  "threads_ok items pe \<longleftrightarrow>
     inflight pe = int (tot sending (adders pe) + length (commander pe)) \<and>
     tot confirming (adders pe) = length (commander pe) + tot to_confirm (backgrounds pe) \<and>
     tot active (backgrounds pe) = (if guarded pe then 1 else 0) \<and>
     (guarded pe \<or> inflight pe = 0 \<and> (items (container pe) = [] \<or> 0 < tot quitting (backgrounds pe))) \<and>
     waitGroup pe = tot executing (backgrounds pe) + length (flushers pe) \<and> length (commander pe) \<le> 1"

lemma send_ok:
  assumes t: "threads_ok items pe" and s: "Add_send i pe = Some pe'"
  shows "threads_ok items pe' \<and> whereabouts items v pe' = whereabouts items v pe"
proof -
  obtain vals where i: "i < length (adders pe)" "length (commander pe) < 1" "adders pe ! i = Sending vals"
    and pe': "pe' = pe\<lparr>commander := commander pe @ [vals], adders := (adders pe)[i := Confirming]\<rparr>"
    using s by (auto simp: Add_send_def split: if_splits adder.splits)
  note up = tot_update [OF i(1), of _ Confirming]
  show ?thesis using t i up [of sending] up [of confirming] up [of "adder_count v"] unfolding pe'
    by (auto simp: threads_ok_def whereabouts_def tot_simps)
qed

lemma recv_ok:
  assumes t: "threads_ok items pe" and s: "recv_command j pe = Some pe'"
  shows "threads_ok items pe' \<and> whereabouts items v pe' = whereabouts items v pe"
proof -
  obtain cmd l vals rest where j: "j < length (backgrounds pe)" "backgrounds pe ! j = Looping cmd l" "commander pe = vals # rest"
    and pe': "pe' = pe\<lparr>commander := rest, inflight := inflight pe - 1, waitGroup := waitGroup pe + 1,
      backgrounds := (backgrounds pe)[j := Confirm vals]\<rparr>"
    using s by (auto simp: recv_command_def split: if_splits background.splits list.splits)
  note up = background_update(1-4) [OF j(1), of "Confirm vals"] and upc = background_update(5) [OF j(1), where v = v and b = "Confirm vals"]
  show ?thesis using t j up upc background_update(6) [OF j(1)] unfolding pe'
    by (auto simp: threads_ok_def whereabouts_def tot_simps)
qed

lemma confirm_ok:
  assumes t: "threads_ok items pe" and s: "confirm i j pe = Some pe'"
  shows "threads_ok items pe' \<and> whereabouts items v pe' = whereabouts items v pe"
proof -
  obtain vals where i: "i < length (adders pe)" "adders pe ! i = Confirming" and j: "j < length (backgrounds pe)" "backgrounds pe ! j = Confirm vals"
    and pe': "pe' = pe\<lparr>adders := remove_nth i (adders pe), backgrounds := (backgrounds pe)[j := Running vals]\<rparr>"
    using s by (auto simp: confirm_def split: if_splits background.splits adder.splits)
  note up = background_update(1-4) [OF j(1), of "Running vals"] and upc = background_update(5) [OF j(1), where v = v and b = "Running vals"]
    and rm = tot_remove [OF i(1)]
  show ?thesis using t i j up upc rm [of sending] rm [of confirming] rm [of "adder_count v"] unfolding pe'
    by (auto simp: threads_ok_def whereabouts_def)
qed

lemma flusher_ok:
  assumes t: "threads_ok items pe" and s: "flusher_step i pe = Some (o1, pe')"
  shows "threads_ok items pe' \<and> whereabouts items v pe' + tot (\<lambda>b. count_list b v) o1 = whereabouts items v pe"
proof -
  have i: "i < length (flushers pe)" using s by (auto simp: flusher_step_def split: if_splits)
  have "length (remove_nth i (flushers pe)) + 1 = length (flushers pe)" using i by (simp add: remove_nth_def)
  then show ?thesis using t s i tot_remove [OF i, of "\<lambda>b. count_list b v"]
    by (auto simp: flusher_step_def executeTasks_def hasTasks_def threads_ok_def whereabouts_def tot_simps split: if_splits)
qed

text \<open>What the executor relies on in a container.\<close>

locale task_container =
  fixes ops :: "('c, 't, 'v) container_ops"
    and items :: "'c \<Rightarrow> 'v list"
    and val_of :: "'t \<Rightarrow> 'v"
  assumes add_items: "items (snd (AddTask ops c x)) = items c @ [val_of x]"
    and remove_items: "fst (RemoveAll ops c) = items c" "items (snd (RemoveAll ops c)) = []"
begin

lemma takeBatch_eq:
  "takeBatch ops pe = (items (container pe), pe\<lparr>waitGroup := waitGroup pe + 1, container := snd (RemoveAll ops (container pe))\<rparr>)"
  using remove_items(1) [of "container pe"] by (cases "RemoveAll ops (container pe)") (simp add: takeBatch_def)

lemma add_ok:
  assumes "threads_ok items pe"
  shows "threads_ok items (addAndCheck ops now x pe)"
    and "whereabouts items v (addAndCheck ops now x pe) = whereabouts items v pe + count_list [val_of x] v"
proof -
  obtain full c where a: "AddTask ops (container pe) x = (full, c)" by (cases "AddTask ops (container pe) x")
  obtain vals c' where r: "RemoveAll ops c = (vals, c')" by (cases "RemoveAll ops c")
  have i: "items c = items (container pe) @ [val_of x]" "vals = items c" "items c' = []"
    using add_items [of "container pe" x] remove_items [of c] a r by auto
  show "threads_ok items (addAndCheck ops now x pe)"
    using assms a r i by (auto simp: threads_ok_def addAndCheck_def Let_def tot_simps)
  show "whereabouts items v (addAndCheck ops now x pe) = whereabouts items v pe + count_list [val_of x] v"
    using a r i by (auto simp: whereabouts_def addAndCheck_def Let_def tot_simps)
qed

lemma flush_ok:
  assumes "threads_ok items pe"
  shows "threads_ok items (Flush ops pe)" and "whereabouts items v (Flush ops pe) = whereabouts items v pe"
  using assms remove_items(2) [of "container pe"]
  by (auto simp: Flush_def takeBatch_eq threads_ok_def whereabouts_def tot_simps)

lemma background_ok:
  assumes t: "threads_ok items pe" and b: "background_step ops now j pe = Some (o1, pe')"
  shows "threads_ok items pe' \<and> whereabouts items v pe' + tot (\<lambda>b. count_list b v) o1 = whereabouts items v pe"
proof -
  have j: "j < length (backgrounds pe)" using b by (auto simp: background_step_def split: if_splits)
  note up = background_update(1-4) [OF j] and upc = background_update(5) [OF j, where v = v] and ge = background_update(6,7) [OF j]
    and rm = tot_remove [OF j]
  note r = remove_items(2) [of "container pe"]
  show ?thesis
  proof (cases "backgrounds pe ! j")
    case (Looping cmd l)
    show ?thesis
    proof (cases cmd)
      case True
      then have e: "pe' = pe\<lparr>backgrounds := (backgrounds pe)[j := Looping False l]\<rparr>" "o1 = []"
        using b j Looping by (auto simp: background_step_def Let_def)
      show ?thesis using t ge Looping up [of "Looping False l"] upc [of "Looping False l"] unfolding e
        by (simp add: threads_ok_def whereabouts_def tot_simps split: if_splits)
    next
      case False
      then have e: "pe' = pe\<lparr>waitGroup := waitGroup pe + 1, container := snd (RemoveAll ops (container pe)),
          backgrounds := (backgrounds pe)[j := TickRun (items (container pe)) l]\<rparr>" "o1 = []"
        using b j Looping by (auto simp: takeBatch_eq background_step_def Let_def)
      show ?thesis using t ge r Looping up [of "TickRun (items (container pe)) l"] upc [of "TickRun (items (container pe)) l"] unfolding e
        by (simp add: threads_ok_def whereabouts_def tot_simps split: if_splits)
    qed
  next
    case (Confirm vals)
    then show ?thesis using b j by (simp add: background_step_def)
  next
    case (Running vals)
    then have e: "pe' = pe\<lparr>waitGroup := waitGroup pe - 1, backgrounds := (backgrounds pe)[j := Looping True now]\<rparr>" "o1 = (if vals = [] then [] else [vals])"
      using b j by (auto simp: executeTasks_def hasTasks_def background_step_def Let_def)
    show ?thesis using t ge Running up [of "Looping True now"] upc [of "Looping True now"] unfolding e
      by (auto simp: threads_ok_def whereabouts_def tot_simps split: if_splits)
  next
    case (TickRun vals l)
    let ?b = "if vals = [] then Checking l else Looping False now"
    have e: "pe' = pe\<lparr>waitGroup := waitGroup pe - 1, backgrounds := (backgrounds pe)[j := ?b]\<rparr>" "o1 = (if vals = [] then [] else [vals])"
      using b j TickRun by (auto simp: executeTasks_def hasTasks_def background_step_def Let_def)
    have "active ?b = 1" "executing ?b = 0" "quitting ?b = 0" "to_confirm ?b = 0" "background_count v ?b = 0" by auto
    then show ?thesis using t ge TickRun up [of ?b] upc [of ?b] unfolding e
      by (auto simp: threads_ok_def whereabouts_def tot_simps split: if_splits)
  next
    case (Checking l)
    show ?thesis
    proof (cases "interval pe * idleRound < now - l \<and> inflight pe = 0")
      case True
      then have e: "pe' = pe\<lparr>guarded := False, backgrounds := (backgrounds pe)[j := Quitting]\<rparr>" "o1 = []"
        using b j Checking by (auto simp: shallQuit_def background_step_def Let_def)
      show ?thesis using t ge Checking True up [of Quitting] upc [of Quitting] unfolding e
        by (simp add: threads_ok_def whereabouts_def tot_simps split: if_splits)
    next
      case False
      then have e: "pe' = pe\<lparr>backgrounds := (backgrounds pe)[j := Looping False l]\<rparr>" "o1 = []"
        using b j Checking by (auto simp: shallQuit_def background_step_def Let_def split: if_splits)
      show ?thesis using t ge Checking up [of "Looping False l"] upc [of "Looping False l"] unfolding e
        by (simp add: threads_ok_def whereabouts_def tot_simps split: if_splits)
    qed
  next
    case Quitting
    then have e: "pe' = pe\<lparr>waitGroup := waitGroup pe + 1, container := snd (RemoveAll ops (container pe)),
        backgrounds := (backgrounds pe)[j := QuitRun (items (container pe))]\<rparr>" "o1 = []"
      using b j by (auto simp: takeBatch_eq background_step_def Let_def)
    show ?thesis using t ge r Quitting up [of "QuitRun (items (container pe))"] upc [of "QuitRun (items (container pe))"] unfolding e
      by (auto simp: threads_ok_def whereabouts_def tot_simps split: if_splits)
  next
    case (QuitRun vals)
    then have e: "pe' = pe\<lparr>waitGroup := waitGroup pe - 1, backgrounds := remove_nth j (backgrounds pe)\<rparr>" "o1 = (if vals = [] then [] else [vals])"
      using b j by (auto simp: executeTasks_def hasTasks_def background_step_def Let_def)
    show ?thesis using t ge QuitRun rm [of active] rm [of executing] rm [of quitting] rm [of to_confirm] rm [of "background_count v"] unfolding e
      by (auto simp: threads_ok_def whereabouts_def tot_simps split: if_splits)
  qed
qed

text \<open>In every execution all tasks added are accounted for.\<close>

lemma run_ok:
  assumes "pe_run ops (NewPeriodicalExecutor n c) xs out pe" "items c = []"
  shows "threads_ok items pe \<and> whereabouts items v pe + tot (\<lambda>b. count_list b v) out = count_list (map val_of xs) v"
  using assms
proof (induction rule: pe_run.induct)
  case start
  then show ?case by (simp add: NewPeriodicalExecutor_def threads_ok_def whereabouts_def tot_simps)
next
  case (add xs out pe x now)
  then show ?case using add_ok(1) [where pe = pe and now = now and x = x] add_ok(2) [where pe = pe and now = now and x = x and v = v] by simp
next
  case (send xs out pe i pe')
  then show ?case using send_ok [where items = items and v = v, OF _ send.hyps(2)] by simp
next
  case (recv xs out pe j pe')
  then show ?case using recv_ok [where items = items and v = v, OF _ recv.hyps(2)] by simp
next
  case (confirm xs out pe i j pe')
  then show ?case using confirm_ok [where items = items and v = v, OF _ confirm.hyps(2)] by simp
next
  case (background xs out pe now j o1 pe')
  then show ?case using background_ok [where v = v, OF _ background.hyps(2)] by (simp add: tot_simps)
next
  case (flush xs out pe)
  then show ?case using flush_ok(1) [where pe = pe] flush_ok(2) [where pe = pe and v = v] by simp
next
  case (flusher xs out pe i o1 pe')
  then show ?case using flusher_ok [where items = items and v = v, OF _ flusher.hyps(2)] by (simp add: tot_simps)
qed

lemma count_concat: "tot (\<lambda>b. count_list b v) out = count (mset (concat out)) v"
  by (induction out) (simp_all add: tot_simps count_mset)

lemma exactly_once:
  assumes "pe_run ops (NewPeriodicalExecutor n c) xs out pe" "items c = []"
  shows "mset (concat out) \<subseteq># mset (map val_of xs)"
    and "adders pe = [] \<Longrightarrow> backgrounds pe = [] \<Longrightarrow> flushers pe = [] \<Longrightarrow> mset (concat out) = mset (map val_of xs)"
proof -
  have c: "whereabouts items v pe + count (mset (concat out)) v = count (mset (map val_of xs)) v" for v
    using run_ok [OF assms, of v] by (simp add: count_concat count_mset del: mset_map mset_concat)
  then show "mset (concat out) \<subseteq># mset (map val_of xs)" by (metis le_add2 mset_subset_eqI)
  assume q: "adders pe = []" "backgrounds pe = []" "flushers pe = []"
  have "threads_ok items pe" using run_ok [OF assms] by blast
  with q have "commander pe = []" "items (container pe) = []" by (auto simp: threads_ok_def tot_simps split: if_splits)
  with q have "whereabouts items v pe = 0" for v by (simp add: whereabouts_def tot_simps)
  with c show "mset (concat out) = mset (map val_of xs)" by (simp add: multiset_eq_iff)
qed

lemma never_stuck:
  assumes "pe_run ops (NewPeriodicalExecutor n c) xs out pe" "items c = []"
  shows "adders pe \<noteq> [] \<or> commander pe \<noteq> [] \<or> items (container pe) \<noteq> [] \<Longrightarrow> backgrounds pe \<noteq> []"
    and "commander pe \<noteq> [] \<Longrightarrow> guarded pe"
    and "j < length (backgrounds pe) \<Longrightarrow> background_step ops now j pe \<noteq> None \<or> (\<exists>i. confirm i j pe \<noteq> None)"
proof -
  have t: "threads_ok items pe" using run_ok [OF assms] by blast
  have g: "guarded pe \<Longrightarrow> backgrounds pe \<noteq> []" using t by (auto simp: threads_ok_def tot_simps)
  show "commander pe \<noteq> [] \<Longrightarrow> guarded pe" using t by (cases "commander pe") (auto simp: threads_ok_def)
  show "adders pe \<noteq> [] \<or> commander pe \<noteq> [] \<or> items (container pe) \<noteq> [] \<Longrightarrow> backgrounds pe \<noteq> []"
  proof -
    assume p: "adders pe \<noteq> [] \<or> commander pe \<noteq> [] \<or> items (container pe) \<noteq> []"
    show ?thesis
    proof
      assume b: "backgrounds pe = []"
      then have "\<not> guarded pe" using g by blast
      with t b have h: "int (tot sending (adders pe) + length (commander pe)) = 0" "tot confirming (adders pe) = length (commander pe)"
        and i: "items (container pe) = []"
        by (auto simp: threads_ok_def tot_simps)
      then have l: "length (commander pe) = 0" and z: "items (container pe) = []" "tot sending (adders pe) = 0" "tot confirming (adders pe) = 0"
        by linarith+
      moreover have "adders pe = []"
      proof (rule ccontr)
        assume "adders pe \<noteq> []"
        then have "0 < length (adders pe)" by simp
        from tot_ge [OF this, of sending] tot_ge [OF this, of confirming] z(2,3) show False by (cases "adders pe ! 0") auto
      qed
      ultimately show False using p l by simp
    qed
  qed
  assume j: "j < length (backgrounds pe)"
  show "background_step ops now j pe \<noteq> None \<or> (\<exists>i. confirm i j pe \<noteq> None)"
  proof (cases "\<exists>vals. backgrounds pe ! j = Confirm vals")
    case True
    then obtain vals where b: "backgrounds pe ! j = Confirm vals" by blast
    then have "0 < tot confirming (adders pe)" using t tot_ge [OF j, of to_confirm] by (auto simp: threads_ok_def)
    then obtain i where "i < length (adders pe)" "0 < confirming (adders pe ! i)" using tot_pos by blast
    then have "confirm i j pe \<noteq> None" using j b by (cases "adders pe ! i") (auto simp: confirm_def)
    then show ?thesis by blast
  next
    case False
    then show ?thesis using j
      by (auto simp: background_step_def Let_def split: background.splits bool.splits prod.splits)
  qed
qed

end

subsection \<open>The bulk and the chunk executor\<close>

interpretation bulk: task_container bulk_ops bulk_tasks "\<lambda>x. x"
  by unfold_locales (auto simp: bulk_ops_def bulk_AddTask_def bulk_RemoveAll_def Let_def)

interpretation chunk: task_container chunk_ops chunk_tasks chunk_val
  by unfold_locales (auto simp: chunk_ops_def chunk_AddTask_def chunk_RemoveAll_def Let_def)

text \<open>C4: In every interleaving of callers, flushes and background goroutines the bulk executor executes each added task at most
  once and nothing else, and when all threads are done every added task has been executed exactly once.\<close>

theorem bulk_executes_exactly_once:
  assumes "pe_run bulk_ops (NewBulkExecutor opts) xs out pe"
  shows "mset (concat out) \<subseteq># mset xs \<and>
    (adders pe = [] \<and> backgrounds pe = [] \<and> flushers pe = [] \<longrightarrow> mset (concat out) = mset xs)"
  using bulk.exactly_once [OF assms [unfolded NewBulkExecutor_def Let_def]] by simp

text \<open>An execution that ends: one task is added, flushed by a caller, and the background goroutine stops when it has been idle.\<close>

lemma example_run:
  "pe_run bulk_ops (NewBulkExecutor [WithBulkTasks 5, WithBulkInterval 1]) [7] [[7 :: int]]
     \<lparr>container = \<lparr>bulk_tasks = [], maxTasks = 5\<rparr>, commander = [], interval = 1, waitGroup = 0, inflight = 0, guarded = False,
      adders = [], backgrounds = [], flushers = []\<rparr>"
proof -
  let ?s = "\<lambda>c w g bs fs. \<lparr>container = \<lparr>bulk_tasks = c, maxTasks = 5\<rparr>, commander = [], interval = 1, waitGroup = w, inflight = 0,
    guarded = g, adders = [], backgrounds = bs, flushers = fs\<rparr> :: (int bulkContainer, int) executor"
  let ?run = "pe_run bulk_ops (?s [] 0 False [] []) [7]"
  note defs = bulk_ops_def bulk_AddTask_def bulk_RemoveAll_def takeBatch_def executeTasks_def hasTasks_def Let_def remove_nth_def
  have "addAndCheck bulk_ops 0 7 (?s [] 0 False [] []) = ?s [7] 0 True [Looping False 0] []" by (simp add: addAndCheck_def defs)
  then have "?run [] (?s [7] 0 True [Looping False 0] [])" using pe_run.add [OF pe_run.start, of bulk_ops "?s [] 0 False [] []" 7 0] by simp
  moreover have "Flush bulk_ops (?s [7] 0 True [Looping False 0] []) = ?s [] 1 True [Looping False 0] [[7]]" by (simp add: Flush_def defs)
  ultimately have "?run [] (?s [] 1 True [Looping False 0] [[7]])" using pe_run.flush by metis
  moreover have "flusher_step 0 (?s [] 1 True [Looping False 0] [[7]]) = Some ([[7]], ?s [] 0 True [Looping False 0] [])"
    by (simp add: flusher_step_def defs)
  ultimately have r: "?run [[7]] (?s [] 0 True [Looping False 0] [])" using pe_run.flusher by fastforce
  have "background_step bulk_ops 0 0 (?s [] 0 True [Looping False 0] []) = Some ([], ?s [] 1 True [TickRun [] 0] [])"
    by (simp add: background_step_def defs)
  from pe_run.background [OF r this] have r: "?run [[7]] (?s [] 1 True [TickRun [] 0] [])" by simp
  have "background_step bulk_ops 0 0 (?s [] 1 True [TickRun [] 0] []) = Some ([], ?s [] 0 True [Checking 0] [])"
    by (simp add: background_step_def defs)
  from pe_run.background [OF r this] have r: "?run [[7]] (?s [] 0 True [Checking 0] [])" by simp
  have "background_step bulk_ops 11 0 (?s [] 0 True [Checking 0] []) = Some ([], ?s [] 0 False [Quitting] [])"
    by (simp add: background_step_def shallQuit_def idleRound_def defs)
  from pe_run.background [OF r this] have r: "?run [[7]] (?s [] 0 False [Quitting] [])" by simp
  have "background_step bulk_ops 11 0 (?s [] 0 False [Quitting] []) = Some ([], ?s [] 1 False [QuitRun []] [])"
    by (simp add: background_step_def defs)
  from pe_run.background [OF r this] have r: "?run [[7]] (?s [] 1 False [QuitRun []] [])" by simp
  have "background_step bulk_ops 11 0 (?s [] 1 False [QuitRun []] []) = Some ([], ?s [] 0 False [] [])"
    by (simp add: background_step_def defs)
  from pe_run.background [OF r this] show ?thesis by (simp add: NewBulkExecutor_def newBulkOptions_def NewPeriodicalExecutor_def)
qed

theorem bulk_executes_exactly_once_witness:
  "mset (concat [[7 :: int]]) \<subseteq># mset [7] \<and> mset (concat [[7 :: int]]) = mset [7]"
  using bulk_executes_exactly_once [OF example_run] by simp

text \<open>C32: The chunk executor never gets stuck: whenever a caller is inside \<open>Add\<close>, a batch is in the channel or tasks wait in the
  container, a background goroutine exists, it is the running one if a batch waits for it, and every background goroutine can
  take a step, the confirmation of a batch always finding a caller that waits for it.\<close>

theorem chunk_executor_never_stuck:
  assumes "pe_run chunk_ops (NewChunkExecutor opts) xs out pe"
  shows "(adders pe \<noteq> [] \<or> commander pe \<noteq> [] \<or> chunk_tasks (container pe) \<noteq> [] \<longrightarrow> backgrounds pe \<noteq> []) \<and>
    (commander pe \<noteq> [] \<longrightarrow> guarded pe) \<and>
    (j < length (backgrounds pe) \<longrightarrow> background_step chunk_ops now j pe \<noteq> None \<or> (\<exists>i. confirm i j pe \<noteq> None))"
  using chunk.never_stuck(1,2) [OF assms [unfolded NewChunkExecutor_def Let_def]]
    chunk.never_stuck(3) [OF assms [unfolded NewChunkExecutor_def Let_def], where j = j and now = now] by simp

theorem chunk_executor_never_stuck_witness:
  "backgrounds (addAndCheck chunk_ops 0 \<lparr>chunk_val = 1 :: int, chunk_size = 10\<rparr> (NewChunkExecutor [WithChunkBytes 5])) \<noteq> []"
proof -
  let ?x = "\<lparr>chunk_val = 1 :: int, chunk_size = 10\<rparr>"
  have r: "pe_run chunk_ops (NewChunkExecutor [WithChunkBytes 5]) ([] @ [?x]) [] (addAndCheck chunk_ops 0 ?x (NewChunkExecutor [WithChunkBytes 5]))"
    by (rule pe_run.add [OF pe_run.start])
  have "adders (addAndCheck chunk_ops 0 ?x (NewChunkExecutor [WithChunkBytes 5])) \<noteq> []"
    by (simp add: addAndCheck_def NewPeriodicalExecutor_def NewChunkExecutor_def newChunkOptions_def chunk_ops_def chunk_AddTask_def chunk_RemoveAll_def Let_def)
  then show ?thesis using chunk_executor_never_stuck [OF r, of 0 0] by blast
qed

subsection \<open>Limiting and delaying executions\<close>

text \<open>\<open>LessExecutor\<close> runs a task only when the last one is long enough ago; \<open>DelayExecutor\<close> runs its function after a delay and
  merges triggers that come before. \<open>pending\<close> counts the goroutines that wait for their timer.\<close>

record LessExecutor =
  threshold :: int
  lastTime :: int

definition NewLessExecutor :: "int \<Rightarrow> LessExecutor" where
  "NewLessExecutor t = \<lparr>threshold = t, lastTime = 0\<rparr>"

definition DoOrDiscard :: "int \<Rightarrow> LessExecutor \<Rightarrow> bool \<times> LessExecutor" where
  "DoOrDiscard now le = (if lastTime le = 0 \<or> lastTime le + threshold le < now then (True, le\<lparr>lastTime := now\<rparr>) else (False, le))"

record DelayExecutor =
  triggered :: bool
  pending :: nat
  fn_calls :: nat

definition NewDelayExecutor :: DelayExecutor where
  "NewDelayExecutor = \<lparr>triggered = False, pending = 0, fn_calls = 0\<rparr>"

definition Trigger :: "DelayExecutor \<Rightarrow> DelayExecutor" where
  "Trigger de = (if triggered de then de else de\<lparr>triggered := True, pending := pending de + 1\<rparr>)"

definition delay_timer :: "DelayExecutor \<Rightarrow> DelayExecutor" where
  "delay_timer de = (if 0 < pending de then de\<lparr>triggered := False, pending := pending de - 1, fn_calls := fn_calls de + 1\<rparr> else de)"

text \<open>The times at which a run of \<open>DoOrDiscard\<close> executes.\<close>

fun executed_at :: "LessExecutor \<Rightarrow> int list \<Rightarrow> int list" where
  "executed_at le [] = []"
| "executed_at le (now # ts) = (case DoOrDiscard now le of (ok, le') \<Rightarrow> (if ok then [now] else []) @ executed_at le' ts)"

lemma less_executor_after:
  "0 < lastTime le \<Longrightarrow> sorted ts \<Longrightarrow> 0 \<le> threshold le \<Longrightarrow>
   sorted_wrt (\<lambda>s t. s + threshold le < t) (lastTime le # executed_at le ts)"
proof (induction ts arbitrary: le)
  case (Cons t ts)
  show ?case
  proof (cases "lastTime le + threshold le < t")
    case True
    let ?le = "le\<lparr>lastTime := t\<rparr>"
    have "sorted_wrt (\<lambda>s t. s + threshold ?le < t) (lastTime ?le # executed_at ?le ts)"
      using Cons True by (intro Cons.IH) auto
    then show ?thesis using True Cons.prems by (auto simp: DoOrDiscard_def)
  next
    case False
    then show ?thesis using Cons by (auto simp: DoOrDiscard_def)
  qed
qed simp

text \<open>A trigger is never lost: as long as \<open>triggered\<close> holds exactly one goroutine waits, so the function will run after it.\<close>

lemma delay_executor_pending: "triggered de = (pending de = 1) \<and> pending de \<le> 1 \<Longrightarrow>
  (triggered (Trigger de) = (pending (Trigger de) = 1) \<and> pending (Trigger de) \<le> 1 \<and> triggered (Trigger de)) \<and>
  (triggered (delay_timer de) = (pending (delay_timer de) = 1) \<and> pending (delay_timer de) \<le> 1)"
  by (auto simp: Trigger_def delay_timer_def)

end
