(* ===== verification/Aes_Ecb.thy ===== *)
theory Aes_Ecb
  imports Go_Prelude "HOL-Library.Word"
begin

text \<open>
  AES in ECB mode (\<open>src/infra/codec/aesecb.go\<close>), with the standard library's base64 encoding, which two of its functions
  use. The block permutation of AES under a key is a parameter; key sizes, padding, the block loop, its panics and the
  errors are those of the code. The theory shows that decryption succeeds on exactly the ciphertexts encryption
  produces and then returns the plaintext, directly and through base64.
\<close>

unbundle bit_operations_syntax

subsection \<open>Bytes and base64\<close>

type_synonym byte = "8 word"

abbreviation bytes_of :: "string \<Rightarrow> byte list" where
  "bytes_of s \<equiv> map of_char s"

text \<open>\<open>base64.StdEncoding\<close>: the alphabet, the encoder (three bytes to four characters, padded with \<open>=\<close>) and the decoder,
  which skips line breaks, wants the padding and does not check the unused bits of the last character.\<close>

definition encodeStd :: string where
  "encodeStd = ''ABCDEFGHIJKLMNOPQRSTUVWXYZabcdefghijklmnopqrstuvwxyz0123456789+/''"

definition sextet :: "char \<Rightarrow> nat option" where
  "sextet c = IndexByte encodeStd c"

definition b64_char :: "nat \<Rightarrow> char" where
  "b64_char v = encodeStd ! (v mod 64)"

fun EncodeToString :: "byte list \<Rightarrow> string" where
  "EncodeToString [] = []"
| "EncodeToString [a] = (let v = unat a * 65536 in [b64_char (v div 262144), b64_char (v div 4096), CHR ''='', CHR ''=''])"
| "EncodeToString [a, b] = (let v = unat a * 65536 + unat b * 256 in
     [b64_char (v div 262144), b64_char (v div 4096), b64_char (v div 64), CHR ''=''])"
| "EncodeToString (a # b # c # src) = (let v = unat a * 65536 + unat b * 256 + unat c in
     [b64_char (v div 262144), b64_char (v div 4096), b64_char (v div 64), b64_char v] @ EncodeToString src)"

definition is_newline :: "char \<Rightarrow> bool" where
  "is_newline c \<longleftrightarrow> c = CHR 0x0A \<or> c = CHR 0x0D"

text \<open>The bytes of a quantum of two to four characters.\<close>

definition quantum :: "nat list \<Rightarrow> byte list" where
  "quantum dbuf = (let v = (case dbuf of
        [a, b] \<Rightarrow> a * 262144 + b * 4096
      | [a, b, c] \<Rightarrow> a * 262144 + b * 4096 + c * 64
      | [a, b, c, d] \<Rightarrow> a * 262144 + b * 4096 + c * 64 + d
      | _ \<Rightarrow> 0) in take (length dbuf - 1) [of_nat (v div 65536), of_nat (v div 256), of_nat v])"

fun decode_quantum :: "nat list \<Rightarrow> string \<Rightarrow> byte list option" where
  "decode_quantum dbuf [] = (if dbuf = [] then Some [] else None)"
| "decode_quantum dbuf (c # cs) = (case sextet c of
     Some v \<Rightarrow> if length dbuf = 3 then map_option (\<lambda>bs. quantum (dbuf @ [v]) @ bs) (decode_quantum [] cs)
       else decode_quantum (dbuf @ [v]) cs
   | None \<Rightarrow>
       if is_newline c then decode_quantum dbuf cs
       else if c \<noteq> CHR ''='' then None
       else if length dbuf < 2 then None
       else if length dbuf = 2 then (case dropWhile is_newline cs of
           [] \<Rightarrow> None
         | c' # cs' \<Rightarrow> if c' = CHR ''='' \<and> dropWhile is_newline cs' = [] then Some (quantum dbuf) else None)
       else if dropWhile is_newline cs = [] then Some (quantum dbuf) else None)"

subsection \<open>The cipher mode\<close>

datatype codec_error = ErrPaddingSize | KeySizeError nat | CorruptInputError

text \<open>\<open>cipher.Block\<close>: \<open>Encrypt\<close> and \<open>Decrypt\<close> map the first block of the source to the first block of the destination.\<close>

record cipher_Block =
  BlockSize :: nat
  Encrypt :: "byte list \<Rightarrow> byte list"
  Decrypt :: "byte list \<Rightarrow> byte list"

record ecb =
  ecb_b :: cipher_Block
  ecb_blockSize :: nat

definition newECB :: "cipher_Block \<Rightarrow> ecb" where
  "newECB b = \<lparr>ecb_b = b, ecb_blockSize = BlockSize b\<rparr>"

function crypt_loop :: "nat \<Rightarrow> (byte list \<Rightarrow> byte list) \<Rightarrow> byte list \<Rightarrow> byte list \<Rightarrow> byte list" where
  "crypt_loop n f dst src = (if src = [] \<or> n = 0 then dst
     else f (take n src) @ crypt_loop n f (drop n dst) (drop n src))"
  by auto
termination
  by (relation "measure (\<lambda>(n, f, dst, src). length src)") auto

declare crypt_loop.simps [simp del]

definition CryptBlocks :: "(cipher_Block \<Rightarrow> byte list \<Rightarrow> byte list) \<Rightarrow> ecb \<Rightarrow> byte list \<Rightarrow> byte list \<Rightarrow> panic + byte list" where
  "CryptBlocks dir x dst src =
     (if ecb_blockSize x = 0 then Inl DivideByZero
      else if length src mod ecb_blockSize x \<noteq> 0 then Inl (ExplicitPanic ''crypto/cipher: input not full blocks'')
      else if length dst < length src then Inl (ExplicitPanic ''crypto/cipher: output smaller than input'')
      else Inr (crypt_loop (ecb_blockSize x) (dir (ecb_b x)) dst src))"

definition ecbEncrypter_CryptBlocks :: "ecb \<Rightarrow> byte list \<Rightarrow> byte list \<Rightarrow> panic + byte list" where
  "ecbEncrypter_CryptBlocks = CryptBlocks Encrypt"

definition ecbDecrypter_CryptBlocks :: "ecb \<Rightarrow> byte list \<Rightarrow> byte list \<Rightarrow> panic + byte list" where
  "ecbDecrypter_CryptBlocks = CryptBlocks Decrypt"

definition pkcs5Padding :: "byte list \<Rightarrow> nat \<Rightarrow> byte list" where
  "pkcs5Padding ciphertext blockSize =
     (let padding = int blockSize - int (length ciphertext mod blockSize) in
      if padding < 0 \<or> padding > 255 then []
      else ciphertext @ replicate (nat padding) (of_int padding))"

definition pkcs5Unpadding :: "byte list \<Rightarrow> nat \<Rightarrow> codec_error + byte list" where
  "pkcs5Unpadding src blockSize =
     (if src = [] then Inl ErrPaddingSize
      else let unpadding = unat (src ! (length src - 1)) in
        if unpadding < 1 \<or> unpadding > blockSize \<or> unpadding > length src then Inl ErrPaddingSize
        else if list_ex (\<lambda>b. unat b \<noteq> unpadding) (drop (length src - unpadding) src) then Inl ErrPaddingSize
        else Inr (take (length src - unpadding) src))"

text \<open>\<open>aes.NewCipher\<close> accepts keys of 16, 24 and 32 bytes and has blocks of 16 bytes; the permutation and its inverse under
  a key are the parameter \<open>aes\<close>.\<close>

type_synonym aes = "(byte list \<Rightarrow> byte list \<Rightarrow> byte list) \<times> (byte list \<Rightarrow> byte list \<Rightarrow> byte list)"

definition NewCipher :: "aes \<Rightarrow> byte list \<Rightarrow> codec_error + cipher_Block" where
  "NewCipher aes key =
     (if length key \<in> {16, 24, 32}
      then Inr \<lparr>BlockSize = 16, Encrypt = fst aes key, Decrypt = snd aes key\<rparr>
      else Inl (KeySizeError (length key)))"

text \<open>An operation panics (the outer \<open>Inl\<close>) or returns an error or its result.\<close>

definition EcbEncrypt :: "aes \<Rightarrow> byte list \<Rightarrow> byte list \<Rightarrow> panic + (codec_error + byte list)" where
  "EcbEncrypt aes key src =
     (case NewCipher aes key of
        Inl err \<Rightarrow> Inr (Inl err)
      | Inr block \<Rightarrow>
          let padded = pkcs5Padding src (BlockSize block);
              crypted = replicate (length padded) 0
          in (case ecbEncrypter_CryptBlocks (newECB block) crypted padded of
                Inl p \<Rightarrow> Inl p
              | Inr crypted \<Rightarrow> Inr (Inr crypted)))"

definition EcbDecrypt :: "aes \<Rightarrow> byte list \<Rightarrow> byte list \<Rightarrow> panic + (codec_error + byte list)" where
  "EcbDecrypt aes key src =
     (case NewCipher aes key of
        Inl err \<Rightarrow> Inr (Inl err)
      | Inr block \<Rightarrow>
          if length src mod BlockSize block \<noteq> 0 then Inr (Inl ErrPaddingSize)
          else let decrypter = newECB block;
                   decrypted = replicate (length src) 0
            in (case ecbDecrypter_CryptBlocks decrypter decrypted src of
                  Inl p \<Rightarrow> Inl p
                | Inr decrypted \<Rightarrow> Inr (pkcs5Unpadding decrypted (ecb_blockSize decrypter))))"

definition DecodeString :: "string \<Rightarrow> codec_error + byte list" where
  "DecodeString s = (case decode_quantum [] s of None \<Rightarrow> Inl CorruptInputError | Some bs \<Rightarrow> Inr bs)"

definition getKeyBytes :: "string \<Rightarrow> codec_error + byte list" where
  "getKeyBytes key = (if length key \<le> 32 then Inr (bytes_of key) else DecodeString key)"

definition EcbDecryptBase64 :: "aes \<Rightarrow> string \<Rightarrow> string \<Rightarrow> panic + (codec_error + string)" where
  "EcbDecryptBase64 aes key src =
     (case getKeyBytes key of
        Inl err \<Rightarrow> Inr (Inl err)
      | Inr keyBytes \<Rightarrow> (case DecodeString src of
          Inl err \<Rightarrow> Inr (Inl err)
        | Inr encryptedBytes \<Rightarrow> (case EcbDecrypt aes keyBytes encryptedBytes of
            Inl p \<Rightarrow> Inl p
          | Inr (Inl err) \<Rightarrow> Inr (Inl err)
          | Inr (Inr decryptedBytes) \<Rightarrow> Inr (Inr (EncodeToString decryptedBytes)))))"

definition EcbEncryptBase64 :: "aes \<Rightarrow> string \<Rightarrow> string \<Rightarrow> panic + (codec_error + string)" where
  "EcbEncryptBase64 aes key src =
     (case getKeyBytes key of
        Inl err \<Rightarrow> Inr (Inl err)
      | Inr keyBytes \<Rightarrow> (case DecodeString src of
          Inl err \<Rightarrow> Inr (Inl err)
        | Inr srcBytes \<Rightarrow> (case EcbEncrypt aes keyBytes srcBytes of
            Inl p \<Rightarrow> Inl p
          | Inr (Inl err) \<Rightarrow> Inr (Inl err)
          | Inr (Inr encryptedBytes) \<Rightarrow> Inr (Inr (EncodeToString encryptedBytes)))))"

subsection \<open>The block loop is a permutation\<close>

lemma crypt_loop_length:
  assumes "\<And>b. length b = n \<Longrightarrow> length (f b) = n" and "n dvd length src" and "length dst = length src"
  shows "length (crypt_loop n f dst src) = length src"
  using assms
proof (induction n f dst src rule: crypt_loop.induct)
  case (1 n f dst src)
  show ?case
  proof (cases "src = [] \<or> n = 0")
    case True
    then show ?thesis using 1 by (auto simp: crypt_loop.simps [of n f dst src])
  next
    case False
    then have le: "n \<le> length src" using 1(3) by (auto intro: dvd_imp_le)
    have "length (crypt_loop n f (drop n dst) (drop n src)) = length (drop n src)"
      using 1(1) [OF False 1(2)] 1(3,4) le by simp
    then show ?thesis using False le 1(2) by (simp add: crypt_loop.simps [of n f dst src])
  qed
qed

lemma crypt_loop_inverse:
  assumes "\<And>b. length b = n \<Longrightarrow> length (f b) = n \<and> g (f b) = b" and "n dvd length src" and "0 < n"
  shows "crypt_loop n g dst' (crypt_loop n f dst src) = (if src = [] then crypt_loop n g dst' dst else src @ crypt_loop n g (drop (length src) dst') (drop (length src) dst))"
  using assms
proof (induction n f dst src arbitrary: dst' rule: crypt_loop.induct)
  case (1 n f dst src)
  show ?case
  proof (cases "src = []")
    case True
    then show ?thesis by (simp add: crypt_loop.simps [of n f dst "[]"])
  next
    case False
    then have ne: "\<not> (src = [] \<or> n = 0)" and le: "n \<le> length src" using 1(3,4) by (auto intro: dvd_imp_le)
    then have l: "length (take n src) = n" by simp
    have f: "length (f (take n src)) = n" "g (f (take n src)) = take n src" using 1(2) [OF l] by simp_all
    have "f (take n src) \<noteq> []" using f(1) 1(4) by auto
    then have "crypt_loop n g dst' (crypt_loop n f dst src) =
      take n src @ crypt_loop n g (drop n dst') (crypt_loop n f (drop n dst) (drop n src))"
      using ne f by (simp add: crypt_loop.simps [of n f dst src] crypt_loop.simps [of n g dst' "f (take n src) @ _"])
    then show ?thesis using 1(1) [OF ne 1(2), of "drop n dst'"] 1(3,4) le False
      by (cases "length src = n") (simp_all flip: append_assoc)
  qed
qed

subsection \<open>Padding\<close>

lemma padding_eq:
  "0 < n \<Longrightarrow> n \<le> 255 \<Longrightarrow> pkcs5Padding m n = m @ replicate (n - length m mod n) (of_nat (n - length m mod n))"
proof -
  assume n: "0 < n" "n \<le> 255"
  then have lt: "length m mod n < n" by simp
  then have eq: "int n - int (length m mod n) = int (n - length m mod n)" by simp
  show ?thesis using n lt unfolding pkcs5Padding_def Let_def eq by auto
qed

lemma pad_size:
  fixes n l u :: nat
  assumes "n dvd l" "1 \<le> u" "u \<le> n" "u \<le> l"
  shows "n - (l - u) mod n = u"
proof -
  from assms obtain k where k: "l = n * Suc k" by (metis dvdE less_le_trans mult_0_right neq0_conv not0_implies_Suc not_one_le_zero le_zero_eq)
  then have "l - u = n * k + (n - u)" using assms(2,3) by simp
  moreover have "(n * k + (n - u)) mod n = (n - u) mod n" by (rule mod_mult_self4)
  ultimately show ?thesis using assms(2,3) by (cases "u = n") simp_all
qed

lemma unat_pad: "u \<le> 255 \<Longrightarrow> unat (of_nat u :: byte) = u"
  by (simp add: unat_of_nat take_bit_eq_mod)

lemma unpadding_replicate:
  assumes "1 \<le> u" "u \<le> 255" "u \<le> n"
  shows "pkcs5Unpadding (m @ replicate u (of_nat u)) n = Inr m"
proof -
  have eq: "m @ replicate u (of_nat u) = (m @ replicate (u - 1) (of_nat u)) @ [of_nat u :: byte]"
    using assms(1) replicate_append_same [of "u - 1" "of_nat u :: byte"] replicate_Suc [of "u - 1" "of_nat u :: byte"] by (simp del: replicate_Suc)
  have l: "(m @ replicate u (of_nat u)) ! (length (m @ replicate u (of_nat u)) - 1) = (of_nat u :: byte)"
    unfolding eq using nth_append_length [of "m @ replicate (u - 1) (of_nat u)" "of_nat u :: byte" "[]"] by simp
  show ?thesis unfolding pkcs5Unpadding_def Let_def l
    using assms by (simp add: unat_pad list_ex_iff)
qed

lemma unpadding_SomeD:
  assumes "pkcs5Unpadding src n = Inr m"
  obtains u where "1 \<le> u" "u \<le> n" "u \<le> length src" "length m = length src - u" "src = m @ replicate u (of_nat u)"
proof -
  let ?u = "unat (src ! (length src - 1))"
  from assms have u: "1 \<le> ?u" "?u \<le> n" "?u \<le> length src" "m = take (length src - ?u) src"
    and all: "\<not> list_ex (\<lambda>b. unat b \<noteq> ?u) (drop (length src - ?u) src)"
    unfolding pkcs5Unpadding_def Let_def by (simp_all split: if_split_asm)
  have "b = of_nat ?u" if "b \<in> set (drop (length src - ?u) src)" for b
    using all that unfolding list_ex_iff word_unat_eq_iff [symmetric] by auto
  then have "drop (length src - ?u) src = replicate ?u (of_nat ?u)"
    using u(3) by (intro replicate_eqI) simp_all
  then have "src = m @ replicate ?u (of_nat ?u)" unfolding u(4) by (metis append_take_drop_id)
  moreover have "length m = length src - ?u" unfolding u(4) by simp
  ultimately show thesis using that [of ?u] u(1,2,3) by blast
qed

text \<open>Unpadding succeeds on exactly the padded messages.\<close>

lemma unpadding_iff:
  assumes "0 < n" "n \<le> 255" "n dvd length src"
  shows "pkcs5Unpadding src n = Inr m \<longleftrightarrow> src = pkcs5Padding m n"
proof
  assume "pkcs5Unpadding src n = Inr m"
  then obtain u where u: "1 \<le> u" "u \<le> n" "u \<le> length src" "length m = length src - u" "src = m @ replicate u (of_nat u)"
    by (rule unpadding_SomeD)
  have "n - length m mod n = u" unfolding u(4) by (rule pad_size [OF assms(3) u(1,2,3)])
  with padding_eq [OF assms(1,2), of m] have p: "pkcs5Padding m n = m @ replicate u (of_nat u)" by argo
  show "src = pkcs5Padding m n" by (rule trans [OF u(5) p [symmetric]])
next
  assume "src = pkcs5Padding m n"
  moreover have "1 \<le> n - length m mod n" "n - length m mod n \<le> 255" "n - length m mod n \<le> n"
    using assms(2) mod_less_divisor [OF assms(1), of "length m"] by linarith+
  ultimately show "pkcs5Unpadding src n = Inr m" using unpadding_replicate padding_eq [OF assms(1,2), of m] by metis
qed

lemma length_padding: "0 < n \<Longrightarrow> n \<le> 255 \<Longrightarrow> n dvd length (pkcs5Padding m n)"
proof -
  assume n: "0 < n" "n \<le> 255"
  have "length (pkcs5Padding m n) = length m + (n - length m mod n)" unfolding padding_eq [OF n] by simp
  also have "\<dots> = length m div n * n + n"
    using mod_less_divisor [OF n(1), of "length m"] div_mult_mod_eq [of "length m" n] by linarith
  finally have "length (pkcs5Padding m n) = length m div n * n + n" .
  then show ?thesis by simp
qed

subsection \<open>Base64 decodes what it encodes\<close>

lemma b64_char_sextet [simp]: "sextet (b64_char v) = Some (v mod 64)"
proof -
  have "list_all (\<lambda>i. sextet (encodeStd ! i) = Some i) [0..<64]" by code_simp
  then show ?thesis by (simp add: list_all_iff b64_char_def)
qed

lemma pad_sextet [simp]: "sextet (CHR ''='') = None" "\<not> is_newline (CHR ''='')"
  by code_simp+

text \<open>Cutting three bytes into four sextets and joining them again.\<close>

lemma div_digit: "r < n \<Longrightarrow> (q * n + r) div n = q" "r < n \<Longrightarrow> (q * n + r) mod n = r" for q n r :: nat
  by simp_all

lemma sextets:
  fixes a b c :: nat
  assumes "a < 256" "b < 256" "c < 256"
  defines "v \<equiv> a * 65536 + b * 256 + c"
  shows "v div 262144 mod 64 = a div 4" "v div 4096 mod 64 = a mod 4 * 16 + b div 16"
    "v div 64 mod 64 = b mod 16 * 4 + c div 64" "v mod 64 = c mod 64"
proof -
  define a1 a0 b1 b0 c1 c0 where d: "a1 = a div 4" "a0 = a mod 4" "b1 = b div 16" "b0 = b mod 16" "c1 = c div 64" "c0 = c mod 64"
  have e: "a = a1 * 4 + a0" "b = b1 * 16 + b0" "c = c1 * 64 + c0" unfolding d by simp_all
  have l: "a1 < 64" "a0 < 4" "b1 < 16" "b0 < 16" "c1 < 4" "c0 < 64" unfolding d using assms by auto
  have "v = a1 * 262144 + (a0 * 65536 + b * 256 + c)" "a0 * 65536 + b * 256 + c < 262144"
    using assms l unfolding v_def e(1) by auto
  then show "v div 262144 mod 64 = a div 4" using l(1) by (simp add: div_digit flip: d)
  have "v = (a1 * 64 + (a0 * 16 + b1)) * 4096 + (b0 * 256 + c)" "b0 * 256 + c < 4096"
    using assms l unfolding v_def e(1,2) by auto
  then have "v div 4096 = a1 * 64 + (a0 * 16 + b1)" by (simp only: div_digit)
  then show "v div 4096 mod 64 = a mod 4 * 16 + b div 16" using l by (simp only: div_digit flip: d)
  have "v = (a * 1024 + b1 * 64 + (b0 * 4 + c1)) * 64 + c0" unfolding v_def e(2,3) by simp
  then have q: "v div 64 = a * 1024 + b1 * 64 + (b0 * 4 + c1)" "v mod 64 = c0" using l(6) by (simp_all only: div_digit)
  then have "v div 64 = (a * 16 + b1) * 64 + (b0 * 4 + c1)" by simp
  then show "v div 64 mod 64 = b mod 16 * 4 + c div 64" using l by (simp only: div_digit flip: d)
  show "v mod 64 = c mod 64" using q(2) by (simp only: d)
qed

lemma join_sextets:
  fixes a b c :: nat
  shows "a div 4 * 262144 + (a mod 4 * 16 + b div 16) * 4096 + (b mod 16 * 4 + c div 64) * 64 + c mod 64 = a * 65536 + b * 256 + c"
proof -
  have e: "a = a div 4 * 4 + a mod 4" "b = b div 16 * 16 + b mod 16" "c = c div 64 * 64 + c mod 64" by (simp_all only: div_mult_mod_eq)
  show ?thesis using e by (simp only: add_mult_distrib)
qed

lemma byte_digits:
  "of_nat ((unat a * 65536 + unat b * 256 + unat c) div 65536) = (a :: byte)"
  "of_nat ((unat a * 65536 + unat b * 256 + unat c) div 256) = (b :: byte)"
  "of_nat (unat a * 65536 + unat b * 256 + unat c) = (c :: byte)"
proof -
  have z: "(256 :: byte) = 0" "(65536 :: byte) = 0" by simp_all
  have l: "unat b < 256" "unat c < 256" using unsigned_less [of b] unsigned_less [of c] by simp_all
  have "(unat a * 65536 + (unat b * 256 + unat c)) div 65536 = unat a" by (rule div_digit) (use l in auto)
  then show "of_nat ((unat a * 65536 + unat b * 256 + unat c) div 65536) = a" by (simp add: add.assoc)
  have "unat a * 65536 + unat b * 256 + unat c = (unat a * 256 + unat b) * 256 + unat c" by simp
  then have "(unat a * 65536 + unat b * 256 + unat c) div 256 = unat a * 256 + unat b" using l by (simp only: div_digit)
  then show "of_nat ((unat a * 65536 + unat b * 256 + unat c) div 256) = b" by (simp add: z)
  show "of_nat (unat a * 65536 + unat b * 256 + unat c) = c" by (simp add: z)
qed

lemma quantum_bytes:
  fixes a b c :: byte
  defines "v \<equiv> unat a * 65536 + unat b * 256 + unat c"
  shows "quantum [v div 262144 mod 64, v div 4096 mod 64, v div 64 mod 64, v mod 64] = [a, b, c]"
    and "c = 0 \<Longrightarrow> quantum [v div 262144 mod 64, v div 4096 mod 64, v div 64 mod 64] = [a, b]"
    and "b = 0 \<Longrightarrow> c = 0 \<Longrightarrow> quantum [v div 262144 mod 64, v div 4096 mod 64] = [a]"
proof -
  have l: "unat a < 256" "unat b < 256" "unat c < 256" using unsigned_less [of a] unsigned_less [of b] unsigned_less [of c] by simp_all
  note s = sextets [OF l, folded v_def] and j = join_sextets [of "unat a" "unat b" "unat c", folded v_def]
    and d = byte_digits [of a b c, folded v_def]
  show "quantum [v div 262144 mod 64, v div 4096 mod 64, v div 64 mod 64, v mod 64] = [a, b, c]"
    unfolding quantum_def s list.case j by (simp add: d)
  have "unat a div 4 * 262144 + (unat a mod 4 * 16 + unat b div 16) * 4096 + (unat b mod 16 * 4 + unat c div 64) * 64 = v" if "c = 0"
    using j that by simp
  then show "quantum [v div 262144 mod 64, v div 4096 mod 64, v div 64 mod 64] = [a, b]" if "c = 0"
    unfolding quantum_def s using that by (simp add: d)
  have "unat a div 4 * 262144 + (unat a mod 4 * 16 + unat b div 16) * 4096 = v" if "b = 0" "c = 0"
    using j that by simp
  then show "quantum [v div 262144 mod 64, v div 4096 mod 64] = [a]" if "b = 0" "c = 0"
    unfolding quantum_def s using that by (simp add: d)
qed

lemma decode_encode: "decode_quantum [] (EncodeToString bs) = Some bs"
proof (induction bs rule: EncodeToString.induct)
  case (2 a)
  show ?case using quantum_bytes(3) [of 0 0 a] by (simp add: Let_def)
next
  case (3 a b)
  show ?case using quantum_bytes(2) [of 0 a b] by (simp add: Let_def)
next
  case (4 a b c src)
  then show ?case using quantum_bytes(1) [of a b c] by (simp add: Let_def)
qed simp

subsection \<open>Decryption is the inverse of encryption\<close>

text \<open>A cipher whose decryption inverts its encryption, and conversely, on blocks of 16 bytes.\<close>

definition inverse_blocks :: "aes \<Rightarrow> byte list \<Rightarrow> bool" where
  "inverse_blocks aes key \<longleftrightarrow> (\<forall>b. length b = 16 \<longrightarrow>
     length (fst aes key b) = 16 \<and> length (snd aes key b) = 16 \<and> snd aes key (fst aes key b) = b \<and> fst aes key (snd aes key b) = b)"

lemma encrypt_eq:
  assumes "length key \<in> {16, 24, 32}"
  shows "EcbEncrypt aes key m = Inr (Inr (crypt_loop 16 (fst aes key) (replicate (length (pkcs5Padding m 16)) 0) (pkcs5Padding m 16)))"
proof -
  have "length (pkcs5Padding m 16) mod 16 = 0" using length_padding [of 16 m] by (simp add: mod_eq_0_iff_dvd)
  then show ?thesis using assms
    by (simp add: EcbEncrypt_def NewCipher_def ecbEncrypter_CryptBlocks_def CryptBlocks_def newECB_def Let_def)
qed

lemma decrypt_eq:
  assumes "length key \<in> {16, 24, 32}"
  shows "EcbDecrypt aes key c = Inr (if length c mod 16 = 0
    then pkcs5Unpadding (crypt_loop 16 (snd aes key) (replicate (length c) 0) c) 16 else Inl ErrPaddingSize)"
  using assms
  by (simp add: EcbDecrypt_def NewCipher_def ecbDecrypter_CryptBlocks_def CryptBlocks_def newECB_def Let_def)

lemma loop_inverse:
  assumes "\<And>b. length b = 16 \<Longrightarrow> length (f b) = 16 \<and> g (f b) = b" and "16 dvd length src"
  shows "crypt_loop 16 g (replicate (length src) 0) (crypt_loop 16 f (replicate (length src) 0) src) = src"
  using crypt_loop_inverse [of 16 f g src "replicate (length src) 0" "replicate (length src) 0"] assms
  by (auto simp: crypt_loop.simps [of 16 _ _ "[]"])

lemma decrypt_iff:
  assumes "inverse_blocks aes key" and k: "length key \<in> {16, 24, 32}"
  shows "EcbDecrypt aes key c = Inr (Inr m) \<longleftrightarrow> EcbEncrypt aes key m = Inr (Inr c)"
proof -
  let ?E = "crypt_loop 16 (fst aes key)" and ?D = "crypt_loop 16 (snd aes key)" and ?z = "\<lambda>x. replicate (length x) (0 :: byte)"
  have e: "\<And>b. length b = 16 \<Longrightarrow> length (fst aes key b) = 16 \<and> snd aes key (fst aes key b) = b"
    and d: "\<And>b. length b = 16 \<Longrightarrow> length (snd aes key b) = 16 \<and> fst aes key (snd aes key b) = b"
    using assms(1) by (auto simp: inverse_blocks_def)
  have le: "length (?E (?z x) x) = length x" and ld: "length (?D (?z x) x) = length x" if "16 dvd length x" for x
    using crypt_loop_length [of 16 _ x "?z x"] e d that by auto
  let ?p = "pkcs5Padding m 16"
  have dp: "16 dvd length ?p" using length_padding [of 16 m] by simp
  have "EcbDecrypt aes key c = Inr (Inr m) \<longleftrightarrow> 16 dvd length c \<and> pkcs5Unpadding (?D (?z c) c) 16 = Inr m"
    using decrypt_eq [OF k, of aes c] by (simp add: mod_eq_0_iff_dvd)
  also have "\<dots> \<longleftrightarrow> 16 dvd length c \<and> ?D (?z c) c = ?p" using unpadding_iff [of 16 "?D (?z c) c" m] ld [of c] dp by auto
  also have "\<dots> \<longleftrightarrow> c = ?E (?z ?p) ?p"
  proof
    assume h: "16 dvd length c \<and> ?D (?z c) c = ?p"
    then have "?E (?z c) (?D (?z c) c) = c" using loop_inverse [OF d, of c] by auto
    moreover have "length c = length ?p" using h ld [of c] by simp
    ultimately show "c = ?E (?z ?p) ?p" using h by simp
  next
    assume h: "c = ?E (?z ?p) ?p"
    then have "length c = length ?p" using le [OF dp] by simp
    with h loop_inverse [OF e dp] dp show "16 dvd length c \<and> ?D (?z c) c = ?p" by simp
  qed
  also have "\<dots> \<longleftrightarrow> EcbEncrypt aes key m = Inr (Inr c)" using encrypt_eq [OF k, of aes m] by auto
  finally show ?thesis .
qed

text \<open>C20: Decryption is the inverse of encryption: with a key of a valid size and a block cipher that inverts itself, both
  never panic, every message can be encrypted, and decryption returns a message for exactly the ciphertext encryption
  produces from it; every other input is a padding error.\<close>

theorem ecb_decrypt_inverts:
  assumes "inverse_blocks aes key" and "length key \<in> {16, 24, 32}"
  shows "(\<exists>c. EcbEncrypt aes key m = Inr (Inr c)) \<and>
    (EcbDecrypt aes key c = Inr (Inr m) \<longleftrightarrow> EcbEncrypt aes key m = Inr (Inr c)) \<and>
    ((\<nexists>m. EcbEncrypt aes key m = Inr (Inr c)) \<longrightarrow> EcbDecrypt aes key c = Inr (Inl ErrPaddingSize))"
proof -
  have "EcbDecrypt aes key c = Inr (Inl ErrPaddingSize)" if "\<nexists>m. EcbEncrypt aes key m = Inr (Inr c)"
    using that decrypt_iff [OF assms, of c] decrypt_eq [OF assms(2), of aes c]
    by (auto simp: pkcs5Unpadding_def Let_def split: if_splits)
  then show ?thesis using encrypt_eq [OF assms(2)] decrypt_iff [OF assms] by auto
qed

text \<open>A cipher for the examples: every byte xor a mask that depends on the key.\<close>

definition xor_aes :: aes where
  "xor_aes = (\<lambda>key. map (\<lambda>b. b XOR of_nat (length key)), \<lambda>key. map (\<lambda>b. b XOR of_nat (length key)))"

lemma xor_aes_inverse: "inverse_blocks xor_aes key"
  by (simp add: inverse_blocks_def xor_aes_def comp_def xor.assoc)

theorem ecb_decrypt_inverts_witness:
  "case EcbEncrypt xor_aes (replicate 16 7) [1, 2] of
      Inr (Inr c) \<Rightarrow> EcbDecrypt xor_aes (replicate 16 7) c = Inr (Inr [1, 2])
    | _ \<Rightarrow> False"
proof -
  have k: "length (replicate 16 (7 :: byte)) \<in> {16, 24, 32}" by simp
  note rt = ecb_decrypt_inverts [OF xor_aes_inverse k, of "[1, 2]"]
  from rt obtain c where c: "EcbEncrypt xor_aes (replicate 16 7) [1, 2] = Inr (Inr c)" by blast
  from rt [of c] show ?thesis unfolding c by simp
qed

text \<open>Base64 transport keeps the message: whenever the key is usable and the source is base64 text, the base64 encryption
  of the source decrypts to the canonical base64 text of the same bytes.\<close>

theorem ecb_base64_roundtrip:
  assumes "getKeyBytes key = Inr k" and "length k \<in> {16, 24, 32}" and "inverse_blocks aes k"
    and "DecodeString src = Inr bytes"
  shows "case EcbEncryptBase64 aes key src of
      Inr (Inr out) \<Rightarrow> EcbDecryptBase64 aes key out = Inr (Inr (EncodeToString bytes))
    | _ \<Rightarrow> False"
proof -
  obtain c where c: "EcbEncrypt aes k bytes = Inr (Inr c)" using encrypt_eq [OF assms(2)] by blast
  then have "EcbDecrypt aes k c = Inr (Inr bytes)" using decrypt_iff [OF assms(3,2)] by simp
  with c show ?thesis using assms(1,4)
    by (simp add: EcbEncryptBase64_def EcbDecryptBase64_def DecodeString_def decode_encode)
qed

theorem ecb_base64_roundtrip_witness:
  "case EcbEncryptBase64 xor_aes ''0123456789abcdef'' ''aGk='' of
      Inr (Inr out) \<Rightarrow> EcbDecryptBase64 xor_aes ''0123456789abcdef'' out = Inr (Inr (EncodeToString [104, 105]))
    | _ \<Rightarrow> False"
proof -
  have "decode_quantum [] ''aGk='' = Some [104, 105]" using decode_encode [of "[104, 105]"] by (simp add: Let_def b64_char_def encodeStd_def)
  then have "DecodeString ''aGk='' = Inr [104, 105]" by (simp add: DecodeString_def)
  then show ?thesis
    using ecb_base64_roundtrip [of "''0123456789abcdef''" "bytes_of ''0123456789abcdef''" xor_aes "''aGk=''" "[104, 105]"] xor_aes_inverse
    by (simp add: getKeyBytes_def)
qed

end
