(* ===== verification/Keyword_Trie.thy ===== *)
theory Keyword_Trie
  imports Go_Prelude "HOL-Library.Product_Lexorder"
begin

text \<open>
  Keyword search and replacement (\<open>src/infra/stringx/node.go\<close>, \<open>trie.go\<close>, \<open>replacer.go\<close>): an Aho-Corasick automaton. Nodes
  live in a heap and are named by their index, the root being 0, because the failure links make the tree a graph. Texts
  are the rune sequences of valid UTF-8 strings. The two loops over failure links and the breadth-first loop carry fuel,
  and the theorems show that the number of nodes is always enough. The theory shows that \<open>find\<close> reports exactly the
  occurrences of the keywords, in order, and that a replacement pass is leftmost-longest replacement.
\<close>

type_synonym rune = int

record ac_node =
  children :: "(rune, nat) gomap"
  fail :: "nat option"
  depth :: nat
  is_end :: bool

type_synonym heap = "ac_node list"

definition new_node :: "nat \<Rightarrow> ac_node" where
  "new_node d = \<lparr>children = [], fail = None, depth = d, is_end = False\<rparr>"

text \<open>\<open>node.add\<close>: walk down, creating what is missing.\<close>

fun add_loop :: "heap \<Rightarrow> nat \<Rightarrow> nat \<Rightarrow> rune list \<Rightarrow> heap \<times> nat" where
  "add_loop h nd i [] = (h, nd)"
| "add_loop h nd i (c # cs) = (case gm_get (children (h ! nd)) c of
     Some child \<Rightarrow> add_loop h child (i + 1) cs
   | None \<Rightarrow> add_loop (h[nd := (h ! nd)\<lparr>children := gm_set c (length h) (children (h ! nd))\<rparr>] @ [new_node (i + 1)])
       (length h) (i + 1) cs)"

definition node_add :: "heap \<Rightarrow> rune list \<Rightarrow> heap" where
  "node_add h word = (if word = [] then h
     else let (h', nd) = add_loop h 0 0 word in h'[nd := (h' ! nd)\<lparr>is_end := True\<rparr>])"

text \<open>\<open>node.build\<close>: the failure link of a child is found by following the links of its parent.\<close>

fun fail_for :: "nat \<Rightarrow> heap \<Rightarrow> nat \<Rightarrow> rune \<Rightarrow> nat option" where
  "fail_for 0 h cur key = None"
| "fail_for (Suc fuel) h cur key = (case fail (h ! cur) of
     None \<Rightarrow> Some 0
   | Some f \<Rightarrow> (case gm_get (children (h ! f)) key of
       Some target \<Rightarrow> Some target
     | None \<Rightarrow> fail_for fuel h f key))"

fun link_children :: "nat \<Rightarrow> heap \<Rightarrow> nat \<Rightarrow> (rune \<times> nat) list \<Rightarrow> heap option" where
  "link_children fuel h nd [] = Some h"
| "link_children fuel h nd ((key, child) # kcs) = (case fail_for fuel h nd key of
     None \<Rightarrow> None
   | Some target \<Rightarrow> link_children fuel (h[child := (h ! child)\<lparr>fail := Some target\<rparr>]) nd kcs)"

fun build_loop :: "nat \<Rightarrow> heap \<Rightarrow> nat list \<Rightarrow> heap option" where
  "build_loop fuel h [] = Some h"
| "build_loop 0 h (nd # nodes) = None"
| "build_loop (Suc fuel) h (nd # nodes) = (case link_children (length h) h nd (children (h ! nd)) of
     None \<Rightarrow> None
   | Some h' \<Rightarrow> build_loop fuel h' (nodes @ map snd (children (h ! nd))))"

fun link_root :: "heap \<Rightarrow> nat list \<Rightarrow> heap" where
  "link_root h [] = h"
| "link_root h (child # cs) = link_root (h[child := (h ! child)\<lparr>fail := Some 0\<rparr>]) cs"

definition build :: "heap \<Rightarrow> heap option" where
  "build h = (let nodes = map snd (children (h ! 0)) in build_loop (length h) (link_root h nodes) nodes)"

text \<open>\<open>node.find\<close>: follow the text, falling back along the links, and report every keyword that ends here.\<close>

record scope =
  start :: nat
  stop :: nat

fun fall_back :: "nat \<Rightarrow> heap \<Rightarrow> nat \<Rightarrow> rune \<Rightarrow> (nat \<times> nat option) option" where
  "fall_back fuel h cur c = (if cur = 0 then Some (0, None)
     else case fuel of 0 \<Rightarrow> None
     | Suc fuel \<Rightarrow> (case fail (h ! cur) of
         None \<Rightarrow> None
       | Some f \<Rightarrow> (case gm_get (children (h ! f)) c of
           Some child \<Rightarrow> Some (child, Some child)
         | None \<Rightarrow> fall_back fuel h f c)))"

fun report :: "nat \<Rightarrow> heap \<Rightarrow> nat \<Rightarrow> nat \<Rightarrow> scope list option" where
  "report fuel h i child = (if child = 0 then Some []
     else case fuel of 0 \<Rightarrow> None
     | Suc fuel \<Rightarrow> (case fail (h ! child) of
         None \<Rightarrow> None
       | Some f \<Rightarrow> map_option (\<lambda>scopes. (if is_end (h ! child)
           then [\<lparr>start = i + 1 - depth (h ! child), stop = i + 1\<rparr>] else []) @ scopes) (report fuel h i f)))"

declare fall_back.simps [simp del] report.simps [simp del]

definition find_step :: "heap \<Rightarrow> nat \<Rightarrow> nat \<Rightarrow> rune \<Rightarrow> (nat \<times> scope list) option" where
  "find_step h cur i c =
     (case (case gm_get (children (h ! cur)) c of
              Some child \<Rightarrow> Some (child, Some child)
            | None \<Rightarrow> fall_back (length h) h cur c) of
        None \<Rightarrow> None
      | Some (cur', None) \<Rightarrow> Some (cur', [])
      | Some (cur', Some child) \<Rightarrow> map_option (\<lambda>scopes. (cur', scopes)) (report (length h) h i child))"

fun find_loop :: "heap \<Rightarrow> nat \<Rightarrow> nat \<Rightarrow> rune list \<Rightarrow> scope list option" where
  "find_loop h cur i [] = Some []"
| "find_loop h cur i (c # cs) = (case find_step h cur i c of
     None \<Rightarrow> None
   | Some (cur', scopes) \<Rightarrow> map_option (\<lambda>rest. scopes @ rest) (find_loop h cur' (i + 1) cs))"

definition node_find :: "heap \<Rightarrow> rune list \<Rightarrow> scope list option" where
  "node_find h chars = find_loop h 0 0 chars"

subsection \<open>The keyword filter\<close>

record trieNode =
  trie :: heap
  mask :: rune

definition defaultMask :: rune where
  "defaultMask = 42"

text \<open>\<open>NewTrie\<close>: the options are the masks of the \<open>WithMask\<close> calls.\<close>

definition WithMask :: "rune \<Rightarrow> rune \<Rightarrow> rune" where
  "WithMask m old = m"

definition NewTrie :: "rune list list \<Rightarrow> rune list \<Rightarrow> trieNode option" where
  "NewTrie words opts =
     (let m = fold WithMask opts 0;
          m = (if m = 0 then defaultMask else m)
      in map_option (\<lambda>h. \<lparr>trie = h, mask = m\<rparr>) (build (fold (\<lambda>word h. node_add h word) words [new_node 0])))"

text \<open>\<open>collectKeywords\<close>: the keys of a Go map, in some order.\<close>

definition collectKeywords :: "rune list \<Rightarrow> scope list \<Rightarrow> rune list list" where
  "collectKeywords chars scopes =
     map fst (fold (\<lambda>v set. gm_set (take (stop v - start v) (drop (start v) chars)) () set) scopes [])"

definition replaceWithAsterisk :: "rune \<Rightarrow> rune list \<Rightarrow> nat \<Rightarrow> nat \<Rightarrow> rune list" where
  "replaceWithAsterisk m chars from to = fold (\<lambda>i chars. chars[i := m]) [from..<to] chars"

definition Filter :: "trieNode \<Rightarrow> rune list \<Rightarrow> (rune list \<times> rune list list \<times> bool) option" where
  "Filter n text = (if text = [] then Some (text, [], False)
     else map_option (\<lambda>scopes. let keywords = collectKeywords text scopes in
         (fold (\<lambda>v chars. replaceWithAsterisk (mask n) chars (start v) (stop v)) scopes text, keywords, keywords \<noteq> []))
       (node_find (trie n) text))"

definition FindKeywords :: "trieNode \<Rightarrow> rune list \<Rightarrow> rune list list option" where
  "FindKeywords n text = (if text = [] then Some []
     else map_option (collectKeywords text) (node_find (trie n) text))"

subsection \<open>The replacer\<close>

definition replaceTimes :: nat where
  "replaceTimes = 2"

record replacer =
  rep_node :: heap
  mapping :: "(rune list, rune list) gomap"

definition NewReplacer :: "(rune list, rune list) gomap \<Rightarrow> replacer option" where
  "NewReplacer m = map_option (\<lambda>h. \<lparr>rep_node = h, mapping = m\<rparr>)
     (build (fold (\<lambda>word h. node_add h word) (map fst m) [new_node 0]))"

text \<open>The loop over the sorted scopes.\<close>

fun replace_loop :: "(rune list, rune list) gomap \<Rightarrow> rune list \<Rightarrow> nat \<Rightarrow> scope list \<Rightarrow> rune list" where
  "replace_loop m chars index [] = (if index < length chars then drop index chars else [])"
| "replace_loop m chars index (scp # scopes) =
     (if start scp < index then replace_loop m chars index scopes
      else take (start scp - index) (drop index chars)
        @ gm_get_or [] m (take (stop scp - start scp) (drop (start scp) chars))
        @ replace_loop m chars (stop scp) scopes)"

definition doReplace :: "replacer \<Rightarrow> rune list \<Rightarrow> (rune list \<times> bool) option" where
  "doReplace r text = map_option (\<lambda>scopes.
     if scopes = [] then (text, False)
     else (replace_loop (mapping r) text 0 (sort_key (\<lambda>s. (start s, - int (stop s))) scopes), True))
     (node_find (rep_node r) text)"

fun replace_times :: "nat \<Rightarrow> replacer \<Rightarrow> rune list \<Rightarrow> rune list option" where
  "replace_times 0 r text = Some text"
| "replace_times (Suc n) r text = (case doReplace r text of
     None \<Rightarrow> None
   | Some (text', replaced) \<Rightarrow> if replaced then replace_times n r text' else Some text')"

definition Replace :: "replacer \<Rightarrow> rune list \<Rightarrow> rune list option" where
  "Replace r text = replace_times replaceTimes r text"

subsection \<open>The tree of keyword prefixes\<close>

text \<open>\<open>W\<close> gives the word that leads to each node; \<open>D\<close> is the set of keywords.\<close>

definition trie_ok :: "heap \<Rightarrow> (nat \<Rightarrow> rune list) \<Rightarrow> bool" where
  "trie_ok h W \<longleftrightarrow> 0 < length h \<and> W 0 = [] \<and> inj_on W {..<length h} \<and>
     (\<forall>nd < length h. gm_wf (children (h ! nd)) \<and> depth (h ! nd) = length (W nd) \<and>
        (\<forall>c ch. gm_get (children (h ! nd)) c = Some ch \<longleftrightarrow> ch < length h \<and> W ch = W nd @ [c]) \<and>
        (W nd \<noteq> [] \<longrightarrow> (\<exists>p < length h. W p = butlast (W nd))))"

definition keywords_at :: "heap \<Rightarrow> (nat \<Rightarrow> rune list) \<Rightarrow> rune list set \<Rightarrow> bool" where
  "keywords_at h W D \<longleftrightarrow> D \<subseteq> W ` {..<length h} \<and> (\<forall>nd < length h. is_end (h ! nd) \<longleftrightarrow> W nd \<in> D)"

lemma trie_okD:
  assumes "trie_ok h W"
  shows "0 < length h" "W 0 = []" "\<And>x y. x < length h \<Longrightarrow> y < length h \<Longrightarrow> W x = W y \<Longrightarrow> x = y"
    "\<And>nd. nd < length h \<Longrightarrow> gm_wf (children (h ! nd))" "\<And>nd. nd < length h \<Longrightarrow> depth (h ! nd) = length (W nd)"
    "\<And>nd c ch. nd < length h \<Longrightarrow> gm_get (children (h ! nd)) c = Some ch \<longleftrightarrow> ch < length h \<and> W ch = W nd @ [c]"
    "\<And>nd. nd < length h \<Longrightarrow> W nd \<noteq> [] \<Longrightarrow> \<exists>p < length h. W p = butlast (W nd)"
  using assms unfolding trie_ok_def inj_on_def by (fast+)

lemma trie_no_child:
  assumes "trie_ok h W" "nd < length h" "gm_get (children (h ! nd)) c = None" "x < length h"
  shows "W x \<noteq> W nd @ [c]"
  using trie_okD(6) [OF assms(1,2), of c x] assms(3,4) by auto

lemma trie_extend:
  assumes ok: "trie_ok h W" and nd: "nd < length h" and none: "gm_get (children (h ! nd)) c = None"
  defines "h' \<equiv> h[nd := (h ! nd)\<lparr>children := gm_set c (length h) (children (h ! nd))\<rparr>] @ [new_node (length (W nd) + 1)]"
    and "W' \<equiv> W(length h := W nd @ [c])"
  shows "trie_ok h' W'"
proof -
  note d = trie_okD [OF ok] and fresh = trie_no_child [OF ok nd none]
  have len: "length h' = Suc (length h)" unfolding h'_def by simp
  have old: "W' x = W x" if "x < length h" for x using that unfolding W'_def by simp
  have new: "W' (length h) = W nd @ [c]" unfolding W'_def by simp
  have inj: "inj_on W' {..<length h'}"
  proof (rule inj_onI)
    fix x y
    assume "x \<in> {..<length h'}" "y \<in> {..<length h'}" and eq: "W' x = W' y"
    then have l: "x < length h \<or> x = length h" "y < length h \<or> y = length h" by (auto simp: len)
    show "x = y" using l(1)
    proof
      assume x: "x < length h"
      then have "y \<noteq> length h" using eq old [OF x] new fresh [OF x] by auto
      then show "x = y" using l(2) x d(3) [OF x, of y] eq old [of y] old [OF x] by simp
    next
      assume x: "x = length h"
      then have "\<not> y < length h" using eq old [of y] new fresh [of y] by auto
      then show "x = y" using l(2) x by simp
    qed
  qed
  have kids: "gm_get (children (h' ! x)) k = Some ch \<longleftrightarrow> ch < length h' \<and> W' ch = W' x @ [k]" if x: "x < length h'" for x k ch
  proof (cases "x = length h")
    case True
    have "W' ch \<noteq> W nd @ [c, k]" if "ch < length h'" for ch
    proof (cases "ch = length h")
      case False
      with that len have ch: "ch < length h" by simp
      show ?thesis
      proof
        assume "W' ch = W nd @ [c, k]"
        then have w: "W ch = W nd @ [c, k]" using old [OF ch] by simp
        then obtain p where "p < length h" "W p = butlast (W nd @ [c, k])" using d(7) [OF ch] by auto
        then show False using fresh by (simp add: butlast_append)
      qed
    qed (simp add: new)
    then show ?thesis using True unfolding h'_def new_node_def W'_def by (auto simp: nth_append)
  next
    case False
    then have x': "x < length h" using x len by simp
    have "gm_get (children (h' ! x)) k = (if x = nd \<and> k = c then Some (length h) else gm_get (children (h ! x)) k)"
      using x' unfolding h'_def by (cases "x = nd") (simp_all add: nth_append gomap_simps)
    moreover have "W nd @ [c] = W x @ [k] \<longleftrightarrow> x = nd \<and> k = c" using d(3) [OF x' nd] by auto
    ultimately show ?thesis using d(6) [OF x', of k ch] old x' new none fresh unfolding len
      by (auto simp: less_Suc_eq old)
  qed
  have "gm_wf (children (h' ! x)) \<and> depth (h' ! x) = length (W' x)" if "x < length h'" for x
    using that d(4,5) nd unfolding h'_def W'_def by (auto simp: nth_append nth_list_update new_node_def not_less)
  moreover have "\<exists>p < length h'. W' p = butlast (W' x)" if "x < length h'" "W' x \<noteq> []" for x
    using that d(7) [of x] old nd new unfolding len less_Suc_eq by (metis butlast_snoc)
  ultimately show ?thesis using kids inj d(1,2) len unfolding trie_ok_def by (auto simp: W'_def)
qed

text \<open>What adding leaves alone: the words of old nodes, the end marks and the missing links.\<close>

definition grown :: "heap \<Rightarrow> (nat \<Rightarrow> rune list) \<Rightarrow> heap \<Rightarrow> (nat \<Rightarrow> rune list) \<Rightarrow> bool" where
  "grown h W h' W' \<longleftrightarrow> trie_ok h' W' \<and> length h \<le> length h' \<and> (\<forall>x < length h. W' x = W x) \<and>
     (\<forall>x < length h'. (is_end (h' ! x) \<longleftrightarrow> x < length h \<and> is_end (h ! x)) \<and>
        fail (h' ! x) = (if x < length h then fail (h ! x) else None))"

lemma grown_refl: "trie_ok h W \<Longrightarrow> grown h W h W"
  by (simp add: grown_def)

lemma grown_trans: "grown h W h1 W1 \<Longrightarrow> grown h1 W1 h2 W2 \<Longrightarrow> grown h W h2 W2"
  unfolding grown_def by auto

lemma grown_extend:
  assumes "trie_ok h W" "nd < length h" "gm_get (children (h ! nd)) c = None"
  shows "grown h W (h[nd := (h ! nd)\<lparr>children := gm_set c (length h) (children (h ! nd))\<rparr>] @ [new_node (length (W nd) + 1)])
    (W(length h := W nd @ [c]))"
  using trie_extend [OF assms] assms(2) unfolding grown_def
  by (auto simp: nth_append nth_list_update new_node_def)

lemma add_loop_ok:
  assumes "trie_ok h W" "nd < length h" "i = length (W nd)" "add_loop h nd i cs = (h', nd')"
  shows "\<exists>W'. grown h W h' W' \<and> nd' < length h' \<and> W' nd' = W nd @ cs"
  using assms
proof (induction h nd i cs arbitrary: W rule: add_loop.induct)
  case (1 h nd i)
  then show ?case using grown_refl [of h W] by auto
next
  case (2 h nd i c cs)
  show ?case
  proof (cases "gm_get (children (h ! nd)) c")
    case (Some child)
    then have ch: "child < length h" "W child = W nd @ [c]" using trie_okD(6) [OF 2(3,4)] by auto
    then have "\<exists>W'. grown h W h' W' \<and> nd' < length h' \<and> W' nd' = W child @ cs"
      using 2(2) [OF Some 2(3) ch(1)] 2(5,6) Some by simp
    then show ?thesis using ch(2) by simp
  next
    case None
    let ?h = "h[nd := (h ! nd)\<lparr>children := gm_set c (length h) (children (h ! nd))\<rparr>] @ [new_node (i + 1)]"
    define W1 where "W1 = W(length h := W nd @ [c])"
    have w: "W1 (length h) = W nd @ [c]" by (simp add: W1_def)
    have g: "grown h W ?h W1" using grown_extend [OF 2(3,4) None] 2(5) by (simp add: W1_def)
    then have ok: "trie_ok ?h W1" by (simp add: grown_def)
    have "length h < length ?h" "i + 1 = length (W1 (length h))" "add_loop ?h (length h) (i + 1) cs = (h', nd')"
      using 2(5,6) None by (simp_all add: w)
    then obtain W' where "grown ?h W1 h' W'" "nd' < length h'" "W' nd' = W1 (length h) @ cs"
      using 2(1) [OF None ok] by blast
    then show ?thesis using grown_trans [OF g] w by auto
  qed
qed

text \<open>A tree without links that holds the keywords \<open>D\<close>.\<close>

definition dictionary :: "heap \<Rightarrow> (nat \<Rightarrow> rune list) \<Rightarrow> rune list set \<Rightarrow> bool" where
  "dictionary h W D \<longleftrightarrow> trie_ok h W \<and> keywords_at h W D \<and> (\<forall>x < length h. fail (h ! x) = None)"

lemma node_add_ok:
  assumes "dictionary h W D"
  shows "\<exists>W'. dictionary (node_add h word) W' (D \<union> ({word} - {[]}))"
proof (cases "word = []")
  case True
  then show ?thesis using assms by (auto simp: node_add_def)
next
  case False
  obtain h' nd where l: "add_loop h 0 0 word = (h', nd)" by (cases "add_loop h 0 0 word")
  note d = assms [unfolded dictionary_def keywords_at_def]
  have ok: "trie_ok h W" using d by blast
  obtain W' where g: "grown h W h' W'" and nd: "nd < length h'" "W' nd = word"
    using add_loop_ok [OF ok _ _ l] trie_okD(1,2) [OF ok] by auto
  note gd = g [unfolded grown_def]
  let ?h = "h'[nd := (h' ! nd)\<lparr>is_end := True\<rparr>]"
  have ok': "trie_ok h' W'" using gd by blast
  have same: "children (?h ! x) = children (h' ! x)" "depth (?h ! x) = depth (h' ! x)" "fail (?h ! x) = fail (h' ! x)" for x
    using nd(1) by (cases "x = nd"; simp)+
  have tok: "trie_ok ?h W'" using ok' unfolding trie_ok_def by (simp add: same)
  have "W' x \<in> D \<longleftrightarrow> x < length h \<and> W x \<in> D" if "x < length h'" for x
  proof
    assume "W' x \<in> D"
    then obtain y where "y < length h" "W' x = W y" using d by auto
    then show "x < length h \<and> W x \<in> D" using trie_okD(3) [OF ok' that, of y] gd \<open>W' x \<in> D\<close> by auto
  qed (use gd in auto)
  then have "is_end (?h ! x) \<longleftrightarrow> W' x \<in> insert word D" if "x < length h'" for x
    using that d gd nd trie_okD(3) [OF ok' that nd(1)] by (cases "x = nd") auto
  moreover have "insert word D \<subseteq> W' ` {..<length h'}"
  proof -
    have "W x \<in> W' ` {..<length h'}" if "x < length h" for x using that gd image_eqI [of "W x" W' x "{..<length h'}"] by auto
    then show ?thesis using d nd by auto
  qed
  ultimately have "keywords_at ?h W' (insert word D)" unfolding keywords_at_def by simp
  moreover have "fail (?h ! x) = None" if "x < length ?h" for x using d gd that same by simp
  ultimately have "dictionary ?h W' (insert word D)" using tok unfolding dictionary_def by blast
  then show ?thesis using False l by (auto simp: node_add_def)
qed

lemma dictionary_new: "dictionary [new_node 0] (\<lambda>_. []) {}"
  by (simp add: dictionary_def trie_ok_def keywords_at_def new_node_def inj_on_def)

lemma dictionary_words: "\<exists>W. dictionary (fold (\<lambda>word h. node_add h word) words [new_node 0]) W (set words - {[]})"
proof (induction words rule: rev_induct)
  case Nil
  then show ?case using dictionary_new by auto
next
  case (snoc w ws)
  then obtain W where W: "dictionary (fold (\<lambda>word h. node_add h word) ws [new_node 0]) W (set ws - {[]})" by blast
  have eq: "set (ws @ [w]) - {[]} = (set ws - {[]}) \<union> ({w} - {[]})" by auto
  have f: "fold (\<lambda>word h. node_add h word) (ws @ [w]) [new_node 0] =
    node_add (fold (\<lambda>word h. node_add h word) ws [new_node 0]) w" by simp
  show ?case unfolding eq f by (rule node_add_ok [OF W])
qed

subsection \<open>Failure links\<close>

text \<open>\<open>u\<close> is the longest proper suffix of \<open>w\<close> that the tree holds.\<close>

abbreviation held :: "heap \<Rightarrow> (nat \<Rightarrow> rune list) \<Rightarrow> rune list set" where
  "held h W \<equiv> W ` {..<length h}"

definition longest_proper :: "rune list set \<Rightarrow> rune list \<Rightarrow> rune list \<Rightarrow> bool" where
  "longest_proper V w u \<longleftrightarrow> u \<in> V \<and> strict_suffix u w \<and> (\<forall>v \<in> V. strict_suffix v w \<longrightarrow> suffix v u)"

definition linked :: "heap \<Rightarrow> (nat \<Rightarrow> rune list) \<Rightarrow> nat \<Rightarrow> bool" where
  "linked h W nd \<longleftrightarrow> (case fail (h ! nd) of None \<Rightarrow> False | Some f \<Rightarrow> f < length h \<and> longest_proper (held h W) (W nd) (W f))"

lemma held_prefix: "trie_ok h W \<Longrightarrow> w @ [c] \<in> held h W \<Longrightarrow> w \<in> held h W"
proof -
  assume ok: "trie_ok h W" and "w @ [c] \<in> held h W"
  then obtain x where "x < length h" "W x = w @ [c]" by auto
  with trie_okD(7) [OF ok, of x] obtain p where "p < length h" "W p = w" by auto
  then show ?thesis by auto
qed

lemma strict_suffix_snoc: "strict_suffix v (w @ [c]) \<longleftrightarrow> v = [] \<or> (\<exists>v'. v = v' @ [c] \<and> strict_suffix v' w)"
  by (cases v rule: rev_cases) (auto simp: strict_suffix_def)

text \<open>The search along the links of \<open>cur\<close>: the longest proper suffix of its word that can be continued by \<open>c\<close>.\<close>

definition continues :: "rune list set \<Rightarrow> rune list \<Rightarrow> rune \<Rightarrow> rune list option \<Rightarrow> bool" where
  "continues V w c r = (case r of
     None \<Rightarrow> \<forall>v. strict_suffix v w \<longrightarrow> v @ [c] \<notin> V
   | Some u \<Rightarrow> strict_suffix u w \<and> u @ [c] \<in> V \<and> (\<forall>v. strict_suffix v w \<longrightarrow> v @ [c] \<in> V \<longrightarrow> suffix v u))"

lemma continues_here:
  assumes "longest_proper (held h W) w u" "u @ [c] \<in> held h W" "trie_ok h W"
  shows "continues (held h W) w c (Some u)"
  using assms held_prefix [OF assms(3)] by (auto simp: continues_def longest_proper_def)

lemma continues_up:
  assumes "longest_proper (held h W) w u" "u @ [c] \<notin> held h W" "trie_ok h W" "continues (held h W) u c r"
  shows "continues (held h W) w c r"
proof -
  have up: "strict_suffix v u" if "strict_suffix v w" "v @ [c] \<in> held h W" for v
    using that assms(1,2) held_prefix [OF assms(3) that(2)] by (auto simp: longest_proper_def strict_suffix_def)
  have "strict_suffix u w" using assms(1) by (simp add: longest_proper_def)
  then have down: "strict_suffix v w" if "strict_suffix v u" for v using that by (rule suffix_order.less_trans [rotated])
  show ?thesis
  proof (cases r)
    case None
    then show ?thesis using assms(4) up by (auto simp: continues_def)
  next
    case (Some x)
    then show ?thesis using assms(4) up down by (auto simp: continues_def)
  qed
qed

lemma longest_proper_snoc:
  assumes "continues V w c r" "[] \<in> V"
  shows "longest_proper V (w @ [c]) (case r of None \<Rightarrow> [] | Some u \<Rightarrow> u @ [c])"
proof (cases r)
  case None
  then show ?thesis using assms by (auto simp: longest_proper_def strict_suffix_snoc continues_def)
next
  case (Some u)
  have "suffix v (u @ [c])" if "v \<in> V" "strict_suffix v (w @ [c])" for v
    using that assms(1) Some by (auto simp: strict_suffix_snoc continues_def)
  then show ?thesis using assms(1) Some by (simp add: longest_proper_def strict_suffix_snoc continues_def)
qed

text \<open>Every prefix of a held word is held, so words are shorter than the heap: the fuel of the loops is enough.\<close>

lemma held_prefixes: "trie_ok h W \<Longrightarrow> w \<in> held h W \<Longrightarrow> prefix v w \<Longrightarrow> v \<in> held h W"
proof (induction w rule: rev_induct)
  case (snoc c w)
  then show ?case using held_prefix [of h W w c] by (auto simp: prefix_snoc)
qed simp

lemma word_bound: "trie_ok h W \<Longrightarrow> nd < length h \<Longrightarrow> length (W nd) < length h"
proof -
  assume ok: "trie_ok h W" and nd: "nd < length h"
  then have "set (prefixes (W nd)) \<subseteq> held h W" using held_prefixes [OF ok, of "W nd"] by auto
  then have "card (set (prefixes (W nd))) \<le> card {..<length h}"
    using card_mono [of "held h W"] card_image_le [of "{..<length h}" W] by (meson finite_imageI finite_lessThan order_trans)
  then show ?thesis by (simp add: distinct_card)
qed

lemma root_word: "trie_ok h W \<Longrightarrow> x < length h \<Longrightarrow> W x = [] \<longleftrightarrow> x = 0"
  using trie_okD(1,2) [of h W] trie_okD(3) [of h W x 0] by auto

text \<open>All nodes whose words have at most \<open>n\<close> runes have their links.\<close>

definition linked_upto :: "heap \<Rightarrow> (nat \<Rightarrow> rune list) \<Rightarrow> nat \<Rightarrow> bool" where
  "linked_upto h W n \<longleftrightarrow> trie_ok h W \<and> fail (h ! 0) = None \<and>
     (\<forall>x < length h. x \<noteq> 0 \<longrightarrow> length (W x) \<le> n \<longrightarrow> linked h W x)"

lemma follow_link:
  assumes "linked_upto h W n" "cur < length h" "cur \<noteq> 0" "length (W cur) \<le> n"
  obtains f where "fail (h ! cur) = Some f" "f < length h" "longest_proper (held h W) (W cur) (W f)" "length (W f) < length (W cur)"
proof -
  from assms have "linked h W cur" by (simp add: linked_upto_def)
  then obtain f where f: "fail (h ! cur) = Some f" "f < length h" "longest_proper (held h W) (W cur) (W f)"
    by (auto simp: linked_def split: option.splits)
  then have "length (W f) < length (W cur)" by (auto simp: longest_proper_def strict_suffix_def suffix_def)
  with f that show thesis by blast
qed

lemma child_held:
  assumes "trie_ok h W" "f < length h"
  shows "gm_get (children (h ! f)) c = None \<Longrightarrow> W f @ [c] \<notin> held h W"
    and "gm_get (children (h ! f)) c = Some t \<Longrightarrow> t < length h \<and> W t = W f @ [c] \<and> W f @ [c] \<in> held h W"
proof -
  show "W f @ [c] \<notin> held h W" if "gm_get (children (h ! f)) c = None" using trie_no_child [OF assms that] by force
  show "t < length h \<and> W t = W f @ [c] \<and> W f @ [c] \<in> held h W" if "gm_get (children (h ! f)) c = Some t"
    using that unfolding trie_okD(6) [OF assms] by (auto intro: image_eqI [OF sym])
qed

lemma continues_Nil: "continues V [] c None"
  by (simp add: continues_def)

lemma fail_for_ok:
  assumes "linked_upto h W n" "cur < length h" "length (W cur) \<le> n" "length (W cur) < fuel"
  shows "\<exists>r t. continues (held h W) (W cur) c r \<and> fail_for fuel h cur c = Some t \<and> t < length h \<and>
    W t = (case r of None \<Rightarrow> [] | Some u \<Rightarrow> u @ [c])"
  using assms(2-4)
proof (induction fuel arbitrary: cur)
  case (Suc fuel)
  have ok: "trie_ok h W" "fail (h ! 0) = None" using assms(1) by (auto simp: linked_upto_def)
  show ?case
  proof (cases "cur = 0")
    case True
    then show ?thesis using ok trie_okD(1,2) [OF ok(1)] continues_Nil by (intro exI [of _ None]) auto
  next
    case False
    obtain f where f: "fail (h ! cur) = Some f" "f < length h" "longest_proper (held h W) (W cur) (W f)" "length (W f) < length (W cur)"
      using follow_link [OF assms(1) Suc(2) False Suc(3)] by blast
    show ?thesis
    proof (cases "gm_get (children (h ! f)) c")
      case (Some t)
      then show ?thesis using f continues_here [OF f(3) _ ok(1)] child_held(2) [OF ok(1) f(2) Some]
        by (intro exI [of _ "Some (W f)"] exI [of _ t]) simp
    next
      case None
      then have n: "W f @ [c] \<notin> held h W" using child_held(1) [OF ok(1) f(2)] by simp
      obtain r t where rt: "continues (held h W) (W f) c r" "fail_for fuel h f c = Some t" "t < length h"
        "W t = (case r of None \<Rightarrow> [] | Some u \<Rightarrow> u @ [c])"
        using Suc(1) [OF f(2)] f(4) Suc(3,4) by auto
      then show ?thesis using f(1) None continues_up [OF f(3) n ok(1) rt(1)] by auto
    qed
  qed
qed simp

lemma fall_back_ok:
  assumes "linked_upto h W n" "cur < length h" "length (W cur) \<le> n" "length (W cur) \<le> fuel"
  shows "\<exists>r. continues (held h W) (W cur) c r \<and> (case r of
      None \<Rightarrow> fall_back fuel h cur c = Some (0, None)
    | Some u \<Rightarrow> (\<exists>t. fall_back fuel h cur c = Some (t, Some t) \<and> t < length h \<and> W t = u @ [c]))"
  using assms(2-4)
proof (induction fuel arbitrary: cur)
  case 0
  have "trie_ok h W" using assms(1) by (auto simp: linked_upto_def)
  with 0 have "cur = 0" using root_word by auto
  then show ?case using 0 continues_Nil by (intro exI [of _ None]) (simp add: fall_back.simps [of 0])
next
  case (Suc fuel)
  have ok: "trie_ok h W" using assms(1) by (auto simp: linked_upto_def)
  show ?case
  proof (cases "cur = 0")
    case True
    then show ?thesis using trie_okD(2) [OF ok] continues_Nil by (intro exI [of _ None]) (simp add: fall_back.simps [of "Suc fuel"])
  next
    case False
    obtain f where f: "fail (h ! cur) = Some f" "f < length h" "longest_proper (held h W) (W cur) (W f)" "length (W f) < length (W cur)"
      using follow_link [OF assms(1) Suc(2) False Suc(3)] by blast
    show ?thesis
    proof (cases "gm_get (children (h ! f)) c")
      case (Some t)
      then show ?thesis using f False continues_here [OF f(3) _ ok] child_held(2) [OF ok f(2) Some]
        by (intro exI [of _ "Some (W f)"]) (simp add: fall_back.simps [of "Suc fuel"])
    next
      case None
      then have n: "W f @ [c] \<notin> held h W" using child_held(1) [OF ok f(2)] by simp
      have eq: "fall_back (Suc fuel) h cur c = fall_back fuel h f c" using False f(1) None by (simp add: fall_back.simps [of "Suc fuel"])
      have "length (W f) \<le> n" "length (W f) \<le> fuel" using f(4) Suc(3,4) by auto
      from Suc(1) [OF f(2) this] show ?thesis unfolding eq by (blast intro: continues_up [OF f(3) n ok])
    qed
  qed
qed

subsection \<open>The breadth-first construction\<close>

text \<open>Two heaps that differ in their links only.\<close>

definition same_tree :: "heap \<Rightarrow> heap \<Rightarrow> bool" where
  "same_tree h h' \<longleftrightarrow> length h' = length h \<and> (\<forall>x. children (h' ! x) = children (h ! x) \<and> depth (h' ! x) = depth (h ! x) \<and>
     is_end (h' ! x) = is_end (h ! x))"

lemma same_tree_refl [simp]: "same_tree h h"
  by (simp add: same_tree_def)

lemma same_tree_trans: "same_tree h h1 \<Longrightarrow> same_tree h1 h2 \<Longrightarrow> same_tree h h2"
  by (simp add: same_tree_def)

lemma same_tree_link: "x < length h \<Longrightarrow> same_tree h (h[x := (h ! x)\<lparr>fail := t\<rparr>])"
proof -
  assume x: "x < length h"
  have "children (h[x := (h ! x)\<lparr>fail := t\<rparr>] ! y) = children (h ! y) \<and> depth (h[x := (h ! x)\<lparr>fail := t\<rparr>] ! y) = depth (h ! y) \<and>
    is_end (h[x := (h ! x)\<lparr>fail := t\<rparr>] ! y) = is_end (h ! y)" for y using x by (cases "y = x") simp_all
  then show ?thesis by (simp add: same_tree_def)
qed

lemma same_tree_ok: "same_tree h h' \<Longrightarrow> trie_ok h' W \<longleftrightarrow> trie_ok h W"
  by (simp add: same_tree_def trie_ok_def)

lemma same_tree_keywords: "same_tree h h' \<Longrightarrow> keywords_at h' W D \<longleftrightarrow> keywords_at h W D"
  by (simp add: same_tree_def keywords_at_def)

lemma fail_linked_cong: "same_tree h h' \<Longrightarrow> fail (h' ! x) = fail (h ! x) \<Longrightarrow> linked h' W x \<longleftrightarrow> linked h W x"
  by (cases "fail (h ! x)") (simp_all add: linked_def same_tree_def)

text \<open>What linking a list of nodes does.\<close>

definition links :: "heap \<Rightarrow> (nat \<Rightarrow> rune list) \<Rightarrow> nat list \<Rightarrow> heap \<Rightarrow> bool" where
  "links h W xs h' \<longleftrightarrow> same_tree h h' \<and> (\<forall>x. x \<notin> set xs \<longrightarrow> fail (h' ! x) = fail (h ! x)) \<and> (\<forall>x \<in> set xs. linked h' W x)"

lemma links_Cons:
  assumes "links (h[x := (h ! x)\<lparr>fail := Some t\<rparr>]) W xs h'" "x < length h" "x \<notin> set xs" "t < length h"
    "longest_proper (held h W) (W x) (W t)"
  shows "links h W (x # xs) h'"
proof -
  let ?h = "h[x := (h ! x)\<lparr>fail := Some t\<rparr>]"
  have l: "same_tree ?h h'" "\<And>y. y \<notin> set xs \<Longrightarrow> fail (h' ! y) = fail (?h ! y)" "\<And>y. y \<in> set xs \<Longrightarrow> linked h' W y"
    using assms(1) by (auto simp: links_def)
  have "linked ?h W x" using assms(2,4,5) by (simp add: linked_def)
  then have "linked h' W x" using fail_linked_cong [OF l(1) l(2) [OF assms(3)]] by simp
  then show ?thesis using l same_tree_trans [OF same_tree_link [OF assms(2)] l(1)] by (auto simp: links_def)
qed

lemma link_children_ok:
  assumes "linked_upto h W (length (W nd))" "nd < length h" "\<And>k ch. (k, ch) \<in> set kcs \<Longrightarrow> ch < length h \<and> W ch = W nd @ [k]"
    "distinct (map snd kcs)"
  shows "\<exists>h'. link_children (length h) h nd kcs = Some h' \<and> links h W (map snd kcs) h'"
  using assms
proof (induction kcs arbitrary: h)
  case (Cons kc kcs)
  obtain k ch where kc: "kc = (k, ch)" by (cases kc)
  have ok: "trie_ok h W" using Cons(2) by (simp add: linked_upto_def)
  have ch: "ch < length h" "W ch = W nd @ [k]" using Cons(4) [of k ch] kc by auto
  obtain r t where rt: "continues (held h W) (W nd) k r" "fail_for (length h) h nd k = Some t" "t < length h"
    "W t = (case r of None \<Rightarrow> [] | Some u \<Rightarrow> u @ [k])"
    using fail_for_ok [OF Cons(2,3) order_refl word_bound [OF ok Cons(3)]] by blast
  have nil: "[] \<in> held h W" using trie_okD(1,2) [OF ok] image_eqI [of "[]" W 0 "{..<length h}"] by simp
  have lp: "longest_proper (held h W) (W ch) (W t)" using longest_proper_snoc [OF rt(1) nil] by (simp only: rt(4) ch(2))
  let ?h = "h[ch := (h ! ch)\<lparr>fail := Some t\<rparr>]"
  have st: "same_tree h ?h" by (rule same_tree_link [OF ch(1)])
  have fe: "fail (?h ! x) = fail (h ! x)" if "x \<noteq> ch" for x using that by simp
  have c0: "ch \<noteq> 0" using ch trie_okD(2) [OF ok] root_word [OF ok ch(1)] by simp
  have "linked ?h W x" if "x < length h" "x \<noteq> 0" "length (W x) \<le> length (W nd)" for x
  proof -
    have "x \<noteq> ch" using that(3) ch(2) by auto
    then show ?thesis using fail_linked_cong [OF st fe] Cons(2) that by (simp add: linked_upto_def)
  qed
  then have "linked_upto ?h W (length (W nd))" using same_tree_ok [OF st] ok fe [of 0] c0 Cons(2) by (simp add: linked_upto_def)
  moreover have "\<And>k ch'. (k, ch') \<in> set kcs \<Longrightarrow> ch' < length ?h \<and> W ch' = W nd @ [k]" using Cons(4) by auto
  ultimately obtain h' where h': "link_children (length ?h) ?h nd kcs = Some h'" "links ?h W (map snd kcs) h'"
    using Cons(1) [of ?h] Cons(3,5) by auto
  have "links h W (ch # map snd kcs) h'" by (rule links_Cons [OF h'(2) ch(1) _ rt(3) lp]) (use Cons(5) kc in simp)
  then show ?case using h'(1) rt(2) kc by simp
qed (simp add: links_def)

lemma link_root_ok:
  assumes "trie_ok h W" "\<And>x. x \<in> set xs \<Longrightarrow> x < length h \<and> length (W x) = 1" "distinct xs"
  shows "links h W xs (link_root h xs)"
  using assms
proof (induction xs arbitrary: h)
  case (Cons x xs)
  have x: "x < length h" "length (W x) = 1" using Cons(3) [of x] by auto
  let ?h = "h[x := (h ! x)\<lparr>fail := Some 0\<rparr>]"
  have st: "same_tree h ?h" by (rule same_tree_link [OF x(1)])
  have "links ?h W xs (link_root ?h xs)" using Cons same_tree_ok [OF st, of W] by simp
  moreover have "longest_proper (held h W) (W x) (W 0)"
    using trie_okD(1,2) [OF Cons(2)] x(2) image_eqI [of "W 0" W 0 "{..<length h}"]
    by (cases "W x") (auto simp: longest_proper_def strict_suffix_def suffix_Cons)
  ultimately show ?case using links_Cons [of h x 0 W xs] x(1) Cons(4) trie_okD(1) [OF Cons(2)] by simp
qed (simp add: links_def)

text \<open>The loop has processed the nodes \<open>P\<close> and holds the queue \<open>q\<close>: exactly the children of the root and of \<open>P\<close> have been
  linked, and the queue is ordered by depth.\<close>

definition parent_in :: "heap \<Rightarrow> (nat \<Rightarrow> rune list) \<Rightarrow> nat set \<Rightarrow> nat \<Rightarrow> bool" where
  "parent_in h W P x \<longleftrightarrow> (\<exists>p < length h. (p = 0 \<or> p \<in> P) \<and> W p = butlast (W x))"

definition bfs_ok :: "heap \<Rightarrow> (nat \<Rightarrow> rune list) \<Rightarrow> nat set \<Rightarrow> nat list \<Rightarrow> bool" where
  "bfs_ok h W P q \<longleftrightarrow> trie_ok h W \<and> fail (h ! 0) = None \<and> distinct q \<and> set q \<inter> P = {} \<and> P \<union> set q \<subseteq> {0<..<length h} \<and>
     (\<forall>x < length h. x \<noteq> 0 \<longrightarrow> (x \<in> P \<union> set q \<longleftrightarrow> parent_in h W P x)) \<and>
     (\<forall>x \<in> P \<union> set q. linked h W x) \<and>
     sorted (map (\<lambda>x. length (W x)) q) \<and> (\<forall>x \<in> P. \<forall>y \<in> set q. length (W x) \<le> length (W y)) \<and>
     (\<forall>x \<in> set q. \<forall>y \<in> set q. length (W x) \<le> length (W y) + 1)"

lemma bfs_okD:
  assumes "bfs_ok h W P q"
  shows "trie_ok h W" "fail (h ! 0) = None" "distinct q" "set q \<inter> P = {}" "P \<union> set q \<subseteq> {0<..<length h}"
    "\<And>x. x < length h \<Longrightarrow> x \<noteq> 0 \<Longrightarrow> x \<in> P \<union> set q \<longleftrightarrow> parent_in h W P x" "\<And>x. x \<in> P \<union> set q \<Longrightarrow> linked h W x"
    "sorted (map (\<lambda>x. length (W x)) q)" "\<And>x y. x \<in> P \<Longrightarrow> y \<in> set q \<Longrightarrow> length (W x) \<le> length (W y)"
    "\<And>x y. x \<in> set q \<Longrightarrow> y \<in> set q \<Longrightarrow> length (W x) \<le> length (W y) + 1"
  using assms unfolding bfs_ok_def by (blast | metis)+

lemma bfs_reached:
  assumes b: "bfs_ok h W P q" and "\<And>y. y \<in> set q \<Longrightarrow> n \<le> length (W y)" and "x < length h" "x \<noteq> 0" "length (W x) \<le> n"
  shows "x \<in> P \<union> set q"
  using assms(3-5)
proof (induction "length (W x)" arbitrary: x rule: less_induct)
  case less
  note d = bfs_okD [OF b]
  have ne: "W x \<noteq> []" using root_word [OF d(1) less(2)] less(3) by simp
  then obtain p where p: "p < length h" "W p = butlast (W x)" using trie_okD(7) [OF d(1) less(2)] by blast
  then have lt: "length (W p) < length (W x)" using ne by (cases "W x" rule: rev_cases) auto
  have "p = 0 \<or> p \<in> P"
  proof (rule disjCI)
    assume "p \<notin> P"
    moreover have "p \<notin> set q" using assms(2) lt less(4) by force
    ultimately show "p = 0" using less(1) [OF lt p(1)] lt less(4) by auto
  qed
  then have "parent_in h W P x" unfolding parent_in_def using p by blast
  then show ?case using d(6) [OF less(2,3)] by blast
qed

lemma bfs_linked_upto:
  assumes "bfs_ok h W P q" and "\<And>y. y \<in> set q \<Longrightarrow> n \<le> length (W y)"
  shows "linked_upto h W n"
  unfolding linked_upto_def using bfs_okD(1,2) [OF assms(1)] bfs_okD(7) [OF assms(1)] bfs_reached [OF assms] by blast

lemma kids:
  assumes "trie_ok h W" "nd < length h"
  shows "set (map snd (children (h ! nd))) = {x. x < length h \<and> W x \<noteq> [] \<and> W nd = butlast (W x)}" (is ?set)
    and "distinct (map snd (children (h ! nd)))" (is ?dist)
    and "\<And>k ch. (k, ch) \<in> set (children (h ! nd)) \<Longrightarrow> ch < length h \<and> W ch = W nd @ [k]"
proof -
  have wf: "gm_wf (children (h ! nd))" using trie_okD(4) [OF assms] .
  show m: "ch < length h \<and> W ch = W nd @ [k]" if "(k, ch) \<in> set (children (h ! nd))" for k ch
    using that gm_get_eq_iff [OF wf] trie_okD(6) [OF assms, of k ch] by simp
  have "x \<in> snd ` set (children (h ! nd))" if x: "x < length h" "W x \<noteq> []" "W nd = butlast (W x)" for x
  proof -
    have "W x = W nd @ [last (W x)]" using x by simp
    then have "(last (W x), x) \<in> set (children (h ! nd))"
      using x(1) gm_get_eq_iff [OF wf] trie_okD(6) [OF assms, of "last (W x)" x] by simp
    then show ?thesis by force
  qed
  then show ?set using m by fastforce
  have "inj_on snd (set (children (h ! nd)))"
  proof (rule inj_onI)
    fix a b
    assume ab: "a \<in> set (children (h ! nd))" "b \<in> set (children (h ! nd))" "snd a = snd b"
    obtain k x k' where e: "a = (k, x)" "b = (k', x)" using ab(3) by (metis prod.collapse)
    show "a = b" using m [of k x] m [of k' x] ab unfolding e by auto
  qed
  moreover have "distinct (children (h ! nd))" using wf by (simp add: gm_wf_def distinct_map)
  ultimately show ?dist by (simp add: distinct_map)
qed

lemma bfs_step:
  assumes b: "bfs_ok h W P (nd # nodes)"
  shows "\<exists>h'. link_children (length h) h nd (children (h ! nd)) = Some h' \<and> same_tree h h' \<and>
    bfs_ok h' W (insert nd P) (nodes @ map snd (children (h ! nd)))"
proof -
  note d = bfs_okD [OF b]
  let ?n = "length (W nd)"
  define ks where "ks = map snd (children (h ! nd))"
  have nd: "nd < length h" "nd \<noteq> 0" using d(5) by auto
  note k = kids [OF d(1) nd(1), folded ks_def]
  have mn: "?n \<le> length (W y)" if "y \<in> set (nd # nodes)" for y using d(8) that by auto
  obtain h' where h': "link_children (length h) h nd (children (h ! nd)) = Some h'" "links h W ks h'"
    using link_children_ok [OF bfs_linked_upto [OF b mn] nd(1) k(3) k(2) [unfolded ks_def]] unfolding ks_def by blast
  have st: "same_tree h h'" and keep: "\<And>x. x \<notin> set ks \<Longrightarrow> fail (h' ! x) = fail (h ! x)" and new: "\<And>x. x \<in> set ks \<Longrightarrow> linked h' W x"
    using h'(2) by (auto simp: links_def)
  have len: "length h' = length h" using st by (simp add: same_tree_def)
  have kl: "length (W x) = ?n + 1" "x < length h" "x \<noteq> 0" if "x \<in> set ks" for x
    using that root_word [OF d(1), of x] unfolding k(1) by auto
  have par: "parent_in h' W (insert nd P) x \<longleftrightarrow> parent_in h W P x \<or> x \<in> set ks" if "x < length h" "x \<noteq> 0" for x
    using that nd root_word [OF d(1), of x] unfolding k(1) parent_in_def len by auto
  have old: "x \<notin> set ks" if x: "x \<in> P \<union> set (nd # nodes)" for x
  proof
    assume "x \<in> set ks"
    then have p: "W nd = butlast (W x)" "x < length h" unfolding k(1) by auto
    have "x \<noteq> 0" using x d(5) by auto
    then obtain p where "p < length h" "p = 0 \<or> p \<in> P" "W p = W nd" using d(6) [OF p(2)] x p(1) unfolding parent_in_def by auto
    then show False using trie_okD(3) [OF d(1) _ nd(1), of p] nd(2) d(4) by auto
  qed
  have lnk: "linked h' W x" if "x \<in> P \<union> set (nd # nodes)" for x using fail_linked_cong [OF st keep [OF old [OF that]]] d(7) [OF that] by simp
  have near: "length (W x) \<le> ?n + 1" if "x \<in> set (nd # nodes)" for x using d(10) [OF that, of nd] by simp
  have k0: "0 \<notin> set ks" using kl(3) by blast
  have "sorted (map (\<lambda>x. length (W x)) ks)"
  proof -
    have "map (\<lambda>x. length (W x)) ks = map (\<lambda>x. ?n + 1) ks" using kl(1) by (intro map_cong) auto
    then show ?thesis by (simp only: map_replicate_const sorted_replicate)
  qed
  then have srt: "sorted (map (\<lambda>x. length (W x)) (nodes @ ks))" using d(8) near kl(1) by (auto simp: sorted_append)
  have lo: "length (W x) \<le> ?n" if "x \<in> insert nd P" for x using d(9) [of x nd] that by auto
  have hi: "?n \<le> length (W y) \<and> length (W y) \<le> ?n + 1" if "y \<in> set (nodes @ ks)" for y
  proof (cases "y \<in> set nodes")
    case True
    then show ?thesis using mn [of y] near [of y] by simp
  next
    case False
    then show ?thesis using that kl(1) [of y] by simp
  qed
  have "bfs_ok h' W (insert nd P) (nodes @ ks)" unfolding bfs_ok_def
  proof (intro conjI)
    show "trie_ok h' W" using same_tree_ok [OF st] d(1) by simp
    show "fail (h' ! 0) = None" using keep [OF k0] d(2) by simp
    show "distinct (nodes @ ks)" using d(3) k(2) old by auto
    show "set (nodes @ ks) \<inter> insert nd P = {}" using d(3,4) old by auto
    show "insert nd P \<union> set (nodes @ ks) \<subseteq> {0<..<length h'}" using d(5) kl(2,3) len by auto
    show "\<forall>x < length h'. x \<noteq> 0 \<longrightarrow> (x \<in> insert nd P \<union> set (nodes @ ks) \<longleftrightarrow> parent_in h' W (insert nd P) x)"
    proof (intro allI impI)
      fix x
      assume "x < length h'" "x \<noteq> 0"
      then have x: "x < length h" "x \<noteq> 0" using len by auto
      show "x \<in> insert nd P \<union> set (nodes @ ks) \<longleftrightarrow> parent_in h' W (insert nd P) x" unfolding par [OF x] d(6) [OF x, symmetric] by auto
    qed
    show "\<forall>x \<in> insert nd P \<union> set (nodes @ ks). linked h' W x" using lnk new by auto
    show "\<forall>x \<in> insert nd P. \<forall>y \<in> set (nodes @ ks). length (W x) \<le> length (W y)" using lo hi by (meson order_trans)
    show "\<forall>x \<in> set (nodes @ ks). \<forall>y \<in> set (nodes @ ks). length (W x) \<le> length (W y) + 1" 
    proof (intro ballI)
      fix x y
      assume "x \<in> set (nodes @ ks)" "y \<in> set (nodes @ ks)"
      from hi [OF this(1)] hi [OF this(2)] show "length (W x) \<le> length (W y) + 1" by linarith
    qed
  qed (rule srt)
  then show ?thesis using h'(1) st unfolding ks_def by blast
qed

lemma build_loop_ok:
  assumes "bfs_ok h W P q" "length h \<le> fuel + card P"
  shows "\<exists>h'. build_loop fuel h q = Some h' \<and> same_tree h h' \<and> (\<forall>n. linked_upto h' W n)"
  using assms
proof (induction fuel h q arbitrary: P rule: build_loop.induct)
  case (1 fuel h)
  have "\<forall>n. linked_upto h W n" using bfs_linked_upto [OF 1(1)] by auto
  then show ?case by simp
next
  case (2 h nd nodes)
  note d = bfs_okD [OF 2(1)]
  have "P \<subseteq> {..<length h} - {nd}" "nd < length h" using d(4,5) by auto
  then have "card P < length h" using card_mono [of "{..<length h} - {nd}" P] by simp
  then show ?case using 2 by simp
next
  case (3 fuel h nd nodes)
  note d = bfs_okD [OF 3(2)]
  obtain h1 where h1: "link_children (length h) h nd (children (h ! nd)) = Some h1" "same_tree h h1"
    "bfs_ok h1 W (insert nd P) (nodes @ map snd (children (h ! nd)))"
    using bfs_step [OF 3(2)] by blast
  have "finite P" "nd \<notin> P" using d(4,5) finite_subset [of P "{0<..<length h}"] by auto
  then have "length h1 \<le> fuel + card (insert nd P)" using 3(3) h1(2) by (simp add: same_tree_def)
  then show ?case using 3(1) [OF h1(1,3)] h1(1,2) same_tree_trans by auto
qed

text \<open>The finished automaton for the keywords \<open>D\<close>.\<close>

definition automaton :: "heap \<Rightarrow> (nat \<Rightarrow> rune list) \<Rightarrow> rune list set \<Rightarrow> bool" where
  "automaton h W D \<longleftrightarrow> keywords_at h W D \<and> (\<forall>n. linked_upto h W n)"

lemma bfs_start:
  assumes "dictionary h W D"
  defines "q \<equiv> map snd (children (h ! 0))"
  shows "bfs_ok (link_root h q) W {} q \<and> same_tree h (link_root h q)"
proof -
  have ok: "trie_ok h W" and nofail: "\<And>x. x < length h \<Longrightarrow> fail (h ! x) = None" using assms(1) by (auto simp: dictionary_def)
  note r = trie_okD(1,2) [OF ok]
  note k = kids [OF ok r(1), folded q_def]
  have one: "x < length h \<and> length (W x) = 1 \<and> x \<noteq> 0" if "x \<in> set q" for x
  proof -
    have x: "x < length h" "W x \<noteq> []" "butlast (W x) = []" using that unfolding k(1) r(2) by auto
    then show ?thesis using root_word [OF ok x(1)] by (cases "W x" rule: rev_cases) auto
  qed
  let ?h = "link_root h q"
  have l: "same_tree h ?h" "\<And>x. x \<notin> set q \<Longrightarrow> fail (?h ! x) = fail (h ! x)" "\<And>x. x \<in> set q \<Longrightarrow> linked ?h W x"
    using link_root_ok [OF ok _ k(2)] one by (auto simp: links_def)
  have len: "length ?h = length h" using l(1) by (simp add: same_tree_def)
  have "map (\<lambda>x. length (W x)) q = map (\<lambda>x. 1) q" using one by (intro map_cong) auto
  then have "sorted (map (\<lambda>x. length (W x)) q)" by (simp only: map_replicate_const sorted_replicate)
  moreover have "x \<in> set q \<longleftrightarrow> parent_in ?h W {} x" if "x < length h" "x \<noteq> 0" for x
    using that r root_word [OF ok that(1)] unfolding parent_in_def k(1) len by auto
  moreover have "fail (?h ! 0) = None" using l(2) [of 0] one nofail r(1) by auto
  ultimately have "bfs_ok ?h W {} q" unfolding bfs_ok_def
    using l one k(2) same_tree_ok [OF l(1)] ok len by auto
  then show ?thesis using l(1) by simp
qed

lemma build_ok:
  assumes "dictionary h W D"
  shows "\<exists>h'. build h = Some h' \<and> automaton h' W D"
proof -
  let ?q = "map snd (children (h ! 0))"
  let ?h = "link_root h ?q"
  have s: "bfs_ok ?h W {} ?q" "same_tree h ?h" using bfs_start [OF assms] by auto
  then have "length ?h \<le> length h + card {}" by (simp add: same_tree_def)
  from build_loop_ok [OF s(1) this] obtain h' where h': "build_loop (length h) ?h ?q = Some h'" "same_tree ?h h'" "\<forall>n. linked_upto h' W n"
    by blast
  moreover have "keywords_at h' W D"
    using assms same_tree_keywords [OF same_tree_trans [OF s(2) h'(2)]] by (simp add: dictionary_def)
  ultimately show ?thesis by (simp add: build_def Let_def automaton_def)
qed

lemma automaton_words: "\<exists>h W. build (fold (\<lambda>word h. node_add h word) words [new_node 0]) = Some h \<and> automaton h W (set words - {[]})"
  using dictionary_words [of words] build_ok by blast

subsection \<open>Searching\<close>

text \<open>The state after reading \<open>t\<close> is the longest suffix of \<open>t\<close> that the tree holds.\<close>

definition longest :: "rune list set \<Rightarrow> rune list \<Rightarrow> rune list \<Rightarrow> bool" where
  "longest V t u \<longleftrightarrow> u \<in> V \<and> suffix u t \<and> (\<forall>v \<in> V. suffix v t \<longrightarrow> suffix v u)"

lemma longest_step:
  assumes l: "longest (held h W) t w" and ok: "trie_ok h W"
  shows "w @ [c] \<in> held h W \<Longrightarrow> longest (held h W) (t @ [c]) (w @ [c])"
    and "w @ [c] \<notin> held h W \<Longrightarrow> continues (held h W) w c r \<Longrightarrow> longest (held h W) (t @ [c]) (case r of None \<Rightarrow> [] | Some u \<Rightarrow> u @ [c])"
proof -
  have nil: "[] \<in> held h W" using trie_okD(1,2) [OF ok] image_eqI [of "[]" W 0 "{..<length h}"] by simp
  have w: "suffix w t" using l by (simp add: longest_def)
  have v: "v = [] \<or> (\<exists>v'. v = v' @ [c] \<and> suffix v' w)" if "v \<in> held h W" "suffix v (t @ [c])" for v
  proof (cases v rule: rev_cases)
    case (snoc v' x)
    then have "x = c" "suffix v' t" "v' \<in> held h W" using that held_prefix [OF ok, of v' x] by auto
    then show ?thesis using l snoc by (auto simp: longest_def)
  qed simp
  show "longest (held h W) (t @ [c]) (w @ [c])" if "w @ [c] \<in> held h W"
    unfolding longest_def using that w v by (auto dest!: v)
  assume n: "w @ [c] \<notin> held h W" and c: "continues (held h W) w c r"
  have v': "v = [] \<or> (\<exists>v'. v = v' @ [c] \<and> strict_suffix v' w)" if "v \<in> held h W" "suffix v (t @ [c])" for v
    using v [OF that] that(1) n unfolding strict_suffix_def by blast
  show "longest (held h W) (t @ [c]) (case r of None \<Rightarrow> [] | Some u \<Rightarrow> u @ [c])"
  proof (cases r)
    case None
    then have "\<forall>v. strict_suffix v w \<longrightarrow> v @ [c] \<notin> held h W" using c by (simp add: continues_def)
    then have "v = []" if "v \<in> held h W" "suffix v (t @ [c])" for v using v' [OF that] that(1) by blast
    then show ?thesis using None nil unfolding longest_def by simp
  next
    case (Some u)
    then have u: "strict_suffix u w" "u @ [c] \<in> held h W" "\<And>v. strict_suffix v w \<Longrightarrow> v @ [c] \<in> held h W \<Longrightarrow> suffix v u"
      using c by (auto simp: continues_def)
    have "suffix u t" using suffix_order.trans [OF suffix_order.less_imp_le [OF u(1)] w] .
    moreover have "suffix v (u @ [c])" if "v \<in> held h W" "suffix v (t @ [c])" for v
    proof -
      from v' [OF that] show ?thesis
      proof
        assume "\<exists>v'. v = v' @ [c] \<and> strict_suffix v' w"
        then obtain x where x: "v = x @ [c]" "strict_suffix x w" by blast
        then show ?thesis using u(3) [OF x(2)] that(1) by simp
      qed simp
    qed
    ultimately show ?thesis using u(2) Some by (simp add: longest_def)
  qed
qed

text \<open>The occurrences that end at position \<open>j\<close>, longest first.\<close>

definition occurrences_at :: "rune list set \<Rightarrow> rune list \<Rightarrow> nat \<Rightarrow> scope list" where
  "occurrences_at D text j = map (\<lambda>s. \<lparr>start = s, stop = j\<rparr>) (filter (\<lambda>s. take (j - s) (drop s text) \<in> D) [0..<j])"

definition occurrences :: "rune list set \<Rightarrow> rune list \<Rightarrow> scope list" where
  "occurrences D text = concat (map (occurrences_at D text) [1..<Suc (length text)])"

lemma filter_from:
  assumes "k \<le> n" "\<And>s. s < k \<Longrightarrow> \<not> Q s"
  shows "filter Q [0..<n] = filter Q [k..<n]"
proof -
  have "[0..<n] = [0..<k] @ [k..<n]" using assms(1) upt_add_eq_append [of 0 k "n - k"] by simp
  moreover have "filter Q [0..<k] = []" using assms(2) by (auto simp: filter_empty_conv)
  ultimately show ?thesis by simp
qed

lemma filter_gap:
  assumes "a < b" "b \<le> n" "\<And>s. a < s \<Longrightarrow> s < b \<Longrightarrow> \<not> Q s"
  shows "filter Q [a..<n] = (if Q a then [a] else []) @ filter Q [b..<n]"
proof -
  have "[Suc a..<n] = [Suc a..<b] @ [b..<n]" using assms(1,2) upt_add_eq_append [of "Suc a" b "n - b"] by simp
  moreover have "filter Q [Suc a..<b] = []" using assms(3) by (auto simp: filter_empty_conv)
  ultimately show ?thesis using assms(1,2) by (simp add: upt_conv_Cons)
qed

lemma drop_suffix: "suffix w t \<Longrightarrow> length t - length w \<le> s \<Longrightarrow> drop s t = drop (s - (length t - length w)) w"
  by (auto simp: suffix_def)

lemma strict_drop_suffix:
  assumes "suffix w t" "length t - length w < s" "s \<le> length t"
  shows "strict_suffix (drop s t) w"
proof -
  have "drop s t = drop (s - (length t - length w)) w" using drop_suffix [OF assms(1)] assms(2) by simp
  then have "suffix (drop s t) w" by (simp add: suffix_drop)
  moreover have "length (drop s t) < length w" using assms(2,3) by simp
  ultimately show ?thesis by (auto simp: strict_suffix_def)
qed

lemma report_ok:
  assumes a: "automaton h W D" and D: "[] \<notin> D" and "nd < length h" "length (W nd) \<le> fuel" "suffix (W nd) t" "length t = i + 1"
  shows "report fuel h i nd = Some (map (\<lambda>s. \<lparr>start = s, stop = i + 1\<rparr>)
    (filter (\<lambda>s. drop s t \<in> D) [i + 1 - length (W nd)..<i + 1]))"
  using assms(3-6)
proof (induction fuel arbitrary: nd)
  case 0
  have "trie_ok h W" using a by (simp add: automaton_def linked_upto_def)
  then have "nd = 0" using 0 root_word by auto
  then show ?case using 0 by (simp add: report.simps [of 0])
next
  case (Suc fuel)
  have lu: "linked_upto h W (length (W nd))" and ok: "trie_ok h W" and kw: "keywords_at h W D"
    using a by (auto simp: automaton_def linked_upto_def)
  let ?n = "i + 1" and ?Q = "\<lambda>s. drop s t \<in> D"
  show ?case
  proof (cases "nd = 0")
    case True
    then show ?thesis using trie_okD(2) [OF ok] by (simp add: report.simps [of "Suc fuel"])
  next
    case False
    obtain f where f: "fail (h ! nd) = Some f" "f < length h" "longest_proper (held h W) (W nd) (W f)" "length (W f) < length (W nd)"
      using follow_link [OF lu Suc(2) False order_refl] by blast
    have "suffix (W f) (W nd)" using f(3) by (simp add: longest_proper_def strict_suffix_def)
    then have sf: "suffix (W f) t" using suffix_order.trans [OF _ Suc(4)] by blast
    have le: "length (W nd) \<le> ?n" using suffix_length_le [OF Suc(4)] Suc(5) by simp
    have w: "drop (?n - length (W nd)) t = W nd" using drop_suffix [OF Suc(4), of "?n - length (W nd)"] Suc(5) by simp
    have gap: "\<not> ?Q s" if s: "?n - length (W nd) < s" "s < ?n - length (W f)" for s
    proof
      assume "?Q s"
      then have "drop s t \<in> held h W" using kw by (auto simp: keywords_at_def)
      moreover have "strict_suffix (drop s t) (W nd)"
        using strict_drop_suffix [OF Suc(4), of s] s Suc(5) by simp
      ultimately have "suffix (drop s t) (W f)" using f(3) unfolding longest_proper_def by blast
      then have "length (drop s t) \<le> length (W f)" by (rule suffix_length_le)
      then show False using s(2) Suc(5) by simp
    qed
    have e: "is_end (h ! nd) \<longleftrightarrow> ?Q (?n - length (W nd))" "depth (h ! nd) = length (W nd)"
      unfolding w using kw Suc(2) trie_okD(5) [OF ok Suc(2)] by (auto simp: keywords_at_def)
    have "filter ?Q [?n - length (W nd)..<?n] =
      (if is_end (h ! nd) then [?n - length (W nd)] else []) @ filter ?Q [?n - length (W f)..<?n]"
      unfolding e(1) by (rule filter_gap) (use f(4) le gap in auto)
    moreover have "report fuel h i f = Some (map (\<lambda>s. \<lparr>start = s, stop = ?n\<rparr>) (filter ?Q [?n - length (W f)..<?n]))"
      using Suc(1) [OF f(2) _ sf Suc(5)] f(4) Suc(3) by simp
    ultimately show ?thesis using False f(1) e(2) by (simp add: report.simps [of "Suc fuel"])
  qed
qed

text \<open>One step: the state stays the longest held suffix, and what is reported are the occurrences that end here.\<close>

lemma find_step_ok:
  assumes a: "automaton h W D" and D: "[] \<notin> D" and cur: "cur < length h" "longest (held h W) t (W cur)"
  shows "\<exists>cur'. cur' < length h \<and> longest (held h W) (t @ [c]) (W cur') \<and>
    find_step h cur (length t) c = Some (cur', occurrences_at D (t @ [c]) (length t + 1))"
proof -
  have lu: "linked_upto h W (length (W cur))" and ok: "trie_ok h W" and kw: "D \<subseteq> held h W"
    using a by (auto simp: automaton_def linked_upto_def keywords_at_def)
  let ?n = "length t + 1" and ?t = "t @ [c]"
  have occ: "occurrences_at D ?t ?n = map (\<lambda>s. \<lparr>start = s, stop = ?n\<rparr>) (filter (\<lambda>s. drop s ?t \<in> D) [?n - length w..<?n])"
    if "longest (held h W) ?t w" for w
  proof -
    have le: "length w \<le> ?n" using that suffix_length_le [of w ?t] by (simp add: longest_def)
    have "drop s ?t \<notin> D" if s: "s < ?n - length w" for s
    proof
      assume "drop s ?t \<in> D"
      then have "suffix (drop s ?t) w" using kw \<open>longest (held h W) ?t w\<close> suffix_drop [of s ?t] unfolding longest_def by blast
      then have "length (drop s ?t) \<le> length w" by (rule suffix_length_le)
      then show False using s by simp
    qed
    then have "filter (\<lambda>s. drop s ?t \<in> D) [0..<?n] = filter (\<lambda>s. drop s ?t \<in> D) [?n - length w..<?n]"
      by (intro filter_from) auto
    moreover have "filter (\<lambda>s. take (?n - s) (drop s ?t) \<in> D) [0..<?n] = filter (\<lambda>s. drop s ?t \<in> D) [0..<?n]"
      by (intro filter_cong) auto
    ultimately show ?thesis unfolding occurrences_at_def by simp
  qed
  have rep: "report (length h) h (length t) x = Some (occurrences_at D ?t ?n)" if x: "x < length h" "longest (held h W) ?t (W x)" for x
    using report_ok [OF a D x(1), of "length h" ?t "length t"] word_bound [OF ok x(1)] x(2) occ [OF x(2)] by (simp add: longest_def)
  show ?thesis
  proof (cases "gm_get (children (h ! cur)) c")
    case (Some x)
    then have x: "x < length h" "W x = W cur @ [c]" "W cur @ [c] \<in> held h W" using child_held(2) [OF ok cur(1)] by auto
    then have "longest (held h W) ?t (W x)" using longest_step(1) [OF cur(2) ok] by simp
    then show ?thesis using rep x(1) Some by (intro exI [of _ x]) (simp add: find_step_def)
  next
    case None
    then have n: "W cur @ [c] \<notin> held h W" using child_held(1) [OF ok cur(1)] by simp
    obtain r where r: "continues (held h W) (W cur) c r" "case r of None \<Rightarrow> fall_back (length h) h cur c = Some (0, None)
      | Some u \<Rightarrow> (\<exists>x. fall_back (length h) h cur c = Some (x, Some x) \<and> x < length h \<and> W x = u @ [c])"
      using fall_back_ok [OF lu cur(1) order_refl less_imp_le [OF word_bound [OF ok cur(1)]]] by blast
    note l = longest_step(2) [OF cur(2) ok n r(1)]
    show ?thesis
    proof (cases r)
      case r0: None
      then have l0: "longest (held h W) ?t (W 0)" using l trie_okD(2) [OF ok] by simp
      moreover have "occurrences_at D ?t ?n = []" using occ [OF l0] trie_okD(2) [OF ok] by simp
      ultimately show ?thesis using r(2) r0 None trie_okD(1) [OF ok] by (intro exI [of _ 0]) (simp add: find_step_def)
    next
      case (Some u)
      then obtain x where x: "fall_back (length h) h cur c = Some (x, Some x)" "x < length h" "W x = u @ [c]" using r(2) by auto
      then have "longest (held h W) ?t (W x)" using l Some by simp
      then show ?thesis using rep x None by (intro exI [of _ x]) (simp add: find_step_def)
    qed
  qed
qed

lemma find_loop_ok:
  assumes a: "automaton h W D" and D: "[] \<notin> D" and "cur < length h" "longest (held h W) t (W cur)"
  shows "find_loop h cur (length t) cs = Some (concat (map (occurrences_at D (t @ cs)) [Suc (length t)..<Suc (length (t @ cs))]))"
  using assms(3,4)
proof (induction cs arbitrary: cur t)
  case (Cons c cs)
  obtain cur' where c: "cur' < length h" "longest (held h W) (t @ [c]) (W cur')"
    "find_step h cur (length t) c = Some (cur', occurrences_at D (t @ [c]) (length t + 1))"
    using find_step_ok [OF a D Cons(2,3)] by blast
  have "take (Suc (length t) - s) (drop s (t @ [c])) = take (Suc (length t) - s) (drop s (t @ c # cs))" if "s < Suc (length t)" for s
    using that by (simp add: drop_take take_drop)
  then have "occurrences_at D (t @ [c]) (Suc (length t)) = occurrences_at D (t @ c # cs) (Suc (length t))"
    unfolding occurrences_at_def by (intro arg_cong [of _ _ "map _"] filter_cong) auto
  moreover have "[Suc (length t)..<Suc (length (t @ c # cs))] = Suc (length t) # [Suc (Suc (length t))..<Suc (length (t @ c # cs))]"
    by (rule upt_conv_Cons) simp
  ultimately show ?case using Cons(1) [OF c(1,2)] c(3) by simp
qed simp

text \<open>The search finds exactly the occurrences of the keywords.\<close>

lemma find_ok:
  assumes "automaton h W D" "[] \<notin> D"
  shows "node_find h text = Some (occurrences D text)"
proof -
  have ok: "trie_ok h W" using assms(1) by (simp add: automaton_def linked_upto_def)
  have "longest (held h W) [] (W 0)" using trie_okD(1,2) [OF ok] image_eqI [of "W 0" W 0 "{..<length h}"] by (simp add: longest_def)
  from find_loop_ok [OF assms trie_okD(1) [OF ok] this, of "text"] show ?thesis
    by (simp add: node_find_def occurrences_def)
qed

subsection \<open>Filtering\<close>

lemma set_occurrences:
  "v \<in> set (occurrences D text) \<longleftrightarrow> start v < stop v \<and> stop v \<le> length text \<and> take (stop v - start v) (drop (start v) text) \<in> D"
proof -
  have "v \<in> set (occurrences D text) \<longleftrightarrow> (\<exists>j \<in> {1..<Suc (length text)}. v \<in> set (occurrences_at D text j))"
    unfolding occurrences_def by (simp only: set_concat set_map set_upt) blast
  also have "\<dots> \<longleftrightarrow> stop v \<in> {1..<Suc (length text)} \<and> v \<in> set (occurrences_at D text (stop v))"
    unfolding occurrences_at_def by auto
  also have "\<dots> \<longleftrightarrow> start v < stop v \<and> stop v \<le> length text \<and> take (stop v - start v) (drop (start v) text) \<in> D"
    unfolding occurrences_at_def by (cases v) auto
  finally show ?thesis .
qed

lemma collectKeywords_fold:
  "set (map fst (fold (\<lambda>v m. gm_set (f v) () m) vs acc)) = set (map fst acc) \<union> f ` set vs"
  "distinct (map fst acc) \<Longrightarrow> distinct (map fst (fold (\<lambda>v m. gm_set (f v) () m) vs acc))"
  by (induction vs arbitrary: acc) (auto simp: dom_update distinct_update)

lemma replaceWithAsterisk_eq:
  "replaceWithAsterisk m chars from to = map (\<lambda>i. if from \<le> i \<and> i < to then m else chars ! i) [0..<length chars]"
proof (induction to)
  case (Suc to)
  show ?case
  proof (cases "from \<le> to")
    case True
    then have "replaceWithAsterisk m chars from (Suc to) = (replaceWithAsterisk m chars from to)[to := m]"
      by (simp add: replaceWithAsterisk_def)
    then show ?thesis unfolding Suc using True by (intro nth_equalityI) (auto simp: nth_list_update less_Suc_eq)
  next
    case False
    then have "replaceWithAsterisk m chars from (Suc to) = chars" by (simp add: replaceWithAsterisk_def)
    then show ?thesis using False by (intro nth_equalityI) auto
  qed
qed (auto simp: replaceWithAsterisk_def intro: nth_equalityI)

lemma mask_fold:
  "fold (\<lambda>v chars. replaceWithAsterisk m chars (start v) (stop v)) vs chars =
   map (\<lambda>i. if list_ex (\<lambda>v. start v \<le> i \<and> i < stop v) vs then m else chars ! i) [0..<length chars]"
proof (induction vs arbitrary: chars)
  case Nil
  then show ?case by (simp add: map_nth)
next
  case (Cons v vs)
  show ?case unfolding fold_Cons o_apply Cons unfolding replaceWithAsterisk_eq by (intro nth_equalityI) auto
qed

text \<open>\<open>text\<close> has an occurrence of a keyword that covers position \<open>i\<close>.\<close>

definition covered :: "rune list list \<Rightarrow> rune list \<Rightarrow> nat \<Rightarrow> bool" where
  "covered words text i \<longleftrightarrow> (\<exists>k \<in> set words. \<exists>pre post. text = pre @ k @ post \<and> length pre \<le> i \<and> i < length pre + length k)"

lemma covered_iff:
  "list_ex (\<lambda>v. start v \<le> i \<and> i < stop v) (occurrences (set words - {[]}) text) \<longleftrightarrow> covered words text i"
proof
  assume "list_ex (\<lambda>v. start v \<le> i \<and> i < stop v) (occurrences (set words - {[]}) text)"
  then obtain v :: scope where v: "start v \<le> i" "i < stop v" "stop v \<le> length text" "take (stop v - start v) (drop (start v) text) \<in> set words"
    by (auto simp: list_ex_iff set_occurrences)
  let ?k = "take (stop v - start v) (drop (start v) text)"
  have "text = take (start v) text @ ?k @ drop (stop v - start v) (drop (start v) text)" by (simp only: append_take_drop_id)
  moreover have "length (take (start v) text) \<le> i" "i < length (take (start v) text) + length ?k" using v by auto
  ultimately show "covered words text i" unfolding covered_def using v(4) by blast
next
  assume "covered words text i"
  then obtain k pre post where k: "k \<in> set words" "text = pre @ k @ post" "length pre \<le> i" "i < length pre + length k"
    unfolding covered_def by blast
  let ?v = "\<lparr>start = length pre, stop = length pre + length k\<rparr>"
  have "?v \<in> set (occurrences (set words - {[]}) text)" using k unfolding set_occurrences by auto
  then show "list_ex (\<lambda>v. start v \<le> i \<and> i < stop v) (occurrences (set words - {[]}) text)"
    using k(3,4) unfolding list_ex_iff by (intro bexI [of _ ?v]) simp_all
qed

lemma occurring_keywords:
  "(\<lambda>v. take (stop v - start v) (drop (start v) text)) ` set (occurrences (set words - {[]}) text) = {k \<in> set words. k \<noteq> [] \<and> sublist k text}"
proof (intro equalityI subsetI)
  fix k
  assume "k \<in> (\<lambda>v. take (stop v - start v) (drop (start v) text)) ` set (occurrences (set words - {[]}) text)"
  then obtain v where v: "v \<in> set (occurrences (set words - {[]}) text)" "k = take (stop v - start v) (drop (start v) text)" by blast
  have "text = take (start v) text @ k @ drop (stop v - start v) (drop (start v) text)" unfolding v(2) by (simp only: append_take_drop_id)
  then have "sublist k text" unfolding sublist_def by blast
  then show "k \<in> {k \<in> set words. k \<noteq> [] \<and> sublist k text}" using v by (auto simp: set_occurrences)
next
  fix k
  assume "k \<in> {k \<in> set words. k \<noteq> [] \<and> sublist k text}"
  then obtain pre post where k: "k \<in> set words" "k \<noteq> []" "text = pre @ k @ post" by (auto simp: sublist_def)
  let ?v = "\<lparr>start = length pre, stop = length pre + length k\<rparr>"
  have "?v \<in> set (occurrences (set words - {[]}) text)" using k unfolding set_occurrences by auto
  moreover have "k = take (stop ?v - start ?v) (drop (start ?v) text)" using k(3) by simp
  ultimately show "k \<in> (\<lambda>v. take (stop v - start v) (drop (start v) text)) ` set (occurrences (set words - {[]}) text)" by (rule image_eqI [rotated])
qed

text \<open>C3: Building the automaton always ends, whatever the keywords, and \<open>find\<close> reports exactly the occurrences of the
  keywords in the text: ordered by where they end, the longest first.\<close>

theorem keyword_search_exact:
  "case NewTrie words opts of
     None \<Rightarrow> False
   | Some n \<Rightarrow> node_find (trie n) text = Some (occurrences (set words - {[]}) text)"
proof -
  obtain h W where h: "build (fold (\<lambda>word h. node_add h word) words [new_node 0]) = Some h" "automaton h W (set words - {[]})"
    using automaton_words by blast
  then show ?thesis using find_ok [OF h(2)] by (simp add: NewTrie_def Let_def)
qed

text \<open>The filter masks exactly the runes that an occurrence of a keyword covers, overlapping occurrences included,
  leaves the others alone, and lists each keyword that occurs once.\<close>

theorem keyword_filter_masks:
  "case Option.bind (NewTrie words opts) (\<lambda>n. map_option (\<lambda>r. (mask n, r)) (Filter n text)) of
     None \<Rightarrow> False
   | Some (m, sentence, keywords, found) \<Rightarrow>
       m = (if opts = [] \<or> last opts = 0 then 42 else last opts) \<and>
       sentence = map (\<lambda>i. if covered words text i then m else text ! i) [0..<length text] \<and>
       distinct keywords \<and> set keywords = {k \<in> set words. k \<noteq> [] \<and> sublist k text} \<and> (found \<longleftrightarrow> keywords \<noteq> [])"
proof -
  obtain h W where h: "build (fold (\<lambda>word h. node_add h word) words [new_node 0]) = Some h" "automaton h W (set words - {[]})"
    using automaton_words by blast
  have f: "node_find h text = Some (occurrences (set words - {[]}) text)" using find_ok [OF h(2)] by simp
  have opt: "fold WithMask opts x = (if opts = [] then x else last opts)" for x
    by (induction opts arbitrary: x) (auto simp: WithMask_def)
  have kw: "set (collectKeywords text (occurrences (set words - {[]}) text)) = {k \<in> set words. k \<noteq> [] \<and> sublist k text}"
    "distinct (collectKeywords text (occurrences (set words - {[]}) text))"
    unfolding collectKeywords_def collectKeywords_fold(1) occurring_keywords by (simp, intro collectKeywords_fold(2), simp)
  show ?thesis
  proof (cases "text = []")
    case True
    then show ?thesis using h(1) opt by (auto simp: NewTrie_def Let_def Filter_def defaultMask_def)
  next
    case False
    then show ?thesis using h(1) f kw opt
      by (simp add: NewTrie_def Let_def Filter_def defaultMask_def mask_fold covered_iff)
  qed
qed

subsection \<open>Replacing\<close>

text \<open>The reference: at each position the longest keyword that starts there is replaced, and the scan goes on behind it.\<close>

definition longest_key :: "rune list set \<Rightarrow> rune list \<Rightarrow> nat option" where
  "longest_key D t = (case filter (\<lambda>n. take n t \<in> D) (rev [1..<Suc (length t)]) of [] \<Rightarrow> None | n # _ \<Rightarrow> Some n)"

lemma longest_key_pos: "longest_key D t = Some n \<Longrightarrow> 0 < n \<and> n \<le> length t"
proof -
  assume "longest_key D t = Some n"
  then obtain ns where "filter (\<lambda>n. take n t \<in> D) (rev [1..<Suc (length t)]) = n # ns"
    unfolding longest_key_def by (cases "filter (\<lambda>n. take n t \<in> D) (rev [1..<Suc (length t)])") (simp_all only: list.case option.distinct option.inject)
  then have "n \<in> set (filter (\<lambda>n. take n t \<in> D) (rev [1..<Suc (length t)]))" by (metis list.set_intros(1))
  then show ?thesis by auto
qed

function replace_ref :: "(rune list, rune list) gomap \<Rightarrow> rune list \<Rightarrow> rune list" where
  "replace_ref m t = (if t = [] then [] else case longest_key (set (map fst m) - {[]}) t of
     None \<Rightarrow> hd t # replace_ref m (tl t)
   | Some n \<Rightarrow> gm_get_or [] m (take n t) @ replace_ref m (drop n t))"
  by auto
termination
  by (relation "measure (\<lambda>(m, t). length t)") (auto dest: longest_key_pos)

declare replace_ref.simps [simp del]

text \<open>The occurrences ordered by start, the longest first.\<close>

definition starting :: "rune list set \<Rightarrow> rune list \<Rightarrow> nat \<Rightarrow> scope list" where
  "starting D text s = map (\<lambda>j. \<lparr>start = s, stop = j\<rparr>)
     (filter (\<lambda>j. take (j - s) (drop s text) \<in> D) (rev [Suc s..<Suc (length text)]))"

definition starting_from :: "rune list set \<Rightarrow> rune list \<Rightarrow> nat \<Rightarrow> scope list" where
  "starting_from D text s = concat (map (starting D text) [s..<length text])"

lemma starting_from_split: "s \<le> k \<Longrightarrow> k \<le> length text \<Longrightarrow>
  starting_from D text s = concat (map (starting D text) [s..<k]) @ starting_from D text k"
  unfolding starting_from_def using upt_add_eq_append [of s k "length text - k"] by simp

lemma start_starting: "v \<in> set (starting D text s) \<Longrightarrow> start v = s"
  by (auto simp: starting_def)

lemma starting_longest:
  assumes "s \<le> length text"
  shows "starting D text s = [] \<Longrightarrow> longest_key D (drop s text) = None"
    and "starting D text s = v # vs \<Longrightarrow> longest_key D (drop s text) = Some (stop v - s) \<and> s < stop v \<and> stop v \<le> length text"
proof -
  have "[Suc s..<Suc (length text)] = map (\<lambda>n. n + s) [1..<Suc (length (drop s text))]"
    using assms by (intro nth_equalityI) (simp_all del: upt_Suc)
  then have eq: "map (\<lambda>v. stop v - s) (starting D text s) = filter (\<lambda>n. take n (drop s text) \<in> D) (rev [1..<Suc (length (drop s text))])"
    unfolding starting_def by (simp add: rev_map filter_map comp_def del: upt_Suc)
  show "longest_key D (drop s text) = None" if "starting D text s = []"
    using eq unfolding longest_key_def that by (simp del: upt_Suc)
  assume v: "starting D text s = v # vs"
  have "s < stop v \<and> stop v \<le> length text"
  proof -
    have "v \<in> set (starting D text s)" using v by simp
    then show ?thesis by (auto simp: starting_def)
  qed
  then show "longest_key D (drop s text) = Some (stop v - s) \<and> s < stop v \<and> stop v \<le> length text"
    unfolding longest_key_def eq [symmetric] v by simp
qed

lemma replace_loop_skip: "(\<And>v. v \<in> set xs \<Longrightarrow> start v < index) \<Longrightarrow> replace_loop m chars index (xs @ ys) = replace_loop m chars index ys"
  by (induction xs) simp_all

lemma replace_loop_ok:
  fixes m :: "(rune list, rune list) gomap"
  defines "D \<equiv> set (map fst m) - {[]}"
  assumes "index \<le> s" "s \<le> length chars"
  shows "replace_loop m chars index (starting_from D chars s) = take (s - index) (drop index chars) @ replace_ref m (drop s chars)"
  using assms(2,3)
proof (induction "length chars - s" arbitrary: s index rule: less_induct)
  case less
  note ref = replace_ref.simps [of m "drop s chars", folded D_def]
  show ?case
  proof (cases "s = length chars")
    case True
    then show ?thesis using less(2) by (simp add: starting_from_def replace_ref.simps [of m "[]"])
  next
    case False
    then have lt: "s < length chars" and ne: "drop s chars \<noteq> []" using less(3) by auto
    have from_s: "starting_from D chars s = starting D chars s @ starting_from D chars (Suc s)"
      using starting_from_split [of s "Suc s" chars D] lt by simp
    show ?thesis
    proof (cases "starting D chars s")
      case Nil
      have "replace_ref m (drop s chars) = chars ! s # replace_ref m (drop (Suc s) chars)"
        using ref starting_longest(1) [OF less(3) Nil] ne lt by (simp add: hd_drop_conv_nth tl_drop drop_Suc)
      moreover have "take (Suc s - index) (drop index chars) = take (s - index) (drop index chars) @ [chars ! s]"
        using lt less(2) by (simp add: Suc_diff_le take_Suc_conv_app_nth)
      ultimately show ?thesis using less(1) [of "Suc s" index] less(2) lt Nil from_s by simp
    next
      case (Cons v vs)
      note l = starting_longest(2) [OF less(3) Cons]
      have sv: "start v = s" using start_starting [of v D chars s] Cons by simp
      have skip: "replace_loop m chars (stop v) (vs @ starting_from D chars (Suc s)) = replace_loop m chars (stop v) (starting_from D chars (stop v))"
      proof -
        have "replace_loop m chars (stop v) (vs @ starting_from D chars (Suc s)) = replace_loop m chars (stop v) (starting_from D chars (Suc s))"
          by (rule replace_loop_skip) (use start_starting [of _ D chars s] Cons l in simp)
        also have "\<dots> = replace_loop m chars (stop v) (concat (map (starting D chars) [Suc s..<stop v]) @ starting_from D chars (stop v))"
          using starting_from_split [of "Suc s" "stop v" chars D] l by simp
        also have "\<dots> = replace_loop m chars (stop v) (starting_from D chars (stop v))"
          by (rule replace_loop_skip) (auto dest: start_starting)
        finally show ?thesis .
      qed
      have "replace_loop m chars (stop v) (starting_from D chars (stop v)) = replace_ref m (drop (stop v) chars)"
        using less(1) [of "stop v" "stop v"] l diff_less_mono2 [of s "stop v" "length chars"] by simp
      moreover have "replace_ref m (drop s chars) = gm_get_or [] m (take (stop v - s) (drop s chars)) @ replace_ref m (drop (stop v) chars)"
        using ref l ne by simp
      ultimately show ?thesis using from_s Cons sv skip less(2) by simp
    qed
  qed
qed

text \<open>Sorting the reported occurrences gives them ordered by start.\<close>

lemma set_starting_from: "v \<in> set (starting_from D text 0) \<longleftrightarrow> v \<in> set (occurrences D text)"
proof -
  have "v \<in> set (starting_from D text 0) \<longleftrightarrow> (\<exists>s \<in> {0..<length text}. v \<in> set (starting D text s))"
    unfolding starting_from_def by (simp only: set_concat set_map set_upt) blast
  also have "\<dots> \<longleftrightarrow> start v \<in> {0..<length text} \<and> v \<in> set (starting D text (start v))"
    by (auto dest: start_starting)
  also have "\<dots> \<longleftrightarrow> v \<in> set (occurrences D text)"
    unfolding set_occurrences starting_def by (cases v) auto
  finally show ?thesis .
qed

abbreviation scope_key :: "scope \<Rightarrow> nat \<times> int" where
  "scope_key \<equiv> (\<lambda>s. (start s, - int (stop s)))"

lemma sorted_upto_rev: "sorted_wrt (>) (rev [a..<b])"
  by (simp add: sorted_wrt_rev)

lemma starting_ordered: "sorted_wrt (\<lambda>u v. scope_key u < scope_key v) (starting D text s)"
  unfolding starting_def sorted_wrt_map by (simp add: sorted_wrt_filter sorted_upto_rev del: upt_Suc)

lemma concat_ordered:
  assumes "sorted_wrt (<) ss"
  shows "sorted_wrt (\<lambda>u v. scope_key u < scope_key v) (concat (map (starting D text) ss))"
  using assms
proof (induction ss)
  case (Cons s ss)
  have "scope_key u < scope_key v" if uv: "u \<in> set (starting D text s)" "v \<in> set (concat (map (starting D text) ss))" for u v
  proof -
    obtain s' where "s' \<in> set ss" "v \<in> set (starting D text s')" using uv(2) by auto
    then show ?thesis using Cons.prems start_starting [OF uv(1)] start_starting [of v D "text" s'] by simp
  qed
  then show ?case using Cons starting_ordered [of D "text" s] by (auto simp: sorted_wrt_append)
qed simp

lemma occurrences_at_distinct: "distinct (occurrences_at D text j)"
  unfolding occurrences_at_def by (simp add: distinct_map inj_on_def)

lemma occurrences_distinct: "distinct (occurrences D text)"
proof -
  have "distinct (concat (map (occurrences_at D text) js))" if "distinct js" for js
    using that
  proof (induction js)
    case (Cons j js)
    have "stop v = j'" if "v \<in> set (occurrences_at D text j')" for v j' using that by (auto simp: occurrences_at_def)
    then show ?case using Cons occurrences_at_distinct [of D "text" j] by (auto simp: disjoint_iff)
  qed simp
  then show ?thesis unfolding occurrences_def by (simp del: upt_Suc)
qed

lemma sort_occurrences: "sort_key scope_key (occurrences D text) = starting_from D text 0"
proof -
  let ?xs = "sort_key scope_key (occurrences D text)" and ?ys = "starting_from D text 0"
  have inj: "inj scope_key" by (rule injI) simp
  have o: "sorted_wrt (<) (map scope_key ?ys)" unfolding starting_from_def sorted_wrt_map by (rule concat_ordered) simp
  have "map scope_key ?xs = map scope_key ?ys"
  proof (rule sorted_distinct_set_unique)
    show "sorted (map scope_key ?xs)" by simp
    show "distinct (map scope_key ?xs)" using occurrences_distinct inj by (simp add: distinct_map inj_on_def)
    show "sorted (map scope_key ?ys)" "distinct (map scope_key ?ys)" using o by (simp_all add: strict_sorted_iff)
    show "set (map scope_key ?xs) = set (map scope_key ?ys)" using set_starting_from by auto
  qed
  then show ?thesis using inj by (simp add: inj_map_eq_map)
qed

text \<open>C31: Replacing is two passes of leftmost-longest replacement, whatever the mapping: each pass scans the text once, puts
  the substitute in place of the longest keyword that starts at the current position, and goes on behind it.\<close>

theorem replace_leftmost_longest:
  "case NewReplacer m of
     None \<Rightarrow> False
   | Some r \<Rightarrow> Replace r text = Some (replace_ref m (replace_ref m text))"
proof -
  let ?D = "set (map fst m) - {[]}"
  obtain h W where h: "build (fold (\<lambda>word h. node_add h word) (map fst m) [new_node 0]) = Some h" "automaton h W ?D"
    using automaton_words by blast
  define r where "r = \<lparr>rep_node = h, mapping = m\<rparr>"
  have f: "node_find h t = Some (occurrences ?D t)" for t using find_ok [OF h(2)] by simp
  have loop: "replace_loop m t 0 (starting_from ?D t 0) = replace_ref m t" for t using replace_loop_ok [of 0 0 t m] by simp
  have none: "replace_ref m t = t" if "occurrences ?D t = []" for t
  proof -
    have "starting_from ?D t 0 = []" using sort_occurrences [of ?D t] that by simp
    then show ?thesis using loop [of t] by (cases "t = []") simp_all
  qed
  have "doReplace r t = Some (replace_ref m t, occurrences ?D t \<noteq> [])" for t
    using f [of t] none [of t] loop [of t] sort_occurrences [of ?D t] by (auto simp: doReplace_def r_def)
  then have "Replace r text = Some (replace_ref m (replace_ref m text))"
    using none by (simp add: Replace_def replaceTimes_def numeral_2_eq_2)
  then show ?thesis using h(1) by (simp add: NewReplacer_def r_def)
qed

end
