(* ===== verification/Timing_Wheel.thy ===== *)
theory Timing_Wheel
  imports Go_Prelude
begin

text \<open>
  \<open>src/infra/collection/timingwheel.go\<close>: a wheel of \<open>numSlots\<close> lists of timers, advanced by one slot per
  tick.  A timer more than a turn away carries the number of turns it still has to wait (\<open>circle\<close>); a timer that
  was moved keeps its place and carries the distance to its new place (\<open>diff\<close>), which it goes to when its slot
  comes up.

  Timer entries are shared between a slot list and the table of timers, so they live in a heap (\<open>entries\<close>) and
  the lists and the table hold references (indices).  A \<open>positionEntry\<close> is reachable from the table only and is
  the table's value; the table itself, a \<open>SafeMap\<close>, is a map.  All requests are served by the one goroutine
  of \<open>run\<close>, so an execution is a sequence of requests and ticks.  The operations return the tasks they hand to
  \<open>execute\<close>.
\<close>

section \<open>Data\<close>

record ('k, 'v) timingEntry =
  te_delay :: int
  te_key :: 'k
  te_value :: 'v
  circle :: int
  diff :: int
  removed :: bool

record ('k, 'v) TimingWheel =
  tw_interval :: int
  slots :: "nat list list"
  timers :: "('k, nat \<times> nat) gomap"
  tickedPos :: nat
  numSlots :: nat
  entries :: "('k, 'v) timingEntry list"
  stopped :: bool

datatype tw_error = ErrClosed | ErrArgument | ErrNew

definition NewTimingWheel :: "int \<Rightarrow> int \<Rightarrow> bool \<Rightarrow> tw_error + ('k, 'v) TimingWheel" where
  "NewTimingWheel ival nslots executeNil =
     (if ival \<le> 0 \<or> nslots \<le> 0 \<or> executeNil then Inl ErrNew
      else Inr \<lparr>tw_interval = ival, slots = replicate (nat nslots) [], timers = [], tickedPos = nat nslots - 1,
                numSlots = nat nslots, entries = [], stopped = False\<rparr>)"

section \<open>Serving the requests\<close>

definition getPositionAndCircle :: "int \<Rightarrow> ('k, 'v) TimingWheel \<Rightarrow> nat \<times> int" where
  "getPositionAndCircle d tw =
     (let steps = go_quot d (tw_interval tw)
      in (nat (go_rem (int (tickedPos tw) + steps) (int (numSlots tw))), go_quot (steps - 1) (int (numSlots tw))))"

definition push_slot :: "nat \<Rightarrow> nat \<Rightarrow> ('k, 'v) TimingWheel \<Rightarrow> ('k, 'v) TimingWheel" where
  "push_slot pos r tw = tw\<lparr>slots := (slots tw)[pos := slots tw ! pos @ [r]]\<rparr>"

definition remove_slot :: "nat \<Rightarrow> nat \<Rightarrow> ('k, 'v) TimingWheel \<Rightarrow> ('k, 'v) TimingWheel" where
  "remove_slot pos r tw = tw\<lparr>slots := (slots tw)[pos := remove1 r (slots tw ! pos)]\<rparr>"

definition set_entry :: "nat \<Rightarrow> ('k, 'v) timingEntry \<Rightarrow> ('k, 'v) TimingWheel \<Rightarrow> ('k, 'v) TimingWheel" where
  "set_entry r e tw = tw\<lparr>entries := (entries tw)[r := e]\<rparr>"

definition setTimerPosition :: "nat \<Rightarrow> nat \<Rightarrow> ('k, 'v) TimingWheel \<Rightarrow> ('k, 'v) TimingWheel" where
  "setTimerPosition pos r tw = tw\<lparr>timers := gm_set (te_key (entries tw ! r)) (pos, r) (timers tw)\<rparr>"

text \<open>A new entry is allocated, pushed to its slot and entered in the table.\<close>

definition push_new :: "nat \<Rightarrow> ('k, 'v) timingEntry \<Rightarrow> ('k, 'v) TimingWheel \<Rightarrow> ('k, 'v) TimingWheel" where
  "push_new pos e tw =
     (let r = length (entries tw)
      in setTimerPosition pos r (push_slot pos r (tw\<lparr>entries := entries tw @ [e]\<rparr>)))"

definition moveTask :: "int \<Rightarrow> 'k \<Rightarrow> ('k, 'v) TimingWheel \<Rightarrow> ('k \<times> 'v) list \<times> ('k, 'v) TimingWheel" where
  "moveTask delay key tw =
     (case gm_get (timers tw) key of
        None \<Rightarrow> ([], tw)
      | Some (tpos, r) \<Rightarrow>
          let item = entries tw ! r
          in if delay < tw_interval tw then ([(te_key item, te_value item)], tw)
             else let (pos, c) = getPositionAndCircle delay tw
                  in if pos \<ge> tpos then ([], set_entry r (item\<lparr>circle := c, diff := int pos - int tpos\<rparr>) tw)
                     else if c > 0
                     then ([], set_entry r (item\<lparr>circle := c - 1, diff := int (numSlots tw) + int pos - int tpos\<rparr>) tw)
                     else ([], push_new pos
                                 \<lparr>te_delay = delay, te_key = key, te_value = te_value item, circle = 0, diff = 0, removed = False\<rparr>
                                 (set_entry r (item\<lparr>removed := True\<rparr>) tw)))"

definition removeTask :: "'k \<Rightarrow> ('k, 'v) TimingWheel \<Rightarrow> ('k, 'v) TimingWheel" where
  "removeTask key tw =
     (case gm_get (timers tw) key of
        None \<Rightarrow> tw
      | Some (_, r) \<Rightarrow> (set_entry r ((entries tw ! r)\<lparr>removed := True\<rparr>) tw)\<lparr>timers := gm_del key (timers tw)\<rparr>)"

definition setTask :: "int \<Rightarrow> 'k \<Rightarrow> 'v \<Rightarrow> ('k, 'v) TimingWheel \<Rightarrow> ('k \<times> 'v) list \<times> ('k, 'v) TimingWheel" where
  "setTask delay key val tw =
     (let delay = (if delay < tw_interval tw then tw_interval tw else delay)
      in case gm_get (timers tw) key of
           Some (_, r) \<Rightarrow> moveTask delay key (set_entry r ((entries tw ! r)\<lparr>te_value := val\<rparr>) tw)
         | None \<Rightarrow>
             let (pos, c) = getPositionAndCircle delay tw
             in ([], push_new pos \<lparr>te_delay = delay, te_key = key, te_value = val, circle = c, diff = 0, removed = False\<rparr> tw))"

text \<open>
  The loop over the slot that has come up.  The list iterator takes the successor before it unlinks an element,
  and an element that moves on goes to another slot (its \<open>diff\<close> is less than a turn), so the loop visits
  the elements the slot had at the beginning.
\<close>

definition scan_one :: "nat \<Rightarrow> ('k, 'v) TimingWheel \<Rightarrow> ('k \<times> 'v) list \<times> ('k, 'v) TimingWheel" where
  "scan_one r tw =
     (let task = entries tw ! r; t = tickedPos tw
      in if removed task then ([], remove_slot t r tw)
         else if circle task > 0 then ([], set_entry r (task\<lparr>circle := circle task - 1\<rparr>) tw)
         else if diff task > 0
         then let pos = nat (go_rem (int t + diff task) (int (numSlots tw)))
              in ([], set_entry r (task\<lparr>diff := 0\<rparr>) (setTimerPosition pos r (push_slot pos r (remove_slot t r tw))))
         else ([(te_key task, te_value task)],
               (remove_slot t r tw)\<lparr>timers := gm_del (te_key task) (timers tw)\<rparr>))"

fun scan_loop :: "nat list \<Rightarrow> ('k, 'v) TimingWheel \<Rightarrow> ('k \<times> 'v) list \<Rightarrow> ('k \<times> 'v) list \<times> ('k, 'v) TimingWheel" where
  "scan_loop [] tw tasks = (tasks, tw)"
| "scan_loop (r # rs) tw tasks = (let (ts, tw) = scan_one r tw in scan_loop rs tw (tasks @ ts))"

definition scanAndRunTasks :: "nat list \<Rightarrow> ('k, 'v) TimingWheel \<Rightarrow> ('k \<times> 'v) list \<times> ('k, 'v) TimingWheel" where
  "scanAndRunTasks l tw = scan_loop l tw []"

definition onTick :: "('k, 'v) TimingWheel \<Rightarrow> ('k \<times> 'v) list \<times> ('k, 'v) TimingWheel" where
  "onTick tw =
     (let tw = tw\<lparr>tickedPos := (tickedPos tw + 1) mod numSlots tw\<rparr>
      in scanAndRunTasks (slots tw ! tickedPos tw) tw)"

text \<open>\<open>drainAll\<close> empties the slots; it does not touch the table of timers.\<close>

definition drainAll :: "('k, 'v) TimingWheel \<Rightarrow> ('k \<times> 'v) list \<times> ('k, 'v) TimingWheel" where
  "drainAll tw =
     (map (\<lambda>r. (te_key (entries tw ! r), te_value (entries tw ! r)))
        (filter (\<lambda>r. \<not> removed (entries tw ! r)) (concat (slots tw))),
      tw\<lparr>slots := replicate (length (slots tw)) []\<rparr>)"

section \<open>The interface\<close>

text \<open>
  A request is handed to \<open>run\<close> through a channel; once \<open>Stop\<close> was called nobody receives any more and the
  request fails with \<open>ErrClosed\<close>.  A key is \<^const>\<open>None\<close> when the caller passes \<open>nil\<close>.
\<close>

definition SetTimer :: "'k option \<Rightarrow> 'v \<Rightarrow> int \<Rightarrow> ('k, 'v) TimingWheel \<Rightarrow> tw_error + ('k \<times> 'v) list \<times> ('k, 'v) TimingWheel" where
  "SetTimer key val delay tw =
     (case key of
        None \<Rightarrow> Inl ErrArgument
      | Some k \<Rightarrow> if delay \<le> 0 then Inl ErrArgument else if stopped tw then Inl ErrClosed else Inr (setTask delay k val tw))"

definition MoveTimer :: "'k option \<Rightarrow> int \<Rightarrow> ('k, 'v) TimingWheel \<Rightarrow> tw_error + ('k \<times> 'v) list \<times> ('k, 'v) TimingWheel" where
  "MoveTimer key delay tw =
     (case key of
        None \<Rightarrow> Inl ErrArgument
      | Some k \<Rightarrow> if delay \<le> 0 then Inl ErrArgument else if stopped tw then Inl ErrClosed else Inr (moveTask delay k tw))"

definition RemoveTimer :: "'k option \<Rightarrow> ('k, 'v) TimingWheel \<Rightarrow> tw_error + ('k, 'v) TimingWheel" where
  "RemoveTimer key tw =
     (case key of None \<Rightarrow> Inl ErrArgument | Some k \<Rightarrow> if stopped tw then Inl ErrClosed else Inr (removeTask k tw))"

definition Drain :: "('k, 'v) TimingWheel \<Rightarrow> tw_error + ('k \<times> 'v) list \<times> ('k, 'v) TimingWheel" where
  "Drain tw = (if stopped tw then Inl ErrClosed else Inr (drainAll tw))"

text \<open>Stopping twice closes a closed channel.\<close>

definition Stop :: "('k, 'v) TimingWheel \<Rightarrow> panic + ('k, 'v) TimingWheel" where
  "Stop tw = (if stopped tw then Inl (ExplicitPanic ''close of closed channel'') else Inr (tw\<lparr>stopped := True\<rparr>))"

section \<open>The invariant\<close>

text \<open>
  Which reference is in which slot (\<open>A\<close>), what the table holds (\<open>T\<close>), and the key (\<open>K\<close>) and removed flag
  (\<open>R\<close>) of a reference: every reference is in one slot only, a live entry is the one the table holds for its
  key, and the table holds live entries only.
\<close>

definition linked ::
  "(nat \<Rightarrow> nat \<Rightarrow> bool) \<Rightarrow> ('k \<Rightarrow> (nat \<times> nat) option) \<Rightarrow> (nat \<Rightarrow> 'k) \<Rightarrow> (nat \<Rightarrow> bool) \<Rightarrow> bool" where
  "linked A T K R \<longleftrightarrow>
     (\<forall>p q r. A p r \<longrightarrow> A q r \<longrightarrow> p = q) \<and>
     (\<forall>p r. A p r \<longrightarrow> \<not> R r \<longrightarrow> T (K r) = Some (p, r)) \<and>
     (\<forall>k p r. T k = Some (p, r) \<longrightarrow> A p r \<and> \<not> R r \<and> K r = k)"

lemma linked_cong:
  assumes "linked A T K R" "\<And>p r. A p r \<Longrightarrow> K' r = K r \<and> R' r = R r"
  shows "linked A T K' R'"
  using assms unfolding linked_def by metis

lemma linked_remove:
  assumes "linked A T K R" "T k = Some (p, r)"
  shows "linked A (T(k := None)) K (R(r := True))"
  using assms unfolding linked_def by (simp add: fun_upd_def) (metis option.inject prod.inject)

lemma linked_push:
  assumes "linked A T K R" "T k = None" "\<And>q. \<not> A q r"
  shows "linked (\<lambda>q r'. A q r' \<or> q = p \<and> r' = r) (T(k \<mapsto> (p, r))) (K(r := k)) (R(r := False))"
  using assms unfolding linked_def by (simp add: fun_upd_def) (metis option.distinct(1))

lemma linked_unlink:
  assumes "linked A T K R" "R r"
  shows "linked (\<lambda>q r'. A q r' \<and> r' \<noteq> r) T K R"
  using assms unfolding linked_def by metis

lemma linked_fire:
  assumes "linked A T K R" "T k = Some (p, r)"
  shows "linked (\<lambda>q r'. A q r' \<and> r' \<noteq> r) (T(k := None)) K R"
  using assms unfolding linked_def by (simp add: fun_upd_def) (metis option.inject prod.inject)

lemma linked_move:
  assumes "linked A T K R" "T k = Some (p, r)"
  shows "linked (\<lambda>q' r'. A q' r' \<and> r' \<noteq> r \<or> q' = q \<and> r' = r) (T(k \<mapsto> (q, r))) K R"
  using assms unfolding linked_def by (simp add: fun_upd_def) (metis option.inject prod.inject)

text \<open>The invariant of a wheel.\<close>

definition in_slot :: "nat list list \<Rightarrow> nat \<Rightarrow> nat \<Rightarrow> bool" where
  "in_slot sl p r \<longleftrightarrow> p < length sl \<and> r \<in> set (sl ! p)"

definition entry_ok :: "nat \<Rightarrow> ('k, 'v) timingEntry \<Rightarrow> bool" where
  "entry_ok n e \<longleftrightarrow> 0 \<le> circle e \<and> 0 \<le> diff e \<and> diff e < int n"

definition wheel_ok :: "nat \<Rightarrow> nat list list \<Rightarrow> ('k \<Rightarrow> (nat \<times> nat) option) \<Rightarrow> ('k, 'v) timingEntry list \<Rightarrow> bool" where
  "wheel_ok n sl T es \<longleftrightarrow>
     length sl = n \<and> (\<forall>p<n. distinct (sl ! p)) \<and> (\<forall>p r. in_slot sl p r \<longrightarrow> r < length es \<and> entry_ok n (es ! r)) \<and>
     linked (in_slot sl) T (\<lambda>r. te_key (es ! r)) (\<lambda>r. removed (es ! r))"

lemma in_slot_push: "p < length sl \<Longrightarrow> in_slot (sl[p := sl ! p @ [r]]) q r' \<longleftrightarrow> in_slot sl q r' \<or> q = p \<and> r' = r"
  by (auto simp: in_slot_def nth_list_update)

lemma in_slot_remove:
  "p < length sl \<Longrightarrow> distinct (sl ! p) \<Longrightarrow> in_slot (sl[p := remove1 r (sl ! p)]) q r' \<longleftrightarrow> in_slot sl q r' \<and> \<not> (q = p \<and> r' = r)"
  by (auto simp: in_slot_def nth_list_update)

lemma linked_timer:
  assumes "wheel_ok n sl T es" "T k = Some (p, r)"
  shows "in_slot sl p r" "p < n" "r < length es" "entry_ok n (es ! r)" "\<not> removed (es ! r)" "te_key (es ! r) = k" "in_slot sl q r \<Longrightarrow> q = p"
proof -
  show i: "in_slot sl p r" and "\<not> removed (es ! r)" "te_key (es ! r) = k" and "in_slot sl q r \<Longrightarrow> q = p"
    using assms by (auto simp: wheel_ok_def linked_def)
  then show "p < n" "r < length es" "entry_ok n (es ! r)" using assms(1) by (auto simp: wheel_ok_def in_slot_def)
qed

lemma entry_funs_update:
  assumes "r < length es"
  shows "(\<lambda>i. te_key (es[r := e] ! i)) = (\<lambda>i. te_key (es ! i))(r := te_key e)"
    and "(\<lambda>i. removed (es[r := e] ! i)) = (\<lambda>i. removed (es ! i))(r := removed e)"
  using assms by (auto simp: fun_eq_iff nth_list_update)

lemma wheel_okI:
  assumes "length sl = n" "\<And>p. p < n \<Longrightarrow> distinct (sl ! p)"
    and "\<And>p r. in_slot sl p r \<Longrightarrow> r < length es" "\<And>p r. in_slot sl p r \<Longrightarrow> entry_ok n (es ! r)"
    and "linked (in_slot sl) T (\<lambda>r. te_key (es ! r)) (\<lambda>r. removed (es ! r))"
  shows "wheel_ok n sl T es"
  using assms by (simp add: wheel_ok_def)

lemma wheel_okD:
  assumes "wheel_ok n sl T es"
  shows "length sl = n" "p < n \<Longrightarrow> distinct (sl ! p)"
    and "in_slot sl p r \<Longrightarrow> r < length es" "in_slot sl p r \<Longrightarrow> entry_ok n (es ! r)"
    and "linked (in_slot sl) T (\<lambda>r. te_key (es ! r)) (\<lambda>r. removed (es ! r))"
  using assms by (simp_all add: wheel_ok_def)

lemma ok_update:
  assumes ok: "wheel_ok n sl T es" and T: "T k = Some (p, r)" and e: "te_key e = k" "\<not> removed e" "entry_ok n e"
  shows "wheel_ok n sl T (es[r := e])"
proof -
  note t = linked_timer [OF ok T] and w = wheel_okD [OF ok]
  have "(\<lambda>i. te_key (es ! i))(r := te_key e) = (\<lambda>i. te_key (es ! i))" "(\<lambda>i. removed (es ! i))(r := removed e) = (\<lambda>i. removed (es ! i))"
    using t(5,6) e(1,2) by (simp_all add: fun_eq_iff)
  then have l: "linked (in_slot sl) T (\<lambda>i. te_key (es[r := e] ! i)) (\<lambda>i. removed (es[r := e] ! i))"
    using w(5) unfolding entry_funs_update [OF t(3)] by simp
  show ?thesis
    using w(1,2,3,4) t(3) e(3) by (intro wheel_okI l) (simp_all add: nth_list_update)
qed

lemma ok_remove:
  assumes ok: "wheel_ok n sl T es" and T: "T k = Some (p, r)"
  shows "wheel_ok n sl (T(k := None)) (es[r := (es ! r)\<lparr>removed := True\<rparr>])"
proof -
  note t = linked_timer [OF ok T] and w = wheel_okD [OF ok]
  have "(\<lambda>i. te_key (es ! i))(r := te_key ((es ! r)\<lparr>removed := True\<rparr>)) = (\<lambda>i. te_key (es ! i))" by (simp add: fun_eq_iff)
  then have l: "linked (in_slot sl) (T(k := None)) (\<lambda>i. te_key (es[r := (es ! r)\<lparr>removed := True\<rparr>] ! i))
      (\<lambda>i. removed (es[r := (es ! r)\<lparr>removed := True\<rparr>] ! i))"
    using linked_remove [OF w(5) T] unfolding entry_funs_update [OF t(3)] by simp
  show ?thesis
    using w(1,2,3,4) t(3,4) by (intro wheel_okI l) (simp_all add: nth_list_update entry_ok_def)
qed

lemma ok_push_new:
  assumes ok: "wheel_ok n sl T es" and T: "T k = None" and p: "p < n" and e: "te_key e = k" "\<not> removed e" "entry_ok n e"
  shows "wheel_ok n (sl[p := sl ! p @ [length es]]) (T(k \<mapsto> (p, length es))) (es @ [e])"
proof -
  let ?r = "length es"
  note w = wheel_okD [OF ok]
  have A: "in_slot (sl[p := sl ! p @ [?r]]) = (\<lambda>q r'. in_slot sl q r' \<or> q = p \<and> r' = ?r)"
    using p w(1) by (simp add: fun_eq_iff in_slot_push)
  have fresh: "\<not> in_slot sl q ?r" for q using w(3) [of q ?r] by blast
  have lt: "(es @ [e]) ! r = es ! r" if "in_slot sl q r" for q r using w(3) [OF that] by (simp add: nth_append)
  have "linked (\<lambda>q r'. in_slot sl q r' \<or> q = p \<and> r' = ?r) (T(k \<mapsto> (p, ?r))) (\<lambda>r. te_key ((es @ [e]) ! r)) (\<lambda>r. removed ((es @ [e]) ! r))"
    by (rule linked_cong [OF linked_push [OF w(5) T fresh]]) (use lt e fresh in auto)
  then show ?thesis
    unfolding A [symmetric]
  proof (rule wheel_okI [rotated -1])
    show "distinct (sl[p := sl ! p @ [?r]] ! q)" if "q < n" for q
      using that p w(1,2) fresh [of q] by (auto simp: nth_list_update in_slot_def)
  qed (use w(1,3,4) lt e(3) in \<open>auto simp: A less_SucI\<close>)
qed

lemma ok_remove_slot:
  assumes ok: "wheel_ok n sl T es" and t: "in_slot sl t r"
  shows "in_slot (sl[t := remove1 r (sl ! t)]) = (\<lambda>q r'. in_slot sl q r' \<and> r' \<noteq> r)"
    and "p < n \<Longrightarrow> distinct (sl[t := remove1 r (sl ! t)] ! p)"
proof -
  note w = wheel_okD [OF ok]
  have lt: "t < length sl" using t by (simp add: in_slot_def)
  have u: "q = t" if "in_slot sl q r" for q using w(5) t that unfolding linked_def by blast
  show "in_slot (sl[t := remove1 r (sl ! t)]) = (\<lambda>q r'. in_slot sl q r' \<and> r' \<noteq> r)"
    unfolding fun_eq_iff in_slot_remove [OF lt w(2) [OF lt [unfolded w(1)]]] using u by blast
  show "p < n \<Longrightarrow> distinct (sl[t := remove1 r (sl ! t)] ! p)" using w(1,2) lt by (simp add: nth_list_update)
qed

lemma ok_unlink_dead:
  assumes ok: "wheel_ok n sl T es" and t: "in_slot sl t r" "removed (es ! r)"
  shows "wheel_ok n (sl[t := remove1 r (sl ! t)]) T es"
  using wheel_okD(1,3,4) [OF ok] linked_unlink [OF wheel_okD(5) [OF ok], of r] t(2)
  by (intro wheel_okI; simp add: ok_remove_slot [OF ok t(1)]; blast)

lemma ok_fire:
  assumes ok: "wheel_ok n sl T es" and T: "T k = Some (t, r)"
  shows "wheel_ok n (sl[t := remove1 r (sl ! t)]) (T(k := None)) es"
  using wheel_okD(1,3,4) [OF ok] linked_fire [OF wheel_okD(5) [OF ok] T]
  by (intro wheel_okI; simp add: ok_remove_slot [OF ok linked_timer(1) [OF ok T]]; blast)

lemma ok_move:
  assumes ok: "wheel_ok n sl T es" and T: "T k = Some (t, r)" and q: "q < n" "q \<noteq> t"
    and e: "te_key e = k" "\<not> removed e" "entry_ok n e"
  shows "wheel_ok n (sl[t := remove1 r (sl ! t), q := sl ! q @ [r]]) (T(k \<mapsto> (q, r))) (es[r := e])"
proof -
  note t = linked_timer [OF ok T] and w = wheel_okD [OF ok]
  let ?s = "sl[t := remove1 r (sl ! t)]"
  note rs = ok_remove_slot [OF ok t(1)]
  have sq: "?s ! q = sl ! q" using q(2) by simp
  have A: "in_slot (?s[q := sl ! q @ [r]]) = (\<lambda>q' r'. in_slot sl q' r' \<and> r' \<noteq> r \<or> q' = q \<and> r' = r)"
    using in_slot_push [of q ?s r] q(1) w(1) unfolding sq rs(1) by (simp add: fun_eq_iff)
  have "linked (\<lambda>q' r'. in_slot sl q' r' \<and> r' \<noteq> r \<or> q' = q \<and> r' = r) (T(k \<mapsto> (q, r)))
      (\<lambda>i. te_key (es[r := e] ! i)) (\<lambda>i. removed (es[r := e] ! i))"
    by (rule linked_cong [OF linked_move [OF w(5) T]]) (use t(3,5,6) e(1,2) in \<open>clarsimp simp: nth_list_update\<close>)
  then show ?thesis
    unfolding A [symmetric]
  proof (rule wheel_okI [rotated -1])
    show "distinct (?s[q := sl ! q @ [r]] ! p)" if "p < n" for p
      using rs(2) [OF that] w(1,2) t(7) [of q] q that by (cases "p = q") (auto simp: in_slot_def)
    show "r' < length (es[r := e])" if "in_slot (?s[q := sl ! q @ [r]]) p r'" for p r'
      using that w(3) [of p r'] t(3) unfolding A by auto
    show "entry_ok n (es[r := e] ! r')" if "in_slot (?s[q := sl ! q @ [r]]) p r'" for p r'
      using that w(4) [of p r'] t(3) e(3) unfolding A by (cases "r' = r") auto
  qed (simp add: w(1))
qed

definition tw_inv :: "('k, 'v) TimingWheel \<Rightarrow> bool" where
  "tw_inv tw \<longleftrightarrow>
     wheel_ok (numSlots tw) (slots tw) (gm_get (timers tw)) (entries tw) \<and> 0 < tw_interval tw \<and> tickedPos tw < numSlots tw"

lemmas wheel_defs = push_slot_def remove_slot_def set_entry_def setTimerPosition_def push_new_def

section \<open>Scanning a slot\<close>

text \<open>What the table says of a key: the slot, the value, the turns to wait and the distance to go.\<close>

definition timer_of :: "('k, 'v) TimingWheel \<Rightarrow> 'k \<Rightarrow> (nat \<times> 'v \<times> int \<times> int) option" where
  "timer_of tw k =
     (case gm_get (timers tw) k of
        None \<Rightarrow> None
      | Some (p, r) \<Rightarrow> Some (p, te_value (entries tw ! r), circle (entries tw ! r), diff (entries tw ! r)))"

definition pending :: "nat list \<Rightarrow> ('k, 'v) TimingWheel \<Rightarrow> 'k \<Rightarrow> bool" where
  "pending rs tw k \<longleftrightarrow> (\<exists>p r. gm_get (timers tw) k = Some (p, r) \<and> r \<in> set rs)"

definition same_wheel :: "('k, 'v) TimingWheel \<Rightarrow> ('k, 'v) TimingWheel \<Rightarrow> bool" where
  "same_wheel tw tw' \<longleftrightarrow> tw_interval tw' = tw_interval tw \<and> tickedPos tw' = tickedPos tw \<and> numSlots tw' = numSlots tw"

definition scanned :: "('k, 'v) TimingWheel \<Rightarrow> nat \<times> 'v \<times> int \<times> int \<Rightarrow> (nat \<times> 'v \<times> int \<times> int) option" where
  "scanned tw e =
     (case e of (p, v, c, d) \<Rightarrow>
        if c > 0 then Some (p, v, c - 1, d)
        else if d > 0 then Some (nat ((int (tickedPos tw) + d) mod int (numSlots tw)), v, c, 0)
        else None)"

text \<open>One iteration treats the key of its entry and leaves every other key and every other entry alone.\<close>

lemma scan_one_dead:
  assumes "tw_inv tw" "in_slot (slots tw) (tickedPos tw) r" "removed (entries tw ! r)"
  shows "scan_one r tw = ([], remove_slot (tickedPos tw) r tw)" "tw_inv (remove_slot (tickedPos tw) r tw)"
  using assms ok_unlink_dead [of "numSlots tw" "slots tw" "gm_get (timers tw)" "entries tw" "tickedPos tw" r]
  by (simp_all add: scan_one_def tw_inv_def remove_slot_def Let_def)

text \<open>The three things that can happen to a live entry.\<close>

definition treats :: "nat \<Rightarrow> 'k \<Rightarrow> ('k, 'v) TimingWheel \<Rightarrow> ('k, 'v) TimingWheel \<Rightarrow> bool" where
  "treats r k tw tw' \<longleftrightarrow>
     tw_inv tw' \<and> same_wheel tw tw' \<and> timer_of tw' k = scanned tw (the (timer_of tw k)) \<and>
     (\<forall>k'. k' \<noteq> k \<longrightarrow> gm_get (timers tw') k' = gm_get (timers tw) k') \<and>
     (\<forall>r'. r' \<noteq> r \<longrightarrow> entries tw' ! r' = entries tw ! r' \<and>
        in_slot (slots tw') (tickedPos tw) r' = in_slot (slots tw) (tickedPos tw) r') \<and>
     (\<forall>p r'. gm_get (timers tw') k = Some (p, r') \<longrightarrow> r' = r)"

lemma live_timer:
  assumes "tw_inv tw" "in_slot (slots tw) p r" "\<not> removed (entries tw ! r)"
  shows "gm_get (timers tw) (te_key (entries tw ! r)) = Some (p, r)"
  using assms by (simp add: tw_inv_def wheel_ok_def linked_def)

lemma treats_wait:
  assumes inv: "tw_inv tw" and T: "gm_get (timers tw) k = Some (tickedPos tw, r)" and c: "circle (entries tw ! r) > 0"
  shows "treats r k tw (set_entry r ((entries tw ! r)\<lparr>circle := circle (entries tw ! r) - 1\<rparr>) tw)"
proof -
  from inv have ok: "wheel_ok (numSlots tw) (slots tw) (gm_get (timers tw)) (entries tw)" by (simp add: tw_inv_def)
  note t = linked_timer [OF ok T]
  have "wheel_ok (numSlots tw) (slots tw) (gm_get (timers tw)) ((entries tw)[r := (entries tw ! r)\<lparr>circle := circle (entries tw ! r) - 1\<rparr>])"
    by (rule ok_update [OF ok T]) (use t(4-6) c in \<open>simp_all add: entry_ok_def\<close>)
  then show ?thesis using inv T t(3) c
    by (simp add: treats_def tw_inv_def same_wheel_def timer_of_def scanned_def set_entry_def)
qed

lemma treats_fire:
  assumes inv: "tw_inv tw" and T: "gm_get (timers tw) k = Some (tickedPos tw, r)"
    and c: "circle (entries tw ! r) \<le> 0" "diff (entries tw ! r) \<le> 0"
  shows "treats r k tw ((remove_slot (tickedPos tw) r tw)\<lparr>timers := gm_del k (timers tw)\<rparr>)"
proof -
  from inv have ok: "wheel_ok (numSlots tw) (slots tw) (gm_get (timers tw)) (entries tw)" by (simp add: tw_inv_def)
  note t = linked_timer [OF ok T]
  have "wheel_ok (numSlots tw) ((slots tw)[tickedPos tw := remove1 r (slots tw ! tickedPos tw)]) (gm_get (gm_del k (timers tw))) (entries tw)"
    using ok_fire [OF ok T] by (simp only: gm_get_fun)
  then show ?thesis using inv T t(3) c ok_remove_slot(1) [OF ok t(1)]
    by (simp add: treats_def tw_inv_def same_wheel_def timer_of_def scanned_def remove_slot_def gomap_simps)
qed

lemma treats_move:
  assumes inv: "tw_inv tw" and T: "gm_get (timers tw) k = Some (tickedPos tw, r)"
    and c: "circle (entries tw ! r) \<le> 0" "diff (entries tw ! r) > 0"
    and pos: "pos = nat (go_rem (int (tickedPos tw) + diff (entries tw ! r)) (int (numSlots tw)))"
  shows "treats r k tw (set_entry r ((entries tw ! r)\<lparr>diff := 0\<rparr>) (setTimerPosition pos r (push_slot pos r (remove_slot (tickedPos tw) r tw))))"
proof -
  let ?t = "tickedPos tw" and ?n = "numSlots tw" and ?d = "diff (entries tw ! r)"
  from inv have ok: "wheel_ok ?n (slots tw) (gm_get (timers tw)) (entries tw)" and t: "?t < ?n" by (simp_all add: tw_inv_def)
  note l = linked_timer [OF ok T]
  have pos': "pos = nat ((int ?t + ?d) mod int ?n)" using c t pos by simp
  have d: "?d < int ?n" using l(4) by (simp add: entry_ok_def)
  have q: "pos < ?n" using t by (simp add: pos' nat_less_iff)
  have ne: "pos \<noteq> ?t"
  proof
    assume "pos = ?t"
    then have "int pos = int ?t mod int ?n" using t by simp
    then have "(int ?t + ?d) mod int ?n = int ?t mod int ?n" using t by (simp add: pos')
    then have "?d mod int ?n = 0" by (metis add_diff_cancel_left' mod_eq_dvd_iff dvd_eq_mod_eq_0)
    with c(2) d show False by simp
  qed
  have "wheel_ok ?n ((slots tw)[?t := remove1 r (slots tw ! ?t), pos := slots tw ! pos @ [r]]) (gm_get (gm_set k (pos, r) (timers tw)))
      ((entries tw)[r := (entries tw ! r)\<lparr>diff := 0\<rparr>])"
    using ok_move [OF ok T q ne, of "(entries tw ! r)\<lparr>diff := 0\<rparr>"] l(4-6) by (simp add: gm_get_fun entry_ok_def)
  moreover have "in_slot ((slots tw)[?t := remove1 r (slots tw ! ?t), pos := slots tw ! pos @ [r]]) ?t r' = in_slot (slots tw) ?t r'" if "r' \<noteq> r" for r'
    using that ne wheel_okD(1,2) [OF ok] t by (simp add: in_slot_def)
  ultimately show ?thesis using inv T l(3,6) c pos' ne
    by (simp add: treats_def tw_inv_def same_wheel_def timer_of_def scanned_def wheel_defs gomap_simps)
qed

lemma scan_one_live:
  assumes inv: "tw_inv tw" and r: "in_slot (slots tw) (tickedPos tw) r" "\<not> removed (entries tw ! r)"
    and k: "k = te_key (entries tw ! r)"
  shows "treats r k tw (snd (scan_one r tw))"
    and "fst (scan_one r tw) =
      (if circle (entries tw ! r) \<le> 0 \<and> diff (entries tw ! r) \<le> 0 then [(k, te_value (entries tw ! r))] else [])"
proof -
  let ?e = "entries tw ! r"
  have T: "gm_get (timers tw) k = Some (tickedPos tw, r)" using live_timer [OF inv r] k by simp
  consider (w) "circle ?e > 0" | (f) "circle ?e \<le> 0" "diff ?e \<le> 0" | (m) "circle ?e \<le> 0" "diff ?e > 0" by linarith
  then have "treats r k tw (snd (scan_one r tw)) \<and>
      fst (scan_one r tw) = (if circle ?e \<le> 0 \<and> diff ?e \<le> 0 then [(k, te_value ?e)] else [])"
  proof cases
    case w
    with treats_wait [OF inv T] r(2) show ?thesis by (simp add: scan_one_def Let_def)
  next
    case f
    with treats_fire [OF inv T] r(2) k show ?thesis by (simp add: scan_one_def Let_def)
  next
    case m
    with treats_move [OF inv T m refl] r(2) k show ?thesis by (simp add: scan_one_def Let_def)
  qed
  then show "treats r k tw (snd (scan_one r tw))"
    and "fst (scan_one r tw) = (if circle ?e \<le> 0 \<and> diff ?e \<le> 0 then [(k, te_value ?e)] else [])" by blast+
qed

lemma treats_others:
  assumes "treats r k tw tw'" "tw_inv tw" "k = te_key (entries tw ! r)" "k' \<noteq> k"
  shows "timer_of tw' k' = timer_of tw k'" "pending rs tw' k' = pending rs tw k'"
proof -
  have g: "gm_get (timers tw') k' = gm_get (timers tw) k'" using assms(1,4) by (simp add: treats_def)
  have ne: "r' \<noteq> r" if "gm_get (timers tw) k' = Some (p, r')" for p r'
    using linked_timer(6) [of "numSlots tw" "slots tw" "gm_get (timers tw)" "entries tw" k' p r'] that assms(2,3,4)
    by (auto simp: tw_inv_def)
  then show "timer_of tw' k' = timer_of tw k'"
    using g assms(1) by (auto simp: timer_of_def treats_def split: option.split)
  show "pending rs tw' k' = pending rs tw k'" using g by (simp add: pending_def)
qed

lemma scan_loop_correct:
  assumes "tw_inv tw" "distinct rs" "\<And>r. r \<in> set rs \<Longrightarrow> in_slot (slots tw) (tickedPos tw) r"
  shows "\<exists>new. fst (scan_loop rs tw tasks) = tasks @ new \<and> distinct (map fst new) \<and>
      set new = {(k, v). pending rs tw k \<and> (\<exists>p c d. timer_of tw k = Some (p, v, c, d) \<and> c \<le> 0 \<and> d \<le> 0)} \<and>
      tw_inv (snd (scan_loop rs tw tasks)) \<and> same_wheel tw (snd (scan_loop rs tw tasks)) \<and>
      (\<forall>k. timer_of (snd (scan_loop rs tw tasks)) k = (if pending rs tw k then scanned tw (the (timer_of tw k)) else timer_of tw k))"
  using assms
proof (induction rs arbitrary: tw tasks)
  case Nil
  then show ?case by (auto simp: pending_def same_wheel_def)
next
  case (Cons r rs)
  obtain ts tw1 where s: "scan_one r tw = (ts, tw1)" by (cases "scan_one r tw")
  have r: "in_slot (slots tw) (tickedPos tw) r" and rs: "distinct rs" "r \<notin> set rs" using Cons.prems by auto
  let ?k = "te_key (entries tw ! r)"
  have T: "wheel_ok (numSlots tw) (slots tw) (gm_get (timers tw)) (entries tw)" using Cons.prems(1) by (simp add: tw_inv_def)
  show ?case
  proof (cases "removed (entries tw ! r)")
    case True
    note d = scan_one_dead [OF Cons.prems(1) r True]
    with s have tw1: "tw1 = remove_slot (tickedPos tw) r tw" "ts = []" by auto
    have pend: "pending (r # rs) tw k \<longleftrightarrow> pending rs tw1 k" for k
      using linked_timer(5) [OF T, of k _ r] True unfolding pending_def tw1 remove_slot_def by auto
    have other: "timer_of tw1 k = timer_of tw k" "same_wheel tw tw1" for k
      by (cases "gm_get (timers tw) k"; auto simp: tw1 remove_slot_def timer_of_def same_wheel_def)+
    have "in_slot (slots tw1) (tickedPos tw1) r'" if "r' \<in> set rs" for r'
      using ok_remove_slot(1) [OF T r] Cons.prems(3) [of r'] that rs(2) by (auto simp: tw1 remove_slot_def)
    from Cons.IH [OF _ rs(1) this, of tasks] d(2) tw1(1)
    have "\<exists>new. fst (scan_loop rs tw1 tasks) = tasks @ new \<and> distinct (map fst new) \<and>
      set new = {(k, v). pending rs tw1 k \<and> (\<exists>p c d. timer_of tw1 k = Some (p, v, c, d) \<and> c \<le> 0 \<and> d \<le> 0)} \<and>
      tw_inv (snd (scan_loop rs tw1 tasks)) \<and> same_wheel tw1 (snd (scan_loop rs tw1 tasks)) \<and>
      (\<forall>k. timer_of (snd (scan_loop rs tw1 tasks)) k = (if pending rs tw1 k then scanned tw1 (the (timer_of tw1 k)) else timer_of tw1 k))"
      by blast
    moreover have "timer_of tw1 = timer_of tw" "scanned tw1 = scanned tw" "same_wheel tw1 = same_wheel tw" "pending (r # rs) tw = pending rs tw1"
      using other pend by (auto simp: fun_eq_iff scanned_def same_wheel_def)
    moreover have "scan_loop (r # rs) tw tasks = scan_loop rs tw1 tasks" using s tw1(2) by simp
    ultimately show ?thesis by (simp only: simp_thms)
  next
    case False
    note l = scan_one_live [OF Cons.prems(1) r False refl]
    have t: "treats r ?k tw tw1" using l(1) s by simp
    have T1: "gm_get (timers tw) ?k = Some (tickedPos tw, r)" by (rule live_timer [OF Cons.prems(1) r False])
    have k1: "\<not> pending rs tw1 ?k" "pending (r # rs) tw ?k"
      using t rs(2) T1 unfolding pending_def treats_def by auto
    have pend: "pending (r # rs) tw k \<longleftrightarrow> pending rs tw1 k" if "k \<noteq> ?k" for k
      using treats_others(2) [OF t Cons.prems(1) refl that, of rs] linked_timer(6) [OF T, of k _ r] that unfolding pending_def by auto
    have i: "in_slot (slots tw1) (tickedPos tw1) r'" if "r' \<in> set rs" for r'
      using t Cons.prems(3) [of r'] that rs(2) unfolding treats_def same_wheel_def by (metis list.set_intros(2))
    have inv1: "tw_inv tw1" and sw: "same_wheel tw tw1" and tk: "timer_of tw1 ?k = scanned tw (the (timer_of tw ?k))"
      using t by (simp_all add: treats_def)
    have sc: "scanned tw1 = scanned tw" using sw by (simp add: fun_eq_iff scanned_def same_wheel_def)
    from Cons.IH [OF inv1 rs(1) i, of "tasks @ ts"] obtain new where new:
      "fst (scan_loop rs tw1 (tasks @ ts)) = (tasks @ ts) @ new" "distinct (map fst new)"
      "set new = {(k, v). pending rs tw1 k \<and> (\<exists>p c d. timer_of tw1 k = Some (p, v, c, d) \<and> c \<le> 0 \<and> d \<le> 0)}"
      "tw_inv (snd (scan_loop rs tw1 (tasks @ ts)))" "same_wheel tw1 (snd (scan_loop rs tw1 (tasks @ ts)))"
      "\<And>k. timer_of (snd (scan_loop rs tw1 (tasks @ ts))) k = (if pending rs tw1 k then scanned tw1 (the (timer_of tw1 k)) else timer_of tw1 k)"
      by blast
    have ts: "set ts = {(k, v). k = ?k \<and> (\<exists>p c d. timer_of tw k = Some (p, v, c, d) \<and> c \<le> 0 \<and> d \<le> 0)}"
      using l(2) s T1 by (auto simp: timer_of_def split: if_splits)
    have d: "distinct (map fst (ts @ new))"
      using new(2,3) k1(1) l(2) s by auto
    have st: "set (ts @ new) = {(k, v). pending (r # rs) tw k \<and> (\<exists>p c d. timer_of tw k = Some (p, v, c, d) \<and> c \<le> 0 \<and> d \<le> 0)}"
      (is "_ = ?R")
    proof (rule set_eqI)
      fix kv :: "'a \<times> 'b"
      obtain k v where kv: "kv = (k, v)" by (cases kv)
      show "kv \<in> set (ts @ new) \<longleftrightarrow> kv \<in> ?R"
        using ts new(3) k1 pend [of k] treats_others(1) [OF t Cons.prems(1) refl, of k] by (cases "k = ?k") (simp_all add: kv)
    qed
    have tm: "timer_of (snd (scan_loop rs tw1 (tasks @ ts))) k = (if pending (r # rs) tw k then scanned tw (the (timer_of tw k)) else timer_of tw k)" for k
      using new(6) [of k] k1 pend [of k] tk treats_others(1) [OF t Cons.prems(1) refl, of k] by (cases "k = ?k") (simp_all add: sc)
    show ?thesis
      using new(1,4,5) d st tm sw s by (intro exI [of _ "ts @ new"]) (simp add: same_wheel_def)
  qed
qed

section \<open>When a timer fires\<close>

text \<open>The ticks until slot \<open>p\<close> comes up, between 1 and a whole turn.\<close>

definition ahead :: "nat \<Rightarrow> nat \<Rightarrow> nat \<Rightarrow> int" where
  "ahead n t p = (int p - int t - 1) mod int n + 1"

definition remaining :: "('k, 'v) TimingWheel \<Rightarrow> 'k \<Rightarrow> ('v \<times> int) option" where
  "remaining tw k =
     (case timer_of tw k of
        None \<Rightarrow> None
      | Some (p, v, c, d) \<Rightarrow> Some (v, ahead (numSlots tw) (tickedPos tw) p + int (numSlots tw) * c + d))"

lemma dist_bounds:
  assumes "0 < n"
  shows "1 \<le> ahead n t p \<and> ahead n t p \<le> int n"
  using assms pos_mod_bound [of "int n" "int p - int t - 1"] pos_mod_sign [of "int n" "int p - int t - 1"]
  unfolding ahead_def by linarith

lemma mod_pred:
  assumes "0 < (n :: int)"
  shows "(x - 1) mod n = (if x mod n = 0 then n - 1 else x mod n - 1)"
proof (cases "x mod n = 0")
  case True
  have "(x - 1) mod n = (x mod n - 1) mod n" by (rule mod_diff_left_eq [symmetric])
  with True zmod_minus1 [OF assms] show ?thesis by simp
next
  case False
  then have "0 \<le> x mod n - 1 \<and> x mod n - 1 < n" using pos_mod_bound [OF assms, of x] pos_mod_sign [OF assms, of x] by linarith
  then have "(x mod n - 1) mod n = x mod n - 1" by (simp add: mod_pos_pos_trivial)
  with False show ?thesis by (simp add: mod_diff_left_eq)
qed

lemma dist_tick:
  assumes "t < n" "p < n"
  shows "ahead n ((t + 1) mod n) p = (if p = (t + 1) mod n then int n else ahead n t p - 1)"
    and "p = (t + 1) mod n \<longleftrightarrow> ahead n t p = 1"
proof -
  let ?x = "int p - int t - 1"
  have "(int p - int ((t + 1) mod n) - 1) mod int n = (?x - 1) mod int n"
    using mod_diff_right_eq [of "int p - 1" "int t + 1" "int n"] by (simp add: zmod_int algebra_simps)
  then have d: "ahead n ((t + 1) mod n) p = (if ?x mod int n = 0 then int n else ?x mod int n)"
    using assms mod_pred [of "int n" ?x] by (simp add: ahead_def)
  have "?x mod int n = 0 \<longleftrightarrow> int p mod int n = (int t + 1) mod int n"
    by (metis diff_diff_eq dvd_eq_mod_eq_0 mod_eq_dvd_iff)
  also have "\<dots> \<longleftrightarrow> int p = int ((t + 1) mod n)" using assms by (simp add: zmod_int add.commute)
  finally have e: "?x mod int n = 0 \<longleftrightarrow> p = (t + 1) mod n" by simp
  then show "p = (t + 1) mod n \<longleftrightarrow> ahead n t p = 1" by (auto simp: ahead_def)
  from d e show "ahead n ((t + 1) mod n) p = (if p = (t + 1) mod n then int n else ahead n t p - 1)"
    by (simp add: ahead_def)
qed

lemma dist_ahead:
  assumes "0 < n" "1 \<le> s" "pos = nat ((int t + s) mod int n)"
  shows "ahead n t pos = (s - 1) mod int n + 1"
proof -
  have "int pos = (int t + s) mod int n" using assms by simp
  with mod_diff_left_eq [of "int t + s" "int n" "int t + 1"] show ?thesis by (simp add: ahead_def diff_diff_eq)
qed

lemma timer_bounds:
  assumes "tw_inv tw" "timer_of tw k = Some (p, v, c, d)"
  shows "p < numSlots tw" "0 \<le> c" "0 \<le> d" "d < int (numSlots tw)"
  using assms linked_timer(2,4) [of "numSlots tw" "slots tw" "gm_get (timers tw)" "entries tw" k]
  by (auto simp: tw_inv_def timer_of_def entry_ok_def split: option.splits)

text \<open>One tick brings every timer one tick nearer.\<close>

lemma tick_one:
  assumes inv: "tw_inv tw" and e: "timer_of tw k = Some (p, v, c, d)" and t': "t' = (tickedPos tw + 1) mod numSlots tw"
    and tw': "tickedPos tw' = t'" "numSlots tw' = numSlots tw"
    and s: "timer_of tw' k = (if p = t' then scanned (tw\<lparr>tickedPos := t'\<rparr>) (p, v, c, d) else Some (p, v, c, d))"
  shows "remaining tw k = Some (v, 1) \<longleftrightarrow> p = t' \<and> c \<le> 0 \<and> d \<le> 0"
    and "remaining tw' k = (case remaining tw k of None \<Rightarrow> None | Some (v, d) \<Rightarrow> if d = 1 then None else Some (v, d - 1))"
proof -
  let ?n = "numSlots tw" and ?t = "tickedPos tw"
  have n: "?t < ?n" "0 < ?n" using inv by (auto simp: tw_inv_def)
  note b = timer_bounds [OF inv e]
  note dt = dist_tick [OF n(1) b(1)]
  have db: "1 \<le> ahead ?n ?t p" using dist_bounds [OF n(2)] by simp
  have r: "remaining tw k = Some (v, ahead ?n ?t p + int ?n * c + d)" by (simp add: remaining_def e)
  have nc: "c > 0 \<Longrightarrow> int ?n \<le> int ?n * c" "c \<le> 0 \<Longrightarrow> int ?n * c = 0" using n(2) b(2) by simp_all
  show one: "remaining tw k = Some (v, 1) \<longleftrightarrow> p = t' \<and> c \<le> 0 \<and> d \<le> 0"
  proof (cases "c > 0")
    case True
    with nc(1) db b(3) n(2) have "ahead ?n ?t p + int ?n * c + d \<noteq> 1" by linarith
    with r True show ?thesis by simp
  next
    case False
    with r dt(2) db b(3) nc(2) t' show ?thesis by auto
  qed
  show "remaining tw' k = (case remaining tw k of None \<Rightarrow> None | Some (v, d) \<Rightarrow> if d = 1 then None else Some (v, d - 1))"
  proof (cases "p = t'")
    case False
    then show ?thesis using s r one dt(1) tw' unfolding t' by (auto simp: remaining_def)
  next
    case True
    then have p1: "ahead ?n ?t p = 1" "ahead ?n t' p = int ?n" using dt t' by auto
    consider "c > 0" | "c \<le> 0" "d > 0" | "c \<le> 0" "d \<le> 0" by linarith
    then show ?thesis
    proof cases
      case 1
      then have "int ?n * c + d \<noteq> 0" using nc(1) b(3) n(2) by linarith
      then show ?thesis using 1 s r True p1 tw' by (simp add: remaining_def scanned_def right_diff_distrib)
    next
      case 2
      let ?q = "nat ((int t' + d) mod int ?n)"
      have "ahead ?n t' ?q = (d - 1) mod int ?n + 1" using dist_ahead [OF n(2), of d ?q t'] 2 by simp
      also have "\<dots> = d" using 2 b(4) by simp
      finally show ?thesis using s r True p1 tw' nc 2 by (simp add: remaining_def scanned_def)
    next
      case 3
      then show ?thesis using s r True p1 nc b(3) by (simp add: remaining_def scanned_def)
    qed
  qed
qed

lemma onTick_correct:
  assumes "tw_inv tw"
  shows "tw_inv (snd (onTick tw))" and "numSlots (snd (onTick tw)) = numSlots tw" "tw_interval (snd (onTick tw)) = tw_interval tw"
    and "set (fst (onTick tw)) = {(k, v). remaining tw k = Some (v, 1)}" "distinct (map fst (fst (onTick tw)))"
    and "remaining (snd (onTick tw)) k =
      (case remaining tw k of None \<Rightarrow> None | Some (v, d) \<Rightarrow> if d = 1 then None else Some (v, d - 1))"
proof -
  let ?t = "(tickedPos tw + 1) mod numSlots tw" and ?n = "numSlots tw"
  define tw1 where "tw1 = tw\<lparr>tickedPos := ?t\<rparr>"
  have n: "0 < ?n" "tickedPos tw < ?n" and ok: "wheel_ok ?n (slots tw) (gm_get (timers tw)) (entries tw)" using assms by (auto simp: tw_inv_def)
  then have inv1: "tw_inv tw1" using assms by (simp add: tw_inv_def tw1_def)
  have t1: "timer_of tw1 = timer_of tw" by (auto simp: fun_eq_iff timer_of_def tw1_def split: option.split)
  have tick: "onTick tw = scan_loop (slots tw1 ! ?t) tw1 []" by (simp add: onTick_def scanAndRunTasks_def tw1_def Let_def)
  have pend: "pending (slots tw1 ! ?t) tw1 k \<longleftrightarrow> (\<exists>v c d. timer_of tw k = Some (?t, v, c, d))" for k
  proof (cases "gm_get (timers tw) k")
    case (Some pr)
    then obtain p r where T: "gm_get (timers tw) k = Some (p, r)" by (cases pr) auto
    have "r \<in> set (slots tw ! ?t) \<longleftrightarrow> p = ?t"
      using linked_timer(1) [OF ok T] linked_timer(7) [OF ok T, of ?t] n(1) wheel_okD(1) [OF ok] by (auto simp: in_slot_def)
    with T show ?thesis by (auto simp: pending_def tw1_def timer_of_def)
  qed (simp add: pending_def tw1_def timer_of_def)
  have slot: "distinct (slots tw1 ! ?t)" "\<And>r. r \<in> set (slots tw1 ! ?t) \<Longrightarrow> in_slot (slots tw1) (tickedPos tw1) r"
    using wheel_okD(1,2) [OF ok] n by (simp_all add: tw1_def in_slot_def)
  from scan_loop_correct [OF inv1 slot, of "[]"] tick obtain new where sc:
    "fst (onTick tw) = new" "distinct (map fst new)"
    "set new = {(k, v). pending (slots tw1 ! ?t) tw1 k \<and> (\<exists>p c d. timer_of tw k = Some (p, v, c, d) \<and> c \<le> 0 \<and> d \<le> 0)}"
    "tw_inv (snd (onTick tw))" "same_wheel tw1 (snd (onTick tw))"
    "\<And>k. timer_of (snd (onTick tw)) k = (if pending (slots tw1 ! ?t) tw1 k then scanned tw1 (the (timer_of tw k)) else timer_of tw k)"
    by (auto simp: t1)
  show "tw_inv (snd (onTick tw))" "numSlots (snd (onTick tw)) = ?n" "tw_interval (snd (onTick tw)) = tw_interval tw"
    "distinct (map fst (fst (onTick tw)))" using sc by (simp_all add: same_wheel_def tw1_def)
  have one: "remaining tw k = Some (v, 1) \<longleftrightarrow> p = ?t \<and> c \<le> 0 \<and> d \<le> 0"
    "remaining (snd (onTick tw)) k = (case remaining tw k of None \<Rightarrow> None | Some (v, d) \<Rightarrow> if d = 1 then None else Some (v, d - 1))"
    if "timer_of tw k = Some (p, v, c, d)" for k p v c d
    using tick_one [OF assms that refl, of "snd (onTick tw)"] sc(5,6) pend that by (auto simp: same_wheel_def tw1_def)
  have none: "remaining tw k = None" "remaining (snd (onTick tw)) k = None" if "timer_of tw k = None" for k
    using that sc(6) pend by (simp_all add: remaining_def)
  show "remaining (snd (onTick tw)) k = (case remaining tw k of None \<Rightarrow> None | Some (v, d) \<Rightarrow> if d = 1 then None else Some (v, d - 1))"
    using one(2) [of k] none [of k] by (cases "timer_of tw k") auto
  show "set (fst (onTick tw)) = {(k, v). remaining tw k = Some (v, 1)}"
  proof (rule set_eqI)
    fix kv :: "'a \<times> 'b"
    obtain k v where kv: "kv = (k, v)" by (cases kv)
    show "kv \<in> set (fst (onTick tw)) \<longleftrightarrow> kv \<in> {(k, v). remaining tw k = Some (v, 1)}"
    proof (cases "timer_of tw k")
      case (Some e)
      then obtain p v' c d where e: "timer_of tw k = Some (p, v', c, d)" by (cases e) auto
      show ?thesis
      proof (cases "v = v'")
        case True
        then show ?thesis using one(1) [OF e] sc(1,3) pend [of k] by (auto simp: kv e)
      next
        case False
        then show ?thesis using sc(1,3) by (simp add: kv e remaining_def)
      qed
    qed (use sc(1,3) none in \<open>simp add: kv\<close>)
  qed
qed

section \<open>What a request does\<close>

lemma ahead_cases:
  assumes "t < n" "p < n"
  shows "ahead n t p = (if t < p then int p - int t else int p - int t + int n)"
proof (cases "t < p")
  case True
  then show ?thesis using assms by (simp add: ahead_def)
next
  case False
  have "(int p - int t - 1) mod int n = (int p - int t - 1 + int n) mod int n" by simp
  also have "\<dots> = int p - int t - 1 + int n" using False assms by (intro mod_pos_pos_trivial) auto
  finally show ?thesis using False by (simp add: ahead_def)
qed

lemma remaining_cong:
  assumes "same_wheel tw tw'" "gm_get (timers tw') k = gm_get (timers tw) k"
    and "\<And>p r. gm_get (timers tw) k = Some (p, r) \<Longrightarrow> entries tw' ! r = entries tw ! r"
  shows "remaining tw' k = remaining tw k"
proof -
  have "timer_of tw' k = timer_of tw k" using assms(2,3) by (cases "gm_get (timers tw) k") (auto simp: timer_of_def)
  then show ?thesis using assms(1) by (auto simp: remaining_def same_wheel_def split: option.split)
qed

lemma position_circle:
  assumes "tw_inv tw" "tw_interval tw \<le> delay" "s = delay div tw_interval tw"
  shows "getPositionAndCircle delay tw = (nat ((int (tickedPos tw) + s) mod int (numSlots tw)), (s - 1) div int (numSlots tw))" "1 \<le> s"
proof -
  have i: "0 < tw_interval tw" "tickedPos tw < numSlots tw" using assms(1) by (simp_all add: tw_inv_def)
  then show s: "1 \<le> s" using assms(2,3) by (simp add: pos_imp_zdiv_pos_iff int_one_le_iff_zero_less)
  then show "getPositionAndCircle delay tw = (nat ((int (tickedPos tw) + s) mod int (numSlots tw)), (s - 1) div int (numSlots tw))"
    using i assms(2,3) by (simp add: getPositionAndCircle_def Let_def)
qed

lemma push_new_correct:
  assumes inv: "tw_inv tw0" and T: "gm_get (timers tw0) k = None" and tw: "tw0 = tw\<lparr>timers := tm\<rparr>" "gm_get tm = (gm_get (timers tw))(k := None)"
    and e: "te_key e = k" "\<not> removed e" "entry_ok (numSlots tw) e" and p: "p < numSlots tw"
  shows "tw_inv (push_new p e tw)" "same_wheel tw0 (push_new p e tw)"
    and "remaining (push_new p e tw) = (remaining tw0)(k \<mapsto> (te_value e, ahead (numSlots tw) (tickedPos tw) p + int (numSlots tw) * circle e + diff e))"
proof -
  have ok: "wheel_ok (numSlots tw) (slots tw) (gm_get tm) (entries tw)" using inv tw by (simp add: tw_inv_def)
  let ?tw = "push_new p e tw"
  have f: "timers ?tw = gm_set k (p, length (entries tw)) (timers tw)" "entries ?tw = entries tw @ [e]"
    "slots ?tw = (slots tw)[p := slots tw ! p @ [length (entries tw)]]"
    using e(1) by (simp_all add: wheel_defs Let_def)
  show sw: "same_wheel tw0 ?tw" by (simp add: tw same_wheel_def wheel_defs Let_def)
  have "gm_get (timers ?tw) = (gm_get tm)(k \<mapsto> (p, length (entries tw)))" using tw(2) by (simp add: f gm_get_fun)
  moreover have "wheel_ok (numSlots tw) ((slots tw)[p := slots tw ! p @ [length (entries tw)]]) ((gm_get tm)(k \<mapsto> (p, length (entries tw)))) (entries tw @ [e])"
    by (rule ok_push_new [OF ok _ p e]) (use tw in simp)
  ultimately show "tw_inv ?tw" using inv sw by (simp add: tw_inv_def f same_wheel_def tw)
  have "remaining ?tw k' = remaining tw0 k'" if "k' \<noteq> k" for k'
  proof (rule remaining_cong [OF sw])
    show "gm_get (timers ?tw) k' = gm_get (timers tw0) k'" using that tw by (simp add: f gomap_simps)
    show "entries ?tw ! r = entries tw0 ! r" if "gm_get (timers tw0) k' = Some (q, r)" for q r
      using linked_timer(3) [OF ok, of k' q r] that by (simp add: f tw nth_append)
  qed
  moreover have "remaining ?tw k = Some (te_value e, ahead (numSlots tw) (tickedPos tw) p + int (numSlots tw) * circle e + diff e)"
    using sw by (simp add: remaining_def timer_of_def f same_wheel_def tw gomap_simps)
  ultimately show "remaining ?tw = (remaining tw0)(k \<mapsto> (te_value e, ahead (numSlots tw) (tickedPos tw) p + int (numSlots tw) * circle e + diff e))"
    by (simp add: fun_eq_iff)
qed

lemma set_entry_correct:
  assumes inv: "tw_inv tw" and T: "gm_get (timers tw) k = Some (p, r)"
    and e: "te_key e = k" "\<not> removed e" "entry_ok (numSlots tw) e"
  shows "tw_inv (set_entry r e tw)" "same_wheel tw (set_entry r e tw)"
    and "remaining (set_entry r e tw) = (remaining tw)(k \<mapsto> (te_value e, ahead (numSlots tw) (tickedPos tw) p + int (numSlots tw) * circle e + diff e))"
proof -
  have ok: "wheel_ok (numSlots tw) (slots tw) (gm_get (timers tw)) (entries tw)" using inv by (simp add: tw_inv_def)
  note t = linked_timer [OF ok T]
  show "tw_inv (set_entry r e tw)" using inv ok_update [OF ok T e] by (simp add: tw_inv_def set_entry_def)
  show sw: "same_wheel tw (set_entry r e tw)" by (simp add: same_wheel_def set_entry_def)
  have "remaining (set_entry r e tw) k' = remaining tw k'" if "k' \<noteq> k" for k'
  proof (rule remaining_cong [OF sw])
    show "entries (set_entry r e tw) ! r' = entries tw ! r'" if "gm_get (timers tw) k' = Some (q, r')" for q r'
      using linked_timer(6) [OF ok that] t(6) \<open>k' \<noteq> k\<close> by (cases "r' = r") (simp_all add: set_entry_def)
  qed (simp add: set_entry_def)
  moreover have "remaining (set_entry r e tw) k = Some (te_value e, ahead (numSlots tw) (tickedPos tw) p + int (numSlots tw) * circle e + diff e)"
    using T t(3) by (simp add: remaining_def timer_of_def set_entry_def)
  ultimately show "remaining (set_entry r e tw) = (remaining tw)(k \<mapsto> (te_value e, ahead (numSlots tw) (tickedPos tw) p + int (numSlots tw) * circle e + diff e))"
    by (simp add: fun_eq_iff)
qed

lemma removeTask_correct:
  assumes inv: "tw_inv tw"
  shows "tw_inv (removeTask k tw)" "same_wheel tw (removeTask k tw)" "remaining (removeTask k tw) = (remaining tw)(k := None)"
proof -
  have ok: "wheel_ok (numSlots tw) (slots tw) (gm_get (timers tw)) (entries tw)" using inv by (simp add: tw_inv_def)
  have "tw_inv (removeTask k tw) \<and> same_wheel tw (removeTask k tw) \<and> remaining (removeTask k tw) = (remaining tw)(k := None)"
  proof (cases "gm_get (timers tw) k")
    case None
    then have "remaining tw k = None" by (simp add: remaining_def timer_of_def)
    then show ?thesis using None inv by (simp add: removeTask_def same_wheel_def fun_upd_idem)
  next
    case (Some pr)
    then obtain p r where T: "gm_get (timers tw) k = Some (p, r)" by (cases pr) auto
    note t = linked_timer [OF ok T]
    let ?tw = "removeTask k tw"
    have f: "timers ?tw = gm_del k (timers tw)" "entries ?tw = (entries tw)[r := (entries tw ! r)\<lparr>removed := True\<rparr>]" "slots ?tw = slots tw"
      "same_wheel tw ?tw" using T by (simp_all add: removeTask_def set_entry_def same_wheel_def)
    have "tw_inv ?tw" using inv ok_remove [OF ok T] f by (simp add: tw_inv_def gm_get_fun same_wheel_def)
    moreover have "remaining ?tw k' = remaining tw k'" if "k' \<noteq> k" for k'
    proof (rule remaining_cong [OF f(4)])
      show "gm_get (timers ?tw) k' = gm_get (timers tw) k'" using that by (simp add: f gomap_simps)
      show "entries ?tw ! r' = entries tw ! r'" if "gm_get (timers tw) k' = Some (q, r')" for q r'
        using linked_timer(6) [OF ok that] t(6) \<open>k' \<noteq> k\<close> by (cases "r' = r") (simp_all add: f)
    qed
    moreover have "remaining ?tw k = None" by (simp add: remaining_def timer_of_def f gomap_simps)
    ultimately show ?thesis using f(4) by (simp add: fun_eq_iff)
  qed
  then show "tw_inv (removeTask k tw)" "same_wheel tw (removeTask k tw)" "remaining (removeTask k tw) = (remaining tw)(k := None)" by blast+
qed

text \<open>
  The tick at which a moved timer fires.  \<open>p\<close> is the slot the entry is in, \<open>pos\<close> the slot of the new time;
  \<open>s\<close> is the requested number of ticks.  When exactly one of the two slots is already behind the wheel's
  position in this turn, the entry fires a whole turn late or a whole turn early.
\<close>

definition moved :: "nat \<Rightarrow> nat \<Rightarrow> nat \<Rightarrow> int \<Rightarrow> int" where
  "moved n t p s =
     (let pos = nat ((int t + s) mod int n)
      in if p \<le> t \<and> t < pos then s + int n
         else if pos \<le> t \<and> t < p \<and> int n < s then s - int n
         else s)"

lemma moved_sum:
  assumes "t < n" "p < n" "1 \<le> s" "pos = nat ((int t + s) mod int n)" "c = (s - 1) div int n"
  shows "pos < n" "0 \<le> c" "p \<le> pos \<Longrightarrow> ahead n t p + int n * c + (int pos - int p) = moved n t p s"
    and "pos < p \<Longrightarrow> 0 < c \<Longrightarrow> ahead n t p + int n * (c - 1) + (int n + int pos - int p) = moved n t p s"
    and "pos < p \<Longrightarrow> c \<le> 0 \<Longrightarrow> ahead n t pos = moved n t p s"
proof -
  have n: "0 < int n" using assms(1) by simp
  show pos: "pos < n" using n assms(4) by (simp add: nat_less_iff)
  show c: "0 \<le> c" using assms(3,5) n by (simp add: pos_imp_zdiv_nonneg_iff)
  have "ahead n t pos = (s - 1) mod int n + 1" using dist_ahead [of n s pos t] assms by simp
  moreover have "(s - 1) mod int n + int n * c = s - 1" using assms(5) by simp
  ultimately have a: "ahead n t pos + int n * c = s" by simp
  have gt: "0 < c \<longleftrightarrow> int n < s" using assms(3,5) n by (auto simp: pos_imp_zdiv_pos_iff)
  note d = ahead_cases [OF assms(1,2)] ahead_cases [OF assms(1) pos]
  have m: "moved n t p s = (if p \<le> t \<and> t < pos then s + int n else if pos \<le> t \<and> t < p \<and> int n < s then s - int n else s)"
    by (simp add: moved_def assms(4) Let_def)
  show "p \<le> pos \<Longrightarrow> ahead n t p + int n * c + (int pos - int p) = moved n t p s" using a d m by (auto split: if_splits)
  show "pos < p \<Longrightarrow> 0 < c \<Longrightarrow> ahead n t p + int n * (c - 1) + (int n + int pos - int p) = moved n t p s"
    using a d m gt by (auto simp: right_diff_distrib split: if_splits)
  show "pos < p \<Longrightarrow> c \<le> 0 \<Longrightarrow> ahead n t pos = moved n t p s" using a d m gt c by (auto split: if_splits)
qed

lemma timer_in_table:
  assumes "gm_get (timers tw) k = Some (p, r)"
  shows "remaining tw k = Some (te_value (entries tw ! r),
    ahead (numSlots tw) (tickedPos tw) p + int (numSlots tw) * circle (entries tw ! r) + diff (entries tw ! r))"
  using assms by (simp add: remaining_def timer_of_def)

lemma moveTask_correct:
  assumes inv: "tw_inv tw" and T: "gm_get (timers tw) k = Some (p, r)" and d: "tw_interval tw \<le> delay"
    and s: "s = delay div tw_interval tw"
  shows "fst (moveTask delay k tw) = []" "tw_inv (snd (moveTask delay k tw))" "same_wheel tw (snd (moveTask delay k tw))"
    and "remaining (snd (moveTask delay k tw)) =
      (remaining tw)(k \<mapsto> (te_value (entries tw ! r), moved (numSlots tw) (tickedPos tw) p s))"
proof -
  let ?n = "numSlots tw" and ?t = "tickedPos tw" and ?e = "entries tw ! r"
  define pos where "pos = nat ((int ?t + s) mod int ?n)"
  define c where "c = (s - 1) div int ?n"
  note pc = position_circle [OF inv d s, folded pos_def c_def]
  have ok: "wheel_ok ?n (slots tw) (gm_get (timers tw)) (entries tw)" and t: "?t < ?n" using inv by (simp_all add: tw_inv_def)
  note l = linked_timer(2-6) [OF ok T]
  note ms = moved_sum [OF t l(1) pc(2) pos_def c_def]
  consider (fwd) "p \<le> pos" | (bwd) "pos < p" "0 < c" | (new) "pos < p" "c \<le> 0" by linarith
  then have "fst (moveTask delay k tw) = [] \<and> tw_inv (snd (moveTask delay k tw)) \<and> same_wheel tw (snd (moveTask delay k tw)) \<and>
      remaining (snd (moveTask delay k tw)) = (remaining tw)(k \<mapsto> (te_value ?e, moved ?n ?t p s))"
  proof cases
    case fwd
    let ?e' = "?e\<lparr>circle := c, diff := int pos - int p\<rparr>"
    have "moveTask delay k tw = ([], set_entry r ?e' tw)" using T d pc(1) fwd by (simp add: moveTask_def Let_def)
    moreover have "entry_ok ?n ?e'" using ms(1,2) fwd by (simp add: entry_ok_def)
    ultimately show ?thesis using set_entry_correct [OF inv T, of ?e'] l ms(3) [OF fwd] by simp
  next
    case bwd
    let ?e' = "?e\<lparr>circle := c - 1, diff := int ?n + int pos - int p\<rparr>"
    have "moveTask delay k tw = ([], set_entry r ?e' tw)" using T d pc(1) bwd by (simp add: moveTask_def Let_def)
    moreover have "entry_ok ?n ?e'" using ms(1,2) bwd l(1) by (simp add: entry_ok_def)
    ultimately show ?thesis using set_entry_correct [OF inv T, of ?e'] l ms(4) [OF bwd] by simp
  next
    case new
    let ?e' = "\<lparr>te_delay = delay, te_key = k, te_value = te_value ?e, circle = 0, diff = 0, removed = False\<rparr>"
    let ?tw1 = "set_entry r (?e\<lparr>removed := True\<rparr>) tw"
    have m: "moveTask delay k tw = ([], push_new pos ?e' ?tw1)" using T d pc(1) new by (simp add: moveTask_def Let_def)
    have rm: "removeTask k tw = ?tw1\<lparr>timers := gm_del k (timers tw)\<rparr>" using T by (simp add: removeTask_def)
    note rc = removeTask_correct [OF inv, of k]
    have "numSlots ?tw1 = ?n" "tickedPos ?tw1 = ?t" "timers ?tw1 = timers tw" by (simp_all add: set_entry_def)
    with push_new_correct [OF rc(1) _ rm, of k ?e' pos] t ms(1,5) new rc(2,3)
    show ?thesis unfolding m by (simp add: rm gomap_simps gm_get_fun entry_ok_def same_wheel_def)
  qed
  then show "fst (moveTask delay k tw) = []" "tw_inv (snd (moveTask delay k tw))" "same_wheel tw (snd (moveTask delay k tw))"
    "remaining (snd (moveTask delay k tw)) = (remaining tw)(k \<mapsto> (te_value ?e, moved ?n ?t p s))" by blast+
qed

lemma moveTask_other:
  "gm_get (timers tw) k = None \<Longrightarrow> moveTask delay k tw = ([], tw)"
  "gm_get (timers tw) k = Some (p, r) \<Longrightarrow> tw_inv tw \<Longrightarrow> delay < tw_interval tw \<Longrightarrow> moveTask delay k tw = ([(k, te_value (entries tw ! r))], tw)"
  using linked_timer(6) [of "numSlots tw" "slots tw" "gm_get (timers tw)" "entries tw" k p r]
  by (simp_all add: moveTask_def tw_inv_def Let_def)

definition ticks_for :: "('k, 'v) TimingWheel \<Rightarrow> int \<Rightarrow> int" where
  "ticks_for tw delay = max 1 (delay div tw_interval tw)"

lemma ticks_for_eq:
  assumes "tw_inv tw"
  shows "(if delay < tw_interval tw then tw_interval tw else delay) div tw_interval tw = ticks_for tw delay" "0 < delay \<Longrightarrow> tw_interval tw \<le> delay \<Longrightarrow> delay div tw_interval tw = ticks_for tw delay"
proof -
  have i: "0 < tw_interval tw" using assms by (simp add: tw_inv_def)
  have "delay div tw_interval tw \<le> 1" if "delay < tw_interval tw" using zdiv_mono1 [of delay "tw_interval tw" "tw_interval tw"] that i by simp
  moreover have "1 \<le> delay div tw_interval tw" if "tw_interval tw \<le> delay" using that i by (simp add: pos_imp_zdiv_pos_iff int_one_le_iff_zero_less)
  ultimately show "(if delay < tw_interval tw then tw_interval tw else delay) div tw_interval tw = ticks_for tw delay"
    "0 < delay \<Longrightarrow> tw_interval tw \<le> delay \<Longrightarrow> delay div tw_interval tw = ticks_for tw delay"
    using i by (auto simp: ticks_for_def)
qed

lemma setTask_fresh:
  assumes inv: "tw_inv tw" and T: "gm_get (timers tw) k = None"
  shows "fst (setTask delay k v tw) = []" "tw_inv (snd (setTask delay k v tw))" "same_wheel tw (snd (setTask delay k v tw))"
    and "remaining (snd (setTask delay k v tw)) = (remaining tw)(k \<mapsto> (v, ticks_for tw delay))"
proof -
  let ?n = "numSlots tw" and ?t = "tickedPos tw" and ?s = "ticks_for tw delay"
  define dl where "dl = (if delay < tw_interval tw then tw_interval tw else delay)"
  define pos where "pos = nat ((int ?t + ?s) mod int ?n)"
  define c where "c = (?s - 1) div int ?n"
  have dl: "tw_interval tw \<le> dl" "?s = dl div tw_interval tw" using ticks_for_eq(1) [OF inv, of delay] by (simp_all add: dl_def)
  note pc = position_circle [OF inv dl, folded pos_def c_def]
  have t: "?t < ?n" using inv by (simp add: tw_inv_def)
  have a: "ahead ?n ?t pos = (?s - 1) mod int ?n + 1" using dist_ahead [of ?n ?s pos ?t] t pc(2) pos_def by simp
  let ?e = "\<lparr>te_delay = dl, te_key = k, te_value = v, circle = c, diff = 0, removed = False\<rparr>"
  have st: "setTask delay k v tw = ([], push_new pos ?e tw)" using T pc(1) by (simp add: setTask_def dl_def Let_def)
  have tm: "tw = tw\<lparr>timers := timers tw\<rparr>" "gm_get (timers tw) = (gm_get (timers tw))(k := None)" using T by (simp_all add: fun_upd_idem)
  have "entry_ok ?n ?e" using pc(2) t by (simp add: entry_ok_def c_def pos_imp_zdiv_nonneg_iff)
  moreover have "pos < ?n" using t by (simp add: pos_def nat_less_iff)
  ultimately have p: "tw_inv (push_new pos ?e tw)" "same_wheel tw (push_new pos ?e tw)"
    "remaining (push_new pos ?e tw) = (remaining tw)(k \<mapsto> (v, ahead ?n ?t pos + int ?n * c))"
    using push_new_correct [OF inv T tm, of ?e pos] by simp_all
  moreover have "ahead ?n ?t pos + int ?n * c = ?s" unfolding a c_def using mod_mult_div_eq [of "?s - 1" "int ?n"] by simp
  ultimately show "fst (setTask delay k v tw) = []" "tw_inv (snd (setTask delay k v tw))" "same_wheel tw (snd (setTask delay k v tw))"
    "remaining (snd (setTask delay k v tw)) = (remaining tw)(k \<mapsto> (v, ?s))" using st by simp_all
qed

lemma setTask_again:
  assumes inv: "tw_inv tw" and T: "gm_get (timers tw) k = Some (p, r)"
  shows "fst (setTask delay k v tw) = []" "tw_inv (snd (setTask delay k v tw))" "same_wheel tw (snd (setTask delay k v tw))"
    and "remaining (snd (setTask delay k v tw)) = (remaining tw)(k \<mapsto> (v, moved (numSlots tw) (tickedPos tw) p (ticks_for tw delay)))"
proof -
  define dl where "dl = (if delay < tw_interval tw then tw_interval tw else delay)"
  let ?tw = "set_entry r ((entries tw ! r)\<lparr>te_value := v\<rparr>) tw"
  have ok: "wheel_ok (numSlots tw) (slots tw) (gm_get (timers tw)) (entries tw)" using inv by (simp add: tw_inv_def)
  note l = linked_timer(3-6) [OF ok T]
  have e: "tw_inv ?tw" "same_wheel tw ?tw"
    "remaining ?tw = (remaining tw)(k \<mapsto> (v, ahead (numSlots tw) (tickedPos tw) p + int (numSlots tw) * circle (entries tw ! r) + diff (entries tw ! r)))"
    using set_entry_correct [OF inv T, of "(entries tw ! r)\<lparr>te_value := v\<rparr>"] l by (simp_all add: entry_ok_def)
  have f: "gm_get (timers ?tw) k = Some (p, r)" "te_value (entries ?tw ! r) = v" "tw_interval ?tw = tw_interval tw"
    "numSlots ?tw = numSlots tw" "tickedPos ?tw = tickedPos tw" using T l(1) by (simp_all add: set_entry_def)
  have dl: "tw_interval ?tw \<le> dl" "ticks_for tw delay = dl div tw_interval ?tw"
    using ticks_for_eq(1) [OF inv, of delay] f(3) by (simp_all add: dl_def)
  note m = moveTask_correct [OF e(1) f(1) dl]
  have "setTask delay k v tw = moveTask dl k ?tw" using T by (simp add: setTask_def dl_def Let_def)
  then show "fst (setTask delay k v tw) = []" "tw_inv (snd (setTask delay k v tw))" "same_wheel tw (snd (setTask delay k v tw))"
    "remaining (snd (setTask delay k v tw)) = (remaining tw)(k \<mapsto> (v, moved (numSlots tw) (tickedPos tw) p (ticks_for tw delay)))"
    using m e f by (simp_all add: same_wheel_def)
qed

lemma moved_near:
  assumes "t < n" "1 \<le> s"
  shows "1 \<le> moved n t p s" "moved n t p s \<in> {s - int n, s, s + int n}"
  using assms by (auto simp: moved_def Let_def)

section \<open>The contract of a timer table\<close>

datatype ('k, 'v) request = ReqSet 'k 'v int | ReqMove 'k int | ReqRemove 'k | ReqTick

fun serve :: "('k, 'v) request \<Rightarrow> ('k, 'v) TimingWheel \<Rightarrow> ('k \<times> 'v) list \<times> ('k, 'v) TimingWheel" where
  "serve (ReqSet k v d) tw = setTask d k v tw"
| "serve (ReqMove k d) tw = moveTask d k tw"
| "serve (ReqRemove k) tw = ([], removeTask k tw)"
| "serve ReqTick tw = onTick tw"

fun serve_all :: "('k, 'v) request list \<Rightarrow> ('k, 'v) TimingWheel \<Rightarrow> ('k \<times> 'v) list list \<times> ('k, 'v) TimingWheel" where
  "serve_all [] tw = ([], tw)"
| "serve_all (q # qs) tw =
     (let (ts, tw) = serve q tw; (tss, tw) = serve_all qs tw in (ts # tss, tw))"

text \<open>
  The abstract table gives for a key the value and the number of ticks until it fires.  With \<open>n\<close> slots and a
  tick every \<open>i\<close> nanoseconds: a new timer fires after \<open>d div i\<close> ticks, at least one; a timer that is moved
  or set again fires at the requested tick or exactly a turn beside it; moving by less than a tick runs the task at
  once and leaves the timer as it is.
\<close>

inductive timer_step ::
  "nat \<Rightarrow> int \<Rightarrow> ('k \<Rightarrow> ('v \<times> int) option) \<Rightarrow> ('k, 'v) request \<Rightarrow> ('k \<times> 'v) set \<Rightarrow> ('k \<Rightarrow> ('v \<times> int) option) \<Rightarrow> bool"
  for n :: nat and i :: int where
  set_new: "T k = None \<Longrightarrow> timer_step n i T (ReqSet k v d) {} (T(k \<mapsto> (v, max 1 (d div i))))"
| set_again: "T k = Some e \<Longrightarrow> 1 \<le> s \<Longrightarrow> s \<in> {max 1 (d div i) - int n, max 1 (d div i), max 1 (d div i) + int n} \<Longrightarrow>
    timer_step n i T (ReqSet k v d) {} (T(k \<mapsto> (v, s)))"
| move_none: "T k = None \<Longrightarrow> timer_step n i T (ReqMove k d) {} T"
| move_now: "T k = Some (v, s) \<Longrightarrow> d < i \<Longrightarrow> timer_step n i T (ReqMove k d) {(k, v)} T"
| move_later: "T k = Some (v, s') \<Longrightarrow> i \<le> d \<Longrightarrow> 1 \<le> s \<Longrightarrow> s \<in> {d div i - int n, d div i, d div i + int n} \<Longrightarrow>
    timer_step n i T (ReqMove k d) {} (T(k \<mapsto> (v, s)))"
| remove_one: "timer_step n i T (ReqRemove k) {} (T(k := None))"
| tick: "timer_step n i T ReqTick {(k, v). T k = Some (v, 1)}
    (\<lambda>k. case T k of None \<Rightarrow> None | Some (v, s) \<Rightarrow> if s = 1 then None else Some (v, s - 1))"

inductive_cases timer_tickE: "timer_step n i T ReqTick out T'"

lemma remaining_None: "remaining tw k = None \<longleftrightarrow> gm_get (timers tw) k = None"
  by (auto simp: remaining_def timer_of_def split: option.splits)

lemma serve_refines:
  assumes inv: "tw_inv tw"
  shows "tw_inv (snd (serve q tw))" "numSlots (snd (serve q tw)) = numSlots tw" "tw_interval (snd (serve q tw)) = tw_interval tw"
    and "timer_step (numSlots tw) (tw_interval tw) (remaining tw) q (set (fst (serve q tw))) (remaining (snd (serve q tw)))"
    and "distinct (map fst (fst (serve q tw)))"
proof -
  let ?n = "numSlots tw" and ?i = "tw_interval tw"
  have t: "tickedPos tw < ?n" "0 < ?i" using inv by (simp_all add: tw_inv_def)
  have "tw_inv (snd (serve q tw)) \<and> numSlots (snd (serve q tw)) = ?n \<and> tw_interval (snd (serve q tw)) = ?i \<and>
    timer_step ?n ?i (remaining tw) q (set (fst (serve q tw))) (remaining (snd (serve q tw))) \<and> distinct (map fst (fst (serve q tw)))"
  proof (cases q)
    case (ReqSet k v d)
    have s1: "1 \<le> ticks_for tw d" by (simp add: ticks_for_def)
    show ?thesis
    proof (cases "gm_get (timers tw) k")
      case None
      with setTask_fresh [OF inv None, where delay = d and v = v] timer_step.set_new [of "remaining tw" k ?n ?i v d] show ?thesis
        by (simp add: ReqSet same_wheel_def ticks_for_def remaining_None)
    next
      case (Some pr)
      then obtain p r where T: "gm_get (timers tw) k = Some (p, r)" by (cases pr) auto
      note m = setTask_again [OF inv T, where delay = d and v = v]
      have "timer_step ?n ?i (remaining tw) (ReqSet k v d) {} ((remaining tw)(k \<mapsto> (v, moved ?n (tickedPos tw) p (ticks_for tw d))))"
        using moved_near [OF t(1) s1, of p] unfolding ticks_for_def
        by (intro timer_step.set_again [where T = "remaining tw", OF timer_in_table [OF T]]) auto
      with m show ?thesis by (simp add: ReqSet same_wheel_def)
    qed
  next
    case (ReqMove k d)
    show ?thesis
    proof (cases "gm_get (timers tw) k")
      case None
      then show ?thesis using inv timer_step.move_none [of "remaining tw" k ?n ?i d]
        by (simp add: ReqMove moveTask_other(1) remaining_None)
    next
      case (Some pr)
      then obtain p r where T: "gm_get (timers tw) k = Some (p, r)" by (cases pr) auto
      show ?thesis
      proof (cases "d < ?i")
        case True
        then show ?thesis using inv timer_step.move_now [where T = "remaining tw", OF timer_in_table [OF T] True, of ?n]
          by (simp add: ReqMove moveTask_other(2) [OF T inv])
      next
        case False
        then have d: "?i \<le> d" by simp
        then have s1: "1 \<le> d div ?i" using t(2) by (simp add: pos_imp_zdiv_pos_iff int_one_le_iff_zero_less)
        have "timer_step ?n ?i (remaining tw) (ReqMove k d) {} ((remaining tw)(k \<mapsto> (te_value (entries tw ! r), moved ?n (tickedPos tw) p (d div ?i))))"
          using moved_near [OF t(1) s1, of p] by (intro timer_step.move_later [where T = "remaining tw", OF timer_in_table [OF T] d]) auto
        with moveTask_correct [OF inv T d refl] show ?thesis by (simp add: ReqMove same_wheel_def)
      qed
    qed
  next
    case (ReqRemove k)
    with removeTask_correct [OF inv, of k] timer_step.remove_one [of ?n ?i "remaining tw" k] show ?thesis
      by (simp add: same_wheel_def)
  next
    case ReqTick
    have "remaining (snd (onTick tw)) = (\<lambda>k. case remaining tw k of None \<Rightarrow> None | Some (v, d) \<Rightarrow> if d = 1 then None else Some (v, d - 1))"
      using onTick_correct(6) [OF inv] by blast
    with ReqTick onTick_correct(1-5) [OF inv] timer_step.tick [of ?n ?i "remaining tw"] show ?thesis by simp
  qed
  then show "tw_inv (snd (serve q tw))" "numSlots (snd (serve q tw)) = numSlots tw" "tw_interval (snd (serve q tw)) = tw_interval tw"
    "timer_step (numSlots tw) (tw_interval tw) (remaining tw) q (set (fst (serve q tw))) (remaining (snd (serve q tw)))"
    "distinct (map fst (fst (serve q tw)))" by blast+
qed

inductive timer_run ::
  "nat \<Rightarrow> int \<Rightarrow> ('k \<Rightarrow> ('v \<times> int) option) \<Rightarrow> ('k, 'v) request list \<Rightarrow> ('k \<times> 'v) set list \<Rightarrow> ('k \<Rightarrow> ('v \<times> int) option) \<Rightarrow> bool"
  for n :: nat and i :: int where
  run_nil: "timer_run n i T [] [] T"
| run_cons: "timer_step n i T q out T1 \<Longrightarrow> timer_run n i T1 qs outs T2 \<Longrightarrow> timer_run n i T (q # qs) (out # outs) T2"

lemma serve_all_refines:
  assumes "tw_inv tw"
  shows "tw_inv (snd (serve_all qs tw)) \<and> numSlots (snd (serve_all qs tw)) = numSlots tw \<and> tw_interval (snd (serve_all qs tw)) = tw_interval tw \<and>
    timer_run (numSlots tw) (tw_interval tw) (remaining tw) qs (map set (fst (serve_all qs tw))) (remaining (snd (serve_all qs tw)))"
  using assms
proof (induction qs arbitrary: tw)
  case (Cons q qs)
  note s = serve_refines [OF Cons.prems, of q]
  from Cons.IH [OF s(1)] s(2,3) timer_run.run_cons [OF s(4)] show ?case by (simp add: case_prod_beta)
qed (simp add: timer_run.run_nil)

lemma new_wheel:
  assumes "NewTimingWheel ival n False = Inr tw"
  shows "tw_inv tw" "numSlots tw = nat n" "tw_interval tw = ival" "remaining tw = (\<lambda>k. None)"
proof -
  from assms have c: "0 < ival" "0 < n" and tw: "tw = \<lparr>tw_interval = ival, slots = replicate (nat n) [], timers = [], tickedPos = nat n - 1,
      numSlots = nat n, entries = [], stopped = False\<rparr>" by (auto simp: NewTimingWheel_def split: if_splits)
  have "in_slot (replicate (nat n) []) = (\<lambda>p r. False)" by (auto simp: fun_eq_iff in_slot_def)
  then have "wheel_ok (nat n) (replicate (nat n) []) (gm_get []) []" by (intro wheel_okI) (simp_all add: linked_def)
  then show "tw_inv tw" using c by (simp add: tw_inv_def tw)
  show "numSlots tw = nat n" "tw_interval tw = ival" "remaining tw = (\<lambda>k. None)"
    by (simp_all add: tw remaining_def timer_of_def fun_eq_iff)
qed

text \<open>C2: The wheel implements a table of timers.  For every sequence of set, move, remove and tick requests, the tasks
  it runs at each request and the timers it holds afterwards are those of a table in which a tick brings every timer one
  tick nearer and runs exactly the timers that are due, a new timer is due after its delay, and a timer that is moved or
  set again is due at the requested tick or exactly one turn before or after it.\<close>

theorem timing_wheel_refines:
  assumes "NewTimingWheel ival n False = Inr tw"
  shows "timer_run (nat n) ival (\<lambda>k. None) qs (map set (fst (serve_all qs tw))) (remaining (snd (serve_all qs tw)))"
  using serve_all_refines [OF new_wheel(1) [OF assms], of qs] new_wheel(2-4) [OF assms] by simp

lemma example_wheel:
  "(NewTimingWheel 1 10 False :: tw_error + (string, int) TimingWheel) =
   Inr \<lparr>tw_interval = 1, slots = replicate 10 [], timers = [], tickedPos = 9, numSlots = 10, entries = [], stopped = False\<rparr>"
  by (simp add: NewTimingWheel_def)

theorem timing_wheel_refines_witness:
  "timer_run 10 1 (\<lambda>k. None) [ReqSet ''a'' (7 :: int) 2, ReqTick, ReqTick] [{}, {}, {(''a'', 7)}] (\<lambda>k. None)"
proof -
  let ?tw = "\<lparr>tw_interval = 1, slots = replicate 10 [], timers = [], tickedPos = 9, numSlots = 10, entries = [], stopped = False\<rparr>
    :: (string, int) TimingWheel"
  let ?qs = "[ReqSet ''a'' (7 :: int) 2, ReqTick, ReqTick]"
  have "fst (serve_all ?qs ?tw) = [[], [], [(''a'', 7)]] \<and> timers (snd (serve_all ?qs ?tw)) = []" by code_simp
  moreover from this have "remaining (snd (serve_all ?qs ?tw)) = (\<lambda>k. None)" by (simp only: remaining_None fun_eq_iff) simp
  ultimately show ?thesis using timing_wheel_refines [OF example_wheel, of ?qs] by simp
qed

section \<open>Punctuality\<close>

fun touches :: "'k \<Rightarrow> ('k, 'v) request \<Rightarrow> bool" where
  "touches k (ReqSet k' v d) = (k' = k)"
| "touches k (ReqMove k' d) = (k' = k)"
| "touches k (ReqRemove k') = (k' = k)"
| "touches k ReqTick = False"

definition ticks :: "('k, 'v) request list \<Rightarrow> int" where
  "ticks qs = int (length (filter (\<lambda>q. case q of ReqTick \<Rightarrow> True | _ \<Rightarrow> False) qs))"

lemma ticks_simps [simp]: "ticks [] = 0" "ticks (ReqTick # qs) = ticks qs + 1" "q \<noteq> ReqTick \<Longrightarrow> ticks (q # qs) = ticks qs"
  by (auto simp: ticks_def split: request.splits)

lemma ticks_pos: "ReqTick \<in> set qs \<Longrightarrow> ticks qs \<noteq> 0"
  by (force simp: ticks_def filter_empty_conv)

lemma step_other:
  assumes "timer_step n i T q out T'" "\<not> touches k q"
  shows "q \<noteq> ReqTick \<Longrightarrow> T' k = T k \<and> (\<forall>v. (k, v) \<notin> out)"
    and "q = ReqTick \<Longrightarrow> ((k, v) \<in> out \<longleftrightarrow> T k = Some (v, 1)) \<and> T' k = (case T k of None \<Rightarrow> None | Some (v, s) \<Rightarrow> if s = 1 then None else Some (v, s - 1))"
  using assms by (cases rule: timer_step.cases; auto)+

lemma run_silent:
  assumes "timer_run n i T qs outs T'" "T k = None" "\<And>q. q \<in> set qs \<Longrightarrow> \<not> touches k q" "j < length qs"
  shows "(k, v) \<notin> outs ! j"
  using assms
proof (induction arbitrary: j rule: timer_run.induct)
  case (run_cons T q out T1 qs outs T2)
  have "T1 k = None \<and> (k, v) \<notin> out" using step_other [OF run_cons.hyps(1), of k] run_cons.prems by (cases "q = ReqTick") auto
  with run_cons.IH [of "j - 1"] run_cons.prems show ?case by (cases j) auto
qed simp

lemma run_fires:
  assumes "timer_run n i T qs outs T'" "T k = Some (v, s)" "\<And>q. q \<in> set qs \<Longrightarrow> \<not> touches k q" "j < length qs" "1 \<le> s"
  shows "(k, v') \<in> outs ! j \<longleftrightarrow> v' = v \<and> qs ! j = ReqTick \<and> ticks (take (Suc j) qs) = s"
  using assms
proof (induction arbitrary: j s rule: timer_run.induct)
  case (run_cons T q out T1 qs outs T2)
  note o = step_other [OF run_cons.hyps(1), of k] and p = run_cons.prems
  have nt: "\<not> touches k q" and rest: "\<And>q. q \<in> set qs \<Longrightarrow> \<not> touches k q" using p(2) by simp_all
  have nonneg: "0 \<le> ticks xs" for xs :: "('a, 'b) request list" by (simp add: ticks_def)
  show ?case
  proof (cases "q = ReqTick")
    case False
    then have t: "T1 k = Some (v, s)" "(k, v') \<notin> out" using o(1) nt p(1) by auto
    show ?thesis
    proof (cases j)
      case 0
      then show ?thesis using False t by simp
    next
      case (Suc m)
      then show ?thesis using run_cons.IH [OF t(1) rest, of m] p(3,4) False by simp
    qed
  next
    case True
    then have t: "(k, v') \<in> out \<longleftrightarrow> v' = v \<and> s = 1" "T1 k = (if s = 1 then None else Some (v, s - 1))" using o(2) [of v'] nt p(1) by auto
    show ?thesis
    proof (cases j)
      case 0
      then show ?thesis using True t(1) by auto
    next
      case (Suc m)
      show ?thesis
      proof (cases "s = 1")
        case True1: True
        have "ticks (take (Suc m) qs) \<noteq> 0" if "qs ! m = ReqTick"
          using that Suc p(3) by (intro ticks_pos) (simp add: take_Suc_conv_app_nth)
        then show ?thesis using run_silent [OF run_cons.hyps(2) _ rest, of m v'] t(2) True1 Suc p(3) True by auto
      next
        case False
        then show ?thesis using run_cons.IH [of "s - 1" m] t(2) rest Suc p(3,4) True by auto
      qed
    qed
  qed
qed simp

lemma serve_all_append:
  "fst (serve_all (qs @ qs') tw) = fst (serve_all qs tw) @ fst (serve_all qs' (snd (serve_all qs tw)))"
  "snd (serve_all (qs @ qs') tw) = snd (serve_all qs' (snd (serve_all qs tw)))"
  by (induction qs arbitrary: tw) (simp_all add: case_prod_beta)

lemma length_serve_all [simp]: "length (fst (serve_all qs tw)) = length qs"
  by (induction qs arbitrary: tw) (simp_all add: case_prod_beta)

text \<open>A new timer is punctual: whatever else the wheel is asked to do with other keys, its task runs with its value at
  the tick that its delay asks for (at the first tick for a delay of less than two intervals), once, and at no
  other request.\<close>

theorem timer_fires_on_time:
  assumes new: "NewTimingWheel ival n False = Inr tw"
    and fresh: "remaining (snd (serve_all before tw)) k = None"
    and qs: "\<And>q. q \<in> set qs \<Longrightarrow> \<not> touches k q" and j: "j < length qs"
  shows "(k, v') \<in> set (fst (serve_all (before @ ReqSet k v d # qs) tw) ! (length before + 1 + j)) \<longleftrightarrow>
    v' = v \<and> qs ! j = ReqTick \<and> ticks (take (Suc j) qs) = max 1 (d div ival)"
proof -
  let ?tw = "snd (serve_all before tw)" and ?tw1 = "snd (serve (ReqSet k v d) (snd (serve_all before tw)))"
  note nw = new_wheel [OF new]
  from serve_all_refines [OF nw(1), of before] nw have inv: "tw_inv ?tw" "tw_interval ?tw = ival" by simp_all
  have none: "gm_get (timers ?tw) k = None" using fresh by (simp add: remaining_None)
  note sf = setTask_fresh [OF inv(1) none, where delay = d and v = v]
  have inv1: "tw_inv ?tw1" and r1: "remaining ?tw1 k = Some (v, max 1 (d div ival))"
    using sf inv(2) by (simp_all add: ticks_for_def)
  from serve_all_refines [OF inv1, of qs]
  have run: "timer_run (numSlots ?tw1) (tw_interval ?tw1) (remaining ?tw1) qs (map set (fst (serve_all qs ?tw1))) (remaining (snd (serve_all qs ?tw1)))"
    by blast
  have "fst (serve_all (before @ ReqSet k v d # qs) tw) ! (length before + 1 + j) = fst (serve_all qs ?tw1) ! j"
    by (simp add: serve_all_append nth_append case_prod_beta)
  then show ?thesis using run_fires [OF run r1 qs j, of v'] j by simp
qed

theorem timer_fires_on_time_witness:
  "(''a'', 7) \<in> set (fst (serve_all ([] @ ReqSet ''a'' (7 :: int) 12 # replicate 12 ReqTick)
     \<lparr>tw_interval = 1, slots = replicate 10 [], timers = [], tickedPos = 9, numSlots = 10, entries = [], stopped = False\<rparr>) ! 12)"
proof -
  have r: "replicate 12 ReqTick ! 11 = (ReqTick :: (string, int) request)" "take (Suc 11) (replicate 12 ReqTick) = (replicate 12 ReqTick :: (string, int) request list)"
    by (simp_all add: numeral_eq_Suc)
  have "ticks (replicate 12 ReqTick :: (string, int) request list) = 12" by (simp add: ticks_def)
  with timer_fires_on_time [OF example_wheel, of "[]" "''a''" "replicate 12 ReqTick" 11 7 7 12] r show ?thesis
    by (simp add: remaining_def timer_of_def)
qed

text \<open>A timer that is moved to a later time is due after the ticks it asks for, except when exactly one of its
  old and its new slot has already come up in the current turn of the wheel: then it is due a whole turn late (old slot
  passed, new slot not) or, when more than a turn was asked for, a whole turn early (new slot passed, old slot not).\<close>

theorem moved_timer_due:
  assumes "NewTimingWheel ival n False = Inr tw0" and "tw = snd (serve_all qs tw0)"
    and "gm_get (timers tw) k = Some (p, r)" and "ival \<le> d"
  shows "map_option snd (remaining (snd (moveTask d k tw)) k) =
    Some (let s = d div ival; pos = nat ((int (tickedPos tw) + s) mod n)
          in if p \<le> tickedPos tw \<and> tickedPos tw < pos then s + n
             else if pos \<le> tickedPos tw \<and> tickedPos tw < p \<and> n < s then s - n
             else s)"
proof -
  note nw = new_wheel [OF assms(1)]
  from serve_all_refines [OF nw(1), of qs] nw assms(2) have tw: "tw_inv tw" "tw_interval tw = ival" "numSlots tw = nat n" by simp_all
  then have "0 < n" unfolding tw_inv_def by linarith
  with moveTask_correct(4) [OF tw(1) assms(3), of d] tw assms(4) show ?thesis by (simp add: moved_def Let_def)
qed

theorem moved_timer_due_witness:
  "map_option snd (remaining (snd (moveTask 3 ''a'' (snd (serve_all [ReqTick, ReqSet ''a'' (7 :: int) 10, ReqTick]
       \<lparr>tw_interval = 1, slots = replicate 10 [], timers = [], tickedPos = 9, numSlots = 10, entries = [], stopped = False\<rparr>)))) ''a'') = Some 13"
proof -
  define tw where "tw = snd (serve_all [ReqTick, ReqSet ''a'' (7 :: int) 10, ReqTick]
       \<lparr>tw_interval = 1, slots = replicate 10 [], timers = [], tickedPos = 9, numSlots = 10, entries = [], stopped = False\<rparr>)"
  have "gm_get (timers tw) ''a'' = Some (0, 0) \<and> tickedPos tw = 1" unfolding tw_def by code_simp
  with moved_timer_due [OF example_wheel tw_def, of "''a''" 0 0 3] show ?thesis unfolding tw_def [symmetric] by (simp add: Let_def)
qed

end
