(* ===== verification/Jitter.thy ===== *)
theory Jitter
  imports Complex_Main
begin

text \<open>
  Jittered durations (\<open>src/infra/mathx/unstable.go\<close>). The random draw of \<open>Unstable\<close> is an argument, and its floating-point
  product is taken exactly, as a rational.
\<close>

definition NewUnstable :: "rat \<Rightarrow> rat" where
  "NewUnstable deviation = (let d = (if deviation < 0 then 0 else deviation) in if d > 1 then 1 else d)"

text \<open>Conversion of a float to an integer truncates towards zero.\<close>

definition trunc :: "rat \<Rightarrow> int" where
  "trunc r = (if r < 0 then - \<lfloor>- r\<rfloor> else \<lfloor>r\<rfloor>)"

definition AroundDuration :: "rat \<Rightarrow> rat \<Rightarrow> int \<Rightarrow> int" where
  "AroundDuration deviation draw base = trunc ((1 + deviation - 2 * deviation * draw) * of_int base)"

definition AroundInt :: "rat \<Rightarrow> rat \<Rightarrow> int \<Rightarrow> int" where
  "AroundInt deviation draw base = trunc ((1 + deviation - 2 * deviation * draw) * of_int base)"

text \<open>The jitter keeps a duration within five percent.\<close>

lemma around_factor:
  assumes "0 \<le> (draw :: rat)" "draw \<le> 1"
  shows "19 / 20 \<le> 1 + 1 / 20 - 2 * (1 / 20) * draw" "1 + 1 / 20 - 2 * (1 / 20) * draw \<le> 21 / 20"
  using assms by (simp_all add: field_simps)

lemma around_pos:
  assumes "0 \<le> draw" "draw \<le> 1" "2 \<le> base"
  shows "1 \<le> AroundDuration (1 / 20) draw base"
proof -
  let ?f = "1 + 1 / 20 - 2 * (1 / 20) * draw :: rat"
  have "1 \<le> 19 / 20 * (2 :: rat)" by simp
  also have "\<dots> \<le> ?f * of_int base" using around_factor [OF assms(1,2)] assms(3) by (intro mult_mono) auto
  finally have "1 \<le> ?f * of_int base" .
  then show ?thesis by (simp add: AroundDuration_def trunc_def le_floor_iff)
qed

text \<open>The jitter is bounded whatever deviation is configured: the deviation is clamped to the unit interval, and a
  jittered duration lies between \<open>1 - deviation\<close> and \<open>1 + deviation\<close> times the base, up to the truncation to
  a whole nanosecond.\<close>

lemma jitter_bounds:
  assumes "0 \<le> draw" and "draw \<le> 1" and "0 \<le> base"
  shows "0 \<le> NewUnstable d \<and> NewUnstable d \<le> 1 \<and>
    (1 - NewUnstable d) * of_int base - 1 < of_int (AroundDuration (NewUnstable d) draw base) \<and>
    of_int (AroundDuration (NewUnstable d) draw base) \<le> (1 + NewUnstable d) * of_int base"
proof -
  define u where "u = NewUnstable d"
  let ?f = "1 + u - 2 * u * draw"
  have u: "0 \<le> u" "u \<le> 1" by (simp_all add: u_def NewUnstable_def Let_def)
  have "u * draw \<le> u * 1" using assms(1,2) u by (intro mult_left_mono) auto
  then have f: "1 - u \<le> ?f" "?f \<le> 1 + u" using assms(1) u by simp_all
  have b: "0 \<le> (of_int base :: rat)" using assms(3) by simp
  have p: "(1 - u) * of_int base \<le> ?f * of_int base" "?f * of_int base \<le> (1 + u) * of_int base"
    using mult_right_mono [OF f(1) b] mult_right_mono [OF f(2) b] by blast+
  have "0 \<le> ?f * of_int base" using u f(1) b by (intro mult_nonneg_nonneg) auto
  then have a: "AroundDuration u draw base = \<lfloor>?f * of_int base\<rfloor>" by (simp add: AroundDuration_def trunc_def)
  have "?f * of_int base - 1 < of_int \<lfloor>?f * of_int base\<rfloor>" "of_int \<lfloor>?f * of_int base\<rfloor> \<le> ?f * of_int base" by linarith+
  then show ?thesis using p u unfolding u_def [symmetric] a by linarith
qed

end
