(* ===== verification/Lru_Cache.thy ===== *)
theory Lru_Cache
  imports Timing_Wheel Jitter "HOL-Library.Word"
begin

text \<open>
  \<open>src/infra/collection/cache.go\<close>: an in-memory cache whose entries expire through a timing wheel and, with
  \<open>WithLimit\<close>, are evicted in the order of their last use.

  The methods of \<open>Cache\<close> are atomic steps.  A task that the wheel hands to its executor runs in its own
  goroutine: it is kept in \<open>c_due\<close> until a step of its own (\<open>run_due\<close>) deletes the key.
\<close>

definition expiryDeviation :: rat where
  "expiryDeviation = 1 / 20"

section \<open>The recency list\<close>

text \<open>
  A \<open>list.Element\<close> is a pair of its identity and its value; \<open>elements\<close> maps a key to its element.  The operations return the keys for which \<open>onEvict\<close> is called.
\<close>

record keyLru =
  limit :: int
  evicts :: "(nat \<times> string) list"
  elements :: "(string, nat \<times> string) gomap"
  next_elem :: nat

definition newKeyLru :: "int \<Rightarrow> keyLru" where
  "newKeyLru mx = \<lparr>limit = mx, evicts = [], elements = [], next_elem = 0\<rparr>"

definition MoveToFront :: "nat \<times> string \<Rightarrow> (nat \<times> string) list \<Rightarrow> (nat \<times> string) list" where
  "MoveToFront e l = filter (\<lambda>x. fst x = fst e) l @ filter (\<lambda>x. fst x \<noteq> fst e) l"

definition removeElement :: "nat \<times> string \<Rightarrow> keyLru \<Rightarrow> string list \<times> keyLru" where
  "removeElement e k =
     ([snd e], k\<lparr>evicts := filter (\<lambda>x. fst x \<noteq> fst e) (evicts k), elements := gm_del (snd e) (elements k)\<rparr>)"

definition removeOldest :: "keyLru \<Rightarrow> string list \<times> keyLru" where
  "removeOldest k = (if evicts k = [] then ([], k) else removeElement (last (evicts k)) k)"

definition keyLru_add :: "string \<Rightarrow> keyLru \<Rightarrow> string list \<times> keyLru" where
  "keyLru_add key k =
     (case gm_get (elements k) key of
        Some e \<Rightarrow> ([], k\<lparr>evicts := MoveToFront e (evicts k)\<rparr>)
      | None \<Rightarrow>
          let k = k\<lparr>evicts := (next_elem k, key) # evicts k, elements := gm_set key (next_elem k, key) (elements k),
                    next_elem := next_elem k + 1\<rparr>
          in if int (length (evicts k)) > limit k then removeOldest k else ([], k))"

definition keyLru_remove :: "string \<Rightarrow> keyLru \<Rightarrow> string list \<times> keyLru" where
  "keyLru_remove key k =
     (case gm_get (elements k) key of
        Some e \<Rightarrow> removeElement e k
      | None \<Rightarrow> ([], k))"

text \<open>The interface \<open>lru\<close> and its two implementations.\<close>

datatype lru = emptyLru | KeyLru keyLru

fun lru_add :: "string \<Rightarrow> lru \<Rightarrow> string list \<times> lru" where
  "lru_add key emptyLru = ([], emptyLru)"
| "lru_add key (KeyLru k) = (case keyLru_add key k of (ev, k') \<Rightarrow> (ev, KeyLru k'))"

fun lru_remove :: "string \<Rightarrow> lru \<Rightarrow> string list \<times> lru" where
  "lru_remove key emptyLru = ([], emptyLru)"
| "lru_remove key (KeyLru k) = (case keyLru_remove key k of (ev, k') \<Rightarrow> (ev, KeyLru k'))"

section \<open>The cache\<close>

record 'v Cache =
  c_data :: "(string, 'v) gomap"
  c_expire :: int
  wheel :: "(string, 'v) TimingWheel"
  lruCache :: lru
  deviation :: rat
  hit :: "64 word"
  miss :: "64 word"
  c_due :: "string list"

definition cache_slots :: int where
  "cache_slots = 300"

definition time_Second :: int where
  "time_Second = 1000000000"

text \<open>\<open>WithLimit\<close> gives \<^term>\<open>Some mx\<close>.\<close>

definition NewCache :: "int \<Rightarrow> int option \<Rightarrow> tw_error + 'v Cache" where
  "NewCache expire mx =
     (case NewTimingWheel time_Second cache_slots False of
        Inl e \<Rightarrow> Inl e
      | Inr tw \<Rightarrow>
          Inr \<lparr>c_data = [], c_expire = expire, wheel = tw,
               lruCache = (case mx of None \<Rightarrow> emptyLru | Some l \<Rightarrow> if l > 0 then KeyLru (newKeyLru l) else emptyLru),
               deviation = NewUnstable expiryDeviation, hit = 0, miss = 0, c_due = []\<rparr>)"

text \<open>A failing request to the wheel is logged and changes nothing.\<close>

definition remove_timer :: "string \<Rightarrow> 'v Cache \<Rightarrow> 'v Cache" where
  "remove_timer key c = (case RemoveTimer (Some key) (wheel c) of Inl e \<Rightarrow> c | Inr tw \<Rightarrow> c\<lparr>wheel := tw\<rparr>)"

definition apply_timer :: "tw_error + (string \<times> 'v) list \<times> (string, 'v) TimingWheel \<Rightarrow> 'v Cache \<Rightarrow> 'v Cache" where
  "apply_timer r c =
     (case r of Inl e \<Rightarrow> c | Inr (tasks, tw) \<Rightarrow> c\<lparr>wheel := tw, c_due := c_due c @ map fst tasks\<rparr>)"

definition onEvict :: "string \<Rightarrow> 'v Cache \<Rightarrow> 'v Cache" where
  "onEvict key c = remove_timer key (c\<lparr>c_data := gm_del key (c_data c)\<rparr>)"

definition touch :: "string \<Rightarrow> 'v Cache \<Rightarrow> 'v Cache" where
  "touch key c = (case lru_add key (lruCache c) of (ev, l) \<Rightarrow> fold onEvict ev (c\<lparr>lruCache := l\<rparr>))"

definition forget :: "string \<Rightarrow> 'v Cache \<Rightarrow> 'v Cache" where
  "forget key c = (case lru_remove key (lruCache c) of (ev, l) \<Rightarrow> fold onEvict ev (c\<lparr>lruCache := l\<rparr>))"

definition Cache_Del :: "string \<Rightarrow> 'v Cache \<Rightarrow> 'v Cache" where
  "Cache_Del key c = remove_timer key (forget key (c\<lparr>c_data := gm_del key (c_data c)\<rparr>))"

definition doGet :: "string \<Rightarrow> 'v Cache \<Rightarrow> 'v option \<times> 'v Cache" where
  "doGet key c =
     (case gm_get (c_data c) key of
        Some v \<Rightarrow> (Some v, touch key c)
      | None \<Rightarrow> (None, c))"

definition IncrementHit :: "'v Cache \<Rightarrow> 'v Cache" where
  "IncrementHit c = c\<lparr>hit := hit c + 1\<rparr>"

definition IncrementMiss :: "'v Cache \<Rightarrow> 'v Cache" where
  "IncrementMiss c = c\<lparr>miss := miss c + 1\<rparr>"

definition Cache_Get :: "string \<Rightarrow> 'v Cache \<Rightarrow> 'v option \<times> 'v Cache" where
  "Cache_Get key c =
     (case doGet key c of
        (Some v, c) \<Rightarrow> (Some v, IncrementHit c)
      | (None, c) \<Rightarrow> (None, IncrementMiss c))"

text \<open>\<open>LoadOrStore\<close> stores only when the key is absent.\<close>

definition SetWithExpire :: "rat \<Rightarrow> string \<Rightarrow> 'v \<Rightarrow> int \<Rightarrow> 'v Cache \<Rightarrow> 'v Cache" where
  "SetWithExpire draw key val expire c =
     (let loaded = (gm_get (c_data c) key \<noteq> None);
          c = (if loaded then c else c\<lparr>c_data := gm_set key val (c_data c)\<rparr>);
          c = touch key c;
          expiry = AroundDuration (deviation c) draw expire
      in apply_timer (if loaded then MoveTimer (Some key) expiry (wheel c) else SetTimer (Some key) val expiry (wheel c)) c)"

definition Cache_Set :: "rat \<Rightarrow> string \<Rightarrow> 'v \<Rightarrow> 'v Cache \<Rightarrow> 'v Cache" where
  "Cache_Set draw key val c = SetWithExpire draw key val (c_expire c) c"

text \<open>\<open>Take\<close> for a call that runs its own fetch: the single-flight barrier lets one caller at a time through.\<close>

definition Cache_Take :: "rat \<Rightarrow> string \<Rightarrow> ('e + 'v) \<Rightarrow> 'v Cache \<Rightarrow> ('e + 'v) \<times> 'v Cache" where
  "Cache_Take draw key fetch c =
     (case doGet key c of
        (Some v, c) \<Rightarrow> (Inr v, IncrementHit c)
      | (None, c) \<Rightarrow>
          (case doGet key c of
             (Some v, c) \<Rightarrow> (Inr v, IncrementHit c)
           | (None, c) \<Rightarrow>
               (case fetch of
                  Inl e \<Rightarrow> (Inl e, c)
                | Inr v \<Rightarrow> (Inr v, IncrementMiss (Cache_Set draw key v c)))))"


text \<open>The ticks of the wheel, and a goroutine that runs the \<open>i\<close>-th task handed out.\<close>

definition cache_tick :: "'v Cache \<Rightarrow> 'v Cache" where
  "cache_tick c = (case onTick (wheel c) of (tasks, tw) \<Rightarrow> c\<lparr>wheel := tw, c_due := c_due c @ map fst tasks\<rparr>)"

definition run_due :: "nat \<Rightarrow> 'v Cache \<Rightarrow> 'v Cache" where
  "run_due i c =
     (if i < length (c_due c)
      then Cache_Del (c_due c ! i) (c\<lparr>c_due := take i (c_due c) @ drop (i + 1) (c_due c)\<rparr>)
      else c)"

section \<open>Least recently used\<close>

definition lru_wf :: "keyLru \<Rightarrow> bool" where
  "lru_wf k \<longleftrightarrow>
     distinct (map fst (evicts k)) \<and> distinct (map snd (evicts k)) \<and> (\<forall>e \<in> set (evicts k). fst e < next_elem k) \<and>
     (\<forall>key e. gm_get (elements k) key = Some e \<longleftrightarrow> e \<in> set (evicts k) \<and> snd e = key)"

definition recency :: "keyLru \<Rightarrow> string list" where
  "recency k = map snd (evicts k)"

definition lru_ok :: "keyLru \<Rightarrow> bool" where
  "lru_ok k \<longleftrightarrow> lru_wf k \<and> int (length (recency k)) \<le> limit k \<and> 1 \<le> limit k"

lemma lru_wfD:
  assumes "lru_wf k"
  shows "distinct (map fst (evicts k))" "distinct (map snd (evicts k))" "e \<in> set (evicts k) \<Longrightarrow> fst e < next_elem k"
    and "gm_get (elements k) key = Some e \<longleftrightarrow> e \<in> set (evicts k) \<and> snd e = key"
    and "gm_get (elements k) key = None \<longleftrightarrow> key \<notin> set (recency k)"
proof -
  show e: "gm_get (elements k) key = Some e \<longleftrightarrow> e \<in> set (evicts k) \<and> snd e = key" for key e using assms unfolding lru_wf_def by blast
  show "gm_get (elements k) key = None \<longleftrightarrow> key \<notin> set (recency k)"
  proof (cases "gm_get (elements k) key")
    case None
    then show ?thesis using e [of key] by (auto simp: recency_def)
  next
    case (Some x)
    then have "x \<in> set (evicts k)" "snd x = key" using e [of key x] by auto
    then show ?thesis using Some by (auto simp: recency_def)
  qed
qed (use assms in \<open>auto simp: lru_wf_def\<close>)

text \<open>In a list with distinct identities and distinct values, an element is determined by either.\<close>

lemma filter_element:
  assumes "distinct (map fst l)" "distinct (map snd l)" "e \<in> set l"
  shows "filter (\<lambda>x. fst x = fst e) l = [e]" "map snd (filter (\<lambda>x. fst x \<noteq> fst e) l) = removeAll (snd e) (map snd l)"
    and "length (filter (\<lambda>x. fst x \<noteq> fst e) l) = length l - 1"
proof -
  have "filter (\<lambda>x. fst x = fst e) l = [e] \<and> map snd (filter (\<lambda>x. fst x \<noteq> fst e) l) = removeAll (snd e) (map snd l) \<and>
      length (filter (\<lambda>x. fst x \<noteq> fst e) l) = length l - 1"
    using assms
  proof (induction l)
    case (Cons x l)
    show ?case
    proof (cases "e = x")
      case True
      have "\<forall>y \<in> set l. fst y \<noteq> fst x" "\<forall>y \<in> set l. snd y \<noteq> snd x" using Cons.prems by (auto simp: image_iff)
      moreover from this have "snd x \<notin> set (map snd l)" by auto
      ultimately show ?thesis using True by (simp add: filter_id_conv filter_empty_conv)
    next
      case False
      then have "e \<in> set l" "fst x \<noteq> fst e" "snd x \<noteq> snd e" using Cons.prems by (auto simp: image_iff)
      then show ?thesis using Cons by (cases l) auto
    qed
  qed simp
  then show "filter (\<lambda>x. fst x = fst e) l = [e]" "map snd (filter (\<lambda>x. fst x \<noteq> fst e) l) = removeAll (snd e) (map snd l)"
    "length (filter (\<lambda>x. fst x \<noteq> fst e) l) = length l - 1" by blast+
qed

lemma removeElement_correct:
  assumes wf: "lru_wf k" and e: "e \<in> set (evicts k)"
  shows "fst (removeElement e k) = [snd e]" "lru_wf (snd (removeElement e k))" "limit (snd (removeElement e k)) = limit k"
    and "recency (snd (removeElement e k)) = removeAll (snd e) (recency k)" "length (recency (snd (removeElement e k))) = length (recency k) - 1"
proof -
  note w = lru_wfD [OF wf] and f = filter_element [OF lru_wfD(1,2) [OF wf] e]
  have mem: "x \<in> set (evicts k) \<and> fst x \<noteq> fst e \<longleftrightarrow> x \<in> set (evicts k) \<and> snd x \<noteq> snd e" for x
    using w(1,2) e by (metis eq_key_imp_eq_value prod.collapse distinct_map inj_on_eq_iff)
  have "gm_get (gm_del (snd e) (elements k)) key = Some x \<longleftrightarrow> x \<in> set (evicts k) \<and> fst x \<noteq> fst e \<and> snd x = key" for key x
    using w(4) [of key x] mem [of x] by (auto simp: gomap_simps)
  then show "lru_wf (snd (removeElement e k))"
    using w(1,2,3) by (auto simp: lru_wf_def removeElement_def distinct_map_filter)
  show "fst (removeElement e k) = [snd e]" "limit (snd (removeElement e k)) = limit k" by (simp_all add: removeElement_def)
  show "recency (snd (removeElement e k)) = removeAll (snd e) (recency k)" using f(2) by (simp add: removeElement_def recency_def)
  show "length (recency (snd (removeElement e k))) = length (recency k) - 1" using f(3) by (simp add: removeElement_def recency_def)
qed

lemma removeAll_last: "distinct xs \<Longrightarrow> xs \<noteq> [] \<Longrightarrow> removeAll (last xs) xs = butlast xs"
  by (cases xs rule: rev_cases) auto

lemma drop_last: "length xs = Suc n \<Longrightarrow> drop n xs = [last xs]"
  by (cases xs rule: rev_cases) auto

lemma keyLru_add_correct:
  assumes ok: "lru_ok k"
  shows "lru_ok (snd (keyLru_add key k))" "limit (snd (keyLru_add key k)) = limit k"
    and "recency (snd (keyLru_add key k)) = take (nat (limit k)) (key # removeAll key (recency k))"
    and "fst (keyLru_add key k) = drop (nat (limit k)) (key # removeAll key (recency k))"
proof -
  have wf: "lru_wf k" and len: "length (recency k) \<le> nat (limit k)" and l: "1 \<le> limit k" using ok by (simp_all add: lru_ok_def nat_le_iff le_nat_iff)
  note w = lru_wfD [OF wf]
  have "lru_ok (snd (keyLru_add key k)) \<and> limit (snd (keyLru_add key k)) = limit k \<and>
    recency (snd (keyLru_add key k)) = take (nat (limit k)) (key # removeAll key (recency k)) \<and>
    fst (keyLru_add key k) = drop (nat (limit k)) (key # removeAll key (recency k))"
  proof (cases "gm_get (elements k) key")
    case (Some e)
    then have e: "e \<in> set (evicts k)" "snd e = key" using w(4) by auto
    note f = filter_element [OF w(1,2) e(1)]
    let ?k = "k\<lparr>evicts := MoveToFront e (evicts k)\<rparr>"
    have mf: "MoveToFront e (evicts k) = e # filter (\<lambda>x. fst x \<noteq> fst e) (evicts k)" by (simp add: MoveToFront_def f(1))
    have r: "recency ?k = key # removeAll key (recency k)" using f(2) e by (simp add: mf recency_def)
    have pos: "length (evicts k) > 0" using e(1) by (cases "evicts k") auto
    have lenr: "length (recency ?k) = length (recency k)" using f(3) pos by (simp add: mf recency_def)
    have sete: "set (evicts ?k) = set (evicts k)" by (auto simp: MoveToFront_def)
    have "distinct (map snd (evicts ?k))" using r w(2) unfolding recency_def by (simp add: distinct_removeAll)
    moreover have "distinct (map fst (evicts ?k))" using w(1) by (auto simp: mf distinct_map_filter)
    ultimately have "lru_wf ?k" using w(3,4) sete by (simp add: lru_wf_def)
    then have "lru_ok ?k" using lenr ok by (simp add: lru_ok_def)
    moreover have "keyLru_add key k = ([], ?k)" using Some by (simp add: keyLru_add_def)
    moreover have "length (key # removeAll key (recency k)) \<le> nat (limit k)" using lenr r len by simp
    ultimately show ?thesis using r by simp
  next
    case None
    then have nin: "key \<notin> set (recency k)" using w(5) by simp
    let ?k = "k\<lparr>evicts := (next_elem k, key) # evicts k, elements := gm_set key (next_elem k, key) (elements k), next_elem := next_elem k + 1\<rparr>"
    have r: "recency ?k = key # recency k" "removeAll key (recency k) = recency k" using nin by (simp_all add: recency_def)
    have el: "gm_get (gm_set key (next_elem k, key) (elements k)) key' = Some x \<longleftrightarrow> (x = (next_elem k, key) \<or> x \<in> set (evicts k)) \<and> snd x = key'" for key' x
      using w(4) [of key' x] nin by (auto simp: gomap_simps recency_def image_iff)
    have fr: "next_elem k \<notin> fst ` set (evicts k)" using w(3) by fastforce
    have wf': "lru_wf ?k" using w(1,2,3) nin el fr by (auto simp: lru_wf_def recency_def less_SucI)
    show ?thesis
    proof (cases "int (length (evicts k)) + 1 > limit k")
      case False
      then have "keyLru_add key k = ([], ?k)" using None by (simp add: keyLru_add_def Let_def)
      moreover have "length (recency ?k) \<le> nat (limit k)" using False by (simp add: recency_def)
      ultimately show ?thesis using wf' r l by (simp add: lru_ok_def)
    next
      case True
      then have n: "length (recency k) = nat (limit k)" using len by (simp add: recency_def)
      let ?e = "last (evicts ?k)"
      have e: "?e \<in> set (evicts ?k)" by (rule last_in_set) simp
      note re = removeElement_correct [OF wf' e]
      have add: "keyLru_add key k = removeElement ?e ?k" using None True by (simp add: keyLru_add_def removeOldest_def Let_def)
      have le: "snd ?e = last (key # recency k)" by (simp add: recency_def last_map)
      have d: "distinct (key # recency k)" using w(2) nin by (simp add: recency_def)
      have "recency (snd (removeElement ?e ?k)) = butlast (key # recency k)"
        using re(4) r(1) le removeAll_last [OF d] by simp
      also have "\<dots> = take (nat (limit k)) (key # recency k)" by (simp add: butlast_conv_take n)
      finally have rec: "recency (snd (removeElement ?e ?k)) = take (nat (limit k)) (key # recency k)" .
      have "drop (nat (limit k)) (key # recency k) = [last (key # recency k)]"
        by (rule drop_last) (simp add: n)
      moreover have "lru_ok (snd (removeElement ?e ?k))" using re(2,3,5) r(1) n l by (simp add: lru_ok_def)
      ultimately show ?thesis using add rec re(1,3) le r(2) by simp
    qed
  qed
  then show "lru_ok (snd (keyLru_add key k))" "limit (snd (keyLru_add key k)) = limit k"
    "recency (snd (keyLru_add key k)) = take (nat (limit k)) (key # removeAll key (recency k))"
    "fst (keyLru_add key k) = drop (nat (limit k)) (key # removeAll key (recency k))" by blast+
qed

lemma keyLru_remove_correct:
  assumes ok: "lru_ok k"
  shows "lru_ok (snd (keyLru_remove key k))" "limit (snd (keyLru_remove key k)) = limit k"
    and "recency (snd (keyLru_remove key k)) = removeAll key (recency k)"
    and "fst (keyLru_remove key k) = (if key \<in> set (recency k) then [key] else [])"
proof -
  have wf: "lru_wf k" using ok by (simp add: lru_ok_def)
  note w = lru_wfD [OF wf]
  have "lru_ok (snd (keyLru_remove key k)) \<and> limit (snd (keyLru_remove key k)) = limit k \<and>
    recency (snd (keyLru_remove key k)) = removeAll key (recency k) \<and> fst (keyLru_remove key k) = (if key \<in> set (recency k) then [key] else [])"
  proof (cases "gm_get (elements k) key")
    case None
    then show ?thesis using ok w(5) [of key] by (simp add: keyLru_remove_def)
  next
    case (Some e)
    then have e: "e \<in> set (evicts k)" "snd e = key" using w(4) by auto
    note re = removeElement_correct [OF wf e(1)]
    have "length (recency (snd (removeElement e k))) \<le> length (recency k)" by (simp only: re(5) diff_le_self)
    then have "lru_ok (snd (removeElement e k))" using re(2,3) ok unfolding lru_ok_def by linarith
    with re e(2) Some w(5) [of key] show ?thesis by (simp add: keyLru_remove_def)
  qed
  then show "lru_ok (snd (keyLru_remove key k))" "limit (snd (keyLru_remove key k)) = limit k"
    "recency (snd (keyLru_remove key k)) = removeAll key (recency k)"
    "fst (keyLru_remove key k) = (if key \<in> set (recency k) then [key] else [])" by blast+
qed

lemma newKeyLru_ok: "1 \<le> mx \<Longrightarrow> lru_ok (newKeyLru mx)" "recency (newKeyLru mx) = []"
  by (simp_all add: newKeyLru_def lru_ok_def lru_wf_def recency_def)

text \<open>A sequence of uses and removals, with the keys evicted on the way.\<close>

datatype lru_op = Use string | Drop string

fun run_lru :: "lru_op list \<Rightarrow> keyLru \<Rightarrow> string list list \<times> keyLru" where
  "run_lru [] k = ([], k)"
| "run_lru (Use key # ops) k =
     (let (ev, k) = keyLru_add key k; (evs, k) = run_lru ops k in (ev # evs, k))"
| "run_lru (Drop key # ops) k =
     (let (ev, k) = keyLru_remove key k; (evs, k) = run_lru ops k in (ev # evs, k))"

text \<open>The contract: a list of at most \<open>n\<close> keys in the order of last use.\<close>

fun spec_lru :: "nat \<Rightarrow> lru_op list \<Rightarrow> string list \<Rightarrow> string list list \<times> string list" where
  "spec_lru n [] xs = ([], xs)"
| "spec_lru n (Use key # ops) xs =
     (let ys = key # removeAll key xs; (evs, zs) = spec_lru n ops (take n ys) in (drop n ys # evs, zs))"
| "spec_lru n (Drop key # ops) xs =
     (let (evs, zs) = spec_lru n ops (removeAll key xs) in ((if key \<in> set xs then [key] else []) # evs, zs))"

lemma run_lru_correct:
  assumes "lru_ok k"
  shows "fst (run_lru ops k) = fst (spec_lru (nat (limit k)) ops (recency k)) \<and>
    recency (snd (run_lru ops k)) = snd (spec_lru (nat (limit k)) ops (recency k)) \<and> lru_ok (snd (run_lru ops k)) \<and> limit (snd (run_lru ops k)) = limit k"
  using assms
proof (induction ops arbitrary: k)
  case (Cons a ops)
  show ?case
  proof (cases a)
    case (Use key)
    with Cons.IH [OF keyLru_add_correct(1) [OF Cons.prems, of key]] keyLru_add_correct(2-4) [OF Cons.prems, of key]
    show ?thesis by (simp add: case_prod_beta Let_def)
  next
    case (Drop key)
    with Cons.IH [OF keyLru_remove_correct(1) [OF Cons.prems, of key]] keyLru_remove_correct(2-4) [OF Cons.prems, of key]
    show ?thesis by (simp add: case_prod_beta Let_def)
  qed
qed simp

text \<open>The recency list evicts in least-recently-used order: over any sequence of uses and removals the keys it holds
  are the most recently used ones, newest first and at most as many as the limit, and what it evicts is what falls off
  the end of that list.\<close>

theorem lru_evicts_least_recent:
  assumes "1 \<le> mx"
  shows "fst (run_lru ops (newKeyLru mx)) = fst (spec_lru (nat mx) ops []) \<and>
    recency (snd (run_lru ops (newKeyLru mx))) = snd (spec_lru (nat mx) ops [])"
  using run_lru_correct [OF newKeyLru_ok(1) [OF assms], of ops] newKeyLru_ok(2) [of mx] by (simp_all add: newKeyLru_def)

theorem lru_evicts_least_recent_witness:
  "fst (run_lru [Use ''a'', Use ''b'', Use ''a'', Use ''c''] (newKeyLru 2)) = [[], [], [], [''b'']] \<and>
   recency (snd (run_lru [Use ''a'', Use ''b'', Use ''a'', Use ''c''] (newKeyLru 2))) = [''c'', ''a'']"
  using lru_evicts_least_recent [of 2 "[Use ''a'', Use ''b'', Use ''a'', Use ''c'']"] by simp

section \<open>The interface of an eviction policy\<close>

text \<open>
  What the cache relies on: \<open>tracks s K\<close> says that the policy in state \<open>s\<close> knows the cached keys \<open>K\<close>.
  Using a key evicts other cached keys only, and removing a key evicts that key at most; the policy knows what is
  left.
\<close>

locale eviction_policy =
  fixes padd premove :: "string \<Rightarrow> 's \<Rightarrow> string list \<times> 's" and tracks :: "'s \<Rightarrow> string set \<Rightarrow> bool"
  assumes add_evicts: "tracks s K \<Longrightarrow> set (fst (padd key s)) \<subseteq> K - {key}"
    and add_tracks: "tracks s K \<Longrightarrow> tracks (snd (padd key s)) (insert key K - set (fst (padd key s)))"
    and remove_evicts: "tracks s K \<Longrightarrow> set (fst (premove key s)) \<subseteq> {key}"
    and remove_tracks: "tracks s K \<Longrightarrow> tracks (snd (premove key s)) (K - {key})"
begin

definition holds_after :: "string list \<Rightarrow> string set \<Rightarrow> string set" where
  "holds_after ev K = K - set ev"

lemma use_known:
  assumes "tracks s K" "key \<in> K"
  shows "tracks (snd (padd key s)) (holds_after (fst (padd key s)) K)" "key \<in> holds_after (fst (padd key s)) K"
  using add_tracks [OF assms(1), of key] add_evicts [OF assms(1), of key] assms(2)
  by (auto simp: holds_after_def insert_absorb)

lemma use_new:
  assumes "tracks s K"
  shows "key \<in> holds_after (fst (padd key s)) (insert key K)"
  using add_evicts [OF assms, of key] by (auto simp: holds_after_def)

lemma drop_known:
  assumes "tracks s K"
  shows "holds_after (fst (premove key s)) (K - {key}) = K - {key}"
  using remove_evicts [OF assms, of key] by (auto simp: holds_after_def)

end

lemma set_take_drop:
  assumes "distinct xs"
  shows "set (take n xs) = set xs - set (drop n xs)"
proof -
  have "set xs = set (take n xs) \<union> set (drop n xs)" by (metis append_take_drop_id set_append)
  with set_take_disj_set_drop_if_distinct [OF assms, of n n] show ?thesis by blast
qed

fun lru_tracks :: "lru \<Rightarrow> string set \<Rightarrow> bool" where
  "lru_tracks emptyLru K = True"
| "lru_tracks (KeyLru k) K = (lru_ok k \<and> set (recency k) = K)"

interpretation pol: eviction_policy lru_add lru_remove lru_tracks
proof
  fix s K key
  assume t: "lru_tracks s K"
  have "set (fst (lru_add key s)) \<subseteq> K - {key} \<and> lru_tracks (snd (lru_add key s)) (insert key K - set (fst (lru_add key s))) \<and>
    set (fst (lru_remove key s)) \<subseteq> {key} \<and> lru_tracks (snd (lru_remove key s)) (K - {key})"
  proof (cases s)
    case (KeyLru k)
    then have ok: "lru_ok k" and K: "set (recency k) = K" using t by auto
    note a = keyLru_add_correct [OF ok, of key] and r = keyLru_remove_correct [OF ok, of key]
    have n: "nat (limit k) = Suc (nat (limit k) - 1)" using ok by (simp add: lru_ok_def)
    let ?ys = "key # removeAll key (recency k)"
    have d: "distinct ?ys" using lru_wfD(2) [of k] ok by (simp add: lru_ok_def recency_def distinct_removeAll)
    have "set (take (nat (limit k)) ?ys) = set ?ys - set (drop (nat (limit k)) ?ys)"
      by (rule set_take_drop [OF d])
    moreover have "key \<notin> set (drop (nat (limit k)) ?ys)"
      using d in_set_dropD [of key "nat (limit k) - 1" "removeAll key (recency k)"] by (subst n) auto
    moreover have "set (drop (nat (limit k)) ?ys) \<subseteq> insert key K" using K set_drop_subset [of "nat (limit k)" ?ys] by auto
    ultimately show ?thesis using KeyLru a r K by (auto simp: case_prod_beta)
  qed simp
  then show "set (fst (lru_add key s)) \<subseteq> K - {key}" "lru_tracks (snd (lru_add key s)) (insert key K - set (fst (lru_add key s)))"
    "set (fst (lru_remove key s)) \<subseteq> {key}" "lru_tracks (snd (lru_remove key s)) (K - {key})" by blast+
qed

section \<open>Consistency of data, policy and timers\<close>

lemma timer_step_dom:
  assumes "timer_step n i T q out T'"
  shows "dom T' = (case q of ReqSet k v d \<Rightarrow> insert k (dom T) | ReqMove k d \<Rightarrow> dom T | ReqRemove k \<Rightarrow> dom T - {k} | ReqTick \<Rightarrow> dom T - fst ` out)"
    and "fst ` out \<subseteq> dom T"
  using assms by (cases rule: timer_step.cases; auto simp: dom_def image_iff split: option.splits if_splits)+

lemma stopped_wheel [simp]:
  "stopped (removeTask k tw) = stopped tw" "stopped (snd (moveTask d k tw)) = stopped tw"
  "stopped (snd (setTask d k v tw)) = stopped tw" "stopped (snd (onTick tw)) = stopped tw"
proof -
  show "stopped (removeTask k tw) = stopped tw" by (auto simp: removeTask_def wheel_defs split: option.split)
  show m: "stopped (snd (moveTask d k tw)) = stopped tw" for d tw
    by (auto simp: moveTask_def wheel_defs Let_def case_prod_beta split: option.split)
  show "stopped (snd (setTask d k v tw)) = stopped tw"
    by (auto simp: setTask_def wheel_defs m Let_def case_prod_beta split: option.split)
  have one: "stopped (snd (scan_one r tw)) = stopped tw" for r and tw :: "('a, 'b) TimingWheel"
    by (simp add: scan_one_def wheel_defs Let_def)
  have "stopped (snd (scan_loop rs tw tasks)) = stopped tw" for rs tasks and tw :: "('a, 'b) TimingWheel"
    by (induction rs arbitrary: tw tasks) (simp_all add: one case_prod_beta)
  then show "stopped (snd (onTick tw)) = stopped tw" by (simp add: onTick_def scanAndRunTasks_def Let_def)
qed

definition base_ok :: "'v Cache \<Rightarrow> bool" where
  "base_ok c \<longleftrightarrow>
     gm_wf (c_data c) \<and> tw_inv (wheel c) \<and> \<not> stopped (wheel c) \<and> tw_interval (wheel c) = time_Second \<and> deviation c = 1 / 20"

definition keys :: "'v Cache \<Rightarrow> string set" where
  "keys c = gm_keys (c_data c)"

definition timed :: "'v Cache \<Rightarrow> string set" where
  "timed c = dom (remaining (wheel c))"

definition cache_ok :: "'v Cache \<Rightarrow> bool" where
  "cache_ok c \<longleftrightarrow> base_ok c \<and> lru_tracks (lruCache c) (keys c) \<and> timed c \<subseteq> keys c \<and> keys c \<subseteq> timed c \<union> set (c_due c)"

text \<open>The requests of the cache to its wheel.\<close>

lemma wheel_request:
  assumes "base_ok c"
  shows "base_ok (c\<lparr>wheel := snd (serve q (wheel c))\<rparr>)"
    and "timed (c\<lparr>wheel := snd (serve q (wheel c))\<rparr>) =
      (case q of ReqSet k v d \<Rightarrow> insert k (timed c) | ReqMove k d \<Rightarrow> timed c | ReqRemove k \<Rightarrow> timed c - {k}
       | ReqTick \<Rightarrow> timed c - fst ` set (fst (serve q (wheel c))))"
    and "fst ` set (fst (serve q (wheel c))) \<subseteq> timed c"
proof -
  have inv: "tw_inv (wheel c)" using assms by (simp add: base_ok_def)
  note s = serve_refines [OF inv, of q]
  have "stopped (snd (serve q (wheel c))) = stopped (wheel c)" by (cases q) simp_all
  then show "base_ok (c\<lparr>wheel := snd (serve q (wheel c))\<rparr>)" using assms s(1,3) by (simp add: base_ok_def)
  show "timed (c\<lparr>wheel := snd (serve q (wheel c))\<rparr>) =
      (case q of ReqSet k v d \<Rightarrow> insert k (timed c) | ReqMove k d \<Rightarrow> timed c | ReqRemove k \<Rightarrow> timed c - {k}
       | ReqTick \<Rightarrow> timed c - fst ` set (fst (serve q (wheel c))))"
    using timer_step_dom(1) [OF s(4)] by (cases q) (simp_all add: timed_def)
  show "fst ` set (fst (serve q (wheel c))) \<subseteq> timed c" using timer_step_dom(2) [OF s(4)] by (simp add: timed_def)
qed

lemma remove_timer_eq: "base_ok c \<Longrightarrow> remove_timer key c = c\<lparr>wheel := snd (serve (ReqRemove key) (wheel c))\<rparr>"
  by (simp add: remove_timer_def RemoveTimer_def base_ok_def)

lemma keys_del: "fst ` set (gm_del k m) = fst ` set m - {k}"
  by (auto simp: AList.delete_eq)

lemma keys_set: "fst ` set (gm_set k v m) = insert k (fst ` set m)"
  by (simp add: gm_get_fun flip: dom_map_of_conv_image_fst)

lemma onEvict_correct:
  assumes "base_ok c"
  shows "base_ok (onEvict k c)" "keys (onEvict k c) = keys c - {k}" "timed (onEvict k c) = timed c - {k}"
    and "lruCache (onEvict k c) = lruCache c" "c_due (onEvict k c) = c_due c" "gm_get (c_data (onEvict k c)) = (gm_get (c_data c))(k := None)"
proof -
  let ?c = "c\<lparr>c_data := gm_del k (c_data c)\<rparr>"
  have b: "base_ok ?c" using assms by (simp add: base_ok_def)
  have e: "onEvict k c = ?c\<lparr>wheel := snd (serve (ReqRemove k) (wheel ?c))\<rparr>" using remove_timer_eq [OF b] by (simp add: onEvict_def)
  show "base_ok (onEvict k c)" using wheel_request(1) [OF b, of "ReqRemove k"] by (simp only: e)
  show "timed (onEvict k c) = timed c - {k}" using wheel_request(2) [OF b, of "ReqRemove k"] by (simp add: e timed_def)
  show "keys (onEvict k c) = keys c - {k}" "lruCache (onEvict k c) = lruCache c" "c_due (onEvict k c) = c_due c"
    "gm_get (c_data (onEvict k c)) = (gm_get (c_data c))(k := None)"
    by (simp_all add: e keys_def keys_del gm_get_fun)
qed

lemma evict_all_correct:
  assumes "base_ok c"
  shows "base_ok (fold onEvict ev c) \<and> keys (fold onEvict ev c) = keys c - set ev \<and> timed (fold onEvict ev c) = timed c - set ev \<and>
    lruCache (fold onEvict ev c) = lruCache c \<and> c_due (fold onEvict ev c) = c_due c \<and>
    (\<forall>k. k \<notin> set ev \<longrightarrow> gm_get (c_data (fold onEvict ev c)) k = gm_get (c_data c) k)"
  using assms
proof (induction ev arbitrary: c)
  case (Cons k ev)
  note o = onEvict_correct [OF Cons.prems, of k]
  from Cons.IH [OF o(1)] o(2-6) show ?case by auto
qed simp

lemma touch_correct:
  assumes b: "base_ok c" and t: "lru_tracks (lruCache c) K"
  obtains ev where "set ev \<subseteq> K - {key}" "base_ok (touch key c)" "keys (touch key c) = keys c - set ev" "timed (touch key c) = timed c - set ev"
    "lru_tracks (lruCache (touch key c)) (insert key K - set ev)" "c_due (touch key c) = c_due c"
    "gm_get (c_data (touch key c)) key = gm_get (c_data c) key"
proof -
  obtain ev l where a: "lru_add key (lruCache c) = (ev, l)" by (cases "lru_add key (lruCache c)")
  let ?c = "c\<lparr>lruCache := l\<rparr>"
  have b': "base_ok ?c" using b by (simp add: base_ok_def)
  have tc: "touch key c = fold onEvict ev ?c" using a by (simp add: touch_def)
  have ev: "set ev \<subseteq> K - {key}" using pol.add_evicts [OF t, of key] a by simp
  show ?thesis
    using evict_all_correct [OF b', of ev] pol.add_tracks [OF t, of key] a ev
    by (intro that [OF ev]) (auto simp: tc keys_def timed_def)
qed

lemma touch_ok:
  assumes "cache_ok c" "key \<in> keys c"
  shows "cache_ok (touch key c)" "gm_get (c_data (touch key c)) key = gm_get (c_data c) key" "c_due (touch key c) = c_due c"
proof -
  have c: "base_ok c" "lru_tracks (lruCache c) (keys c)" "timed c \<subseteq> keys c" "keys c \<subseteq> timed c \<union> set (c_due c)"
    using assms(1) by (simp_all add: cache_ok_def)
  show "cache_ok (touch key c)" "gm_get (c_data (touch key c)) key = gm_get (c_data c) key" "c_due (touch key c) = c_due c"
    by (rule touch_correct [OF c(1,2), of key]; use c(3,4) assms(2) in \<open>auto simp: cache_ok_def insert_absorb\<close>)+
qed

lemma Cache_Del_ok:
  assumes "cache_ok c \<or> (\<exists>ds. cache_ok (c\<lparr>c_due := ds\<rparr>) \<and> set ds \<subseteq> insert key (set (c_due c)))"
  shows "cache_ok (Cache_Del key c)" "keys (Cache_Del key c) = keys c - {key}"
proof -
  let ?c = "c\<lparr>c_data := gm_del key (c_data c)\<rparr>"
  from assms have b: "base_ok c" and t: "lru_tracks (lruCache c) (keys c)" and k: "timed c \<subseteq> keys c" "keys c \<subseteq> timed c \<union> insert key (set (c_due c))"
    by (auto simp: cache_ok_def base_ok_def keys_def timed_def)
  have b1: "base_ok ?c" "keys ?c = keys c - {key}" "timed ?c = timed c" using b by (simp_all add: base_ok_def keys_def keys_del timed_def)
  obtain ev l where r: "lru_remove key (lruCache c) = (ev, l)" by (cases "lru_remove key (lruCache c)")
  have ev: "set ev \<subseteq> {key}" "lru_tracks l (keys c - {key})" using pol.remove_evicts [OF t, of key] pol.remove_tracks [OF t, of key] r by simp_all
  define d where "d = fold onEvict ev (?c\<lparr>lruCache := l\<rparr>)"
  have "base_ok (?c\<lparr>lruCache := l\<rparr>)" using b1(1) by (simp add: base_ok_def)
  note e = evict_all_correct [OF this, of ev, folded d_def]
  have d: "base_ok d" "keys d = keys c - {key}" "timed d - {key} = timed c - {key}" "lruCache d = l" "c_due d = c_due c"
    using e b1(2,3) ev(1) by (auto simp: keys_def timed_def)
  have del: "Cache_Del key c = d\<lparr>wheel := snd (serve (ReqRemove key) (wheel d))\<rparr>"
    using r remove_timer_eq [OF d(1)] by (simp add: Cache_Del_def forget_def d_def)
  have "timed (Cache_Del key c) = timed c - {key}" using wheel_request(2) [OF d(1), of "ReqRemove key"] d(3) by (simp add: del)
  moreover show ks: "keys (Cache_Del key c) = keys c - {key}" using d(2) by (simp add: del keys_def)
  moreover have "base_ok (Cache_Del key c)" using wheel_request(1) [OF d(1), of "ReqRemove key"] by (simp only: del)
  ultimately show "cache_ok (Cache_Del key c)" using k d(4,5) ev(2) by (auto simp: cache_ok_def del)
qed

lemma expiry_pos:
  assumes "base_ok c" "0 \<le> draw" "draw \<le> 1" "2 \<le> base"
  shows "1 \<le> AroundDuration (deviation c) draw base"
proof -
  have "deviation c = 1 / 20" using assms(1) unfolding base_ok_def by blast
  then show ?thesis using around_pos [OF assms(2-4)] by (simp only:)
qed

lemma apply_set_ok:
  assumes b: "base_ok c" and e: "1 \<le> expiry"
  shows "apply_timer (SetTimer (Some key) v expiry (wheel c)) c = c\<lparr>wheel := snd (serve (ReqSet key v expiry) (wheel c)), c_due := c_due c @ map fst (fst (serve (ReqSet key v expiry) (wheel c)))\<rparr>"
    and "apply_timer (MoveTimer (Some key) expiry (wheel c)) c = c\<lparr>wheel := snd (serve (ReqMove key expiry) (wheel c)), c_due := c_due c @ map fst (fst (serve (ReqMove key expiry) (wheel c)))\<rparr>"
  using assms by (simp_all add: apply_timer_def SetTimer_def MoveTimer_def base_ok_def case_prod_beta)

lemma SetWithExpire_ok:
  assumes ok: "cache_ok c" and d: "0 \<le> draw" "draw \<le> 1" and e: "2 \<le> expire"
  shows "cache_ok (SetWithExpire draw key v expire c)"
    and "gm_get (c_data (SetWithExpire draw key v expire c)) key = (case gm_get (c_data c) key of None \<Rightarrow> Some v | Some old \<Rightarrow> Some old)"
proof -
  let ?res = "SetWithExpire draw key v expire c"
  from ok have b: "base_ok c" and t: "lru_tracks (lruCache c) (keys c)" and k: "timed c \<subseteq> keys c" "keys c \<subseteq> timed c \<union> set (c_due c)"
    by (simp_all add: cache_ok_def)
  have "cache_ok ?res \<and> gm_get (c_data ?res) key = (case gm_get (c_data c) key of None \<Rightarrow> Some v | Some old \<Rightarrow> Some old)"
  proof (cases "gm_get (c_data c) key")
    case (Some old)
    then have "key \<in> keys c" by (auto simp: keys_def dest: map_of_SomeD intro: rev_image_eqI)
    note tc = touch_ok [OF ok this]
    define c1 where "c1 = touch key c"
    have c1: "cache_ok c1" "base_ok c1" "gm_get (c_data c1) key = Some old" using tc Some by (simp_all add: c1_def cache_ok_def)
    have e1: "1 \<le> AroundDuration (deviation c1) draw expire" by (rule expiry_pos [OF c1(2) d e])
    have res: "?res = apply_timer (MoveTimer (Some key) (AroundDuration (deviation c1) draw expire) (wheel c1)) c1"
      using Some by (simp add: SetWithExpire_def c1_def Let_def)
    note w = wheel_request [OF c1(2), of "ReqMove key (AroundDuration (deviation c1) draw expire)"]
    show ?thesis using c1 w Some unfolding res apply_set_ok(2) [OF c1(2) e1]
      by (auto simp: cache_ok_def base_ok_def keys_def timed_def)
  next
    case None
    let ?c0 = "c\<lparr>c_data := gm_set key v (c_data c)\<rparr>"
    have c0: "base_ok ?c0" "lru_tracks (lruCache ?c0) (keys c)" "keys ?c0 = insert key (keys c)" "timed ?c0 = timed c"
      using b t by (simp_all add: base_ok_def keys_def timed_def keys_set)
    define c1 where "c1 = touch key ?c0"
    from touch_correct [OF c0(1,2), of key] obtain ev where c1: "set ev \<subseteq> keys c - {key}" "base_ok c1" "keys c1 = insert key (keys c) - set ev"
      "timed c1 = timed c - set ev" "lru_tracks (lruCache c1) (insert key (keys c) - set ev)" "c_due c1 = c_due c"
      "gm_get (c_data c1) key = Some v" unfolding c1_def using c0(3,4) by (auto simp: gomap_simps)
    have e1: "1 \<le> AroundDuration (deviation c1) draw expire" by (rule expiry_pos [OF c1(2) d e])
    have res: "?res = apply_timer (SetTimer (Some key) v (AroundDuration (deviation c1) draw expire) (wheel c1)) c1"
      using None by (simp add: SetWithExpire_def c1_def Let_def)
    note w = wheel_request [OF c1(2), of "ReqSet key v (AroundDuration (deviation c1) draw expire)"]
    have f: "base_ok ?res" "keys ?res = keys c1" "timed ?res = insert key (timed c1)" "lruCache ?res = lruCache c1" "set (c_due c1) \<subseteq> set (c_due ?res)"
      "c_data ?res = c_data c1"
      using w unfolding res apply_set_ok(1) [OF c1(2) e1] by (simp_all add: base_ok_def keys_def timed_def)
    have "cache_ok ?res" unfolding cache_ok_def f(1-4) using f(1,5) c1(1,3-6) k by auto
    then show ?thesis using None c1(7) f(6) by simp
  qed
  then show "cache_ok ?res" "gm_get (c_data ?res) key = (case gm_get (c_data c) key of None \<Rightarrow> Some v | Some old \<Rightarrow> Some old)" by blast+
qed

lemma doGet_ok:
  assumes "cache_ok c"
  shows "fst (doGet key c) = gm_get (c_data c) key" "cache_ok (snd (doGet key c))" "gm_get (c_data (snd (doGet key c))) key = gm_get (c_data c) key"
    and "c_expire (snd (doGet key c)) = c_expire c"
proof -
  have ex: "c_expire (onEvict k c') = c_expire c'" for k and c' :: "'a Cache" by (simp add: onEvict_def remove_timer_def split: sum.split)
  have "c_expire (fold onEvict ev c') = c_expire c'" for ev and c' :: "'a Cache" by (induction ev arbitrary: c') (simp_all add: ex)
  then have te: "c_expire (touch key c) = c_expire c" by (simp add: touch_def case_prod_beta)
  have "key \<in> keys c" if "gm_get (c_data c) key = Some v" for v
    using that by (auto simp: keys_def dest: map_of_SomeD intro: rev_image_eqI)
  with touch_ok [OF assms, of key] assms te
  show "fst (doGet key c) = gm_get (c_data c) key" "cache_ok (snd (doGet key c))" "gm_get (c_data (snd (doGet key c))) key = gm_get (c_data c) key"
    "c_expire (snd (doGet key c)) = c_expire c"
    by (auto simp: doGet_def split: option.split)
qed

lemma stats_ok [simp]: "cache_ok (IncrementHit c) = cache_ok c" "cache_ok (IncrementMiss c) = cache_ok c"
  by (simp_all add: IncrementHit_def IncrementMiss_def cache_ok_def base_ok_def keys_def timed_def)

lemma Cache_Get_ok: "cache_ok c \<Longrightarrow> cache_ok (snd (Cache_Get key c))" "cache_ok c \<Longrightarrow> fst (Cache_Get key c) = gm_get (c_data c) key"
  using doGet_ok [of c key] by (auto simp: Cache_Get_def case_prod_beta split: option.split prod.splits)

lemma Cache_Take_ok:
  assumes "cache_ok c" "0 \<le> draw" "draw \<le> 1" "2 \<le> c_expire c"
  shows "cache_ok (snd (Cache_Take draw key fetch c))"
proof -
  obtain r1 c1 where g1: "doGet key c = (r1, c1)" by (cases "doGet key c")
  then have c1: "cache_ok c1" "c_expire c1 = c_expire c" using doGet_ok [OF assms(1), of key] by auto
  obtain r2 c2 where g2: "doGet key c1 = (r2, c2)" by (cases "doGet key c1")
  then have c2: "cache_ok c2" "c_expire c2 = c_expire c" using doGet_ok [OF c1(1), of key] c1(2) by auto
  show ?thesis using c1 c2 SetWithExpire_ok(1) [OF c2(1) assms(2,3)] assms(4)
    by (auto simp: Cache_Take_def g1 g2 Cache_Set_def split: option.split sum.split)
qed

lemma cache_tick_ok:
  assumes "cache_ok c"
  shows "cache_ok (cache_tick c)"
proof -
  have b: "base_ok c" using assms by (simp add: cache_ok_def)
  note w = wheel_request [OF b, of ReqTick]
  have e: "cache_tick c = (c\<lparr>wheel := snd (serve ReqTick (wheel c))\<rparr>)\<lparr>c_due := c_due c @ map fst (fst (serve ReqTick (wheel c)))\<rparr>"
    by (simp add: cache_tick_def case_prod_beta)
  show ?thesis using w assms unfolding e by (auto simp: cache_ok_def base_ok_def keys_def timed_def)
qed

lemma run_due_ok:
  assumes "cache_ok c"
  shows "cache_ok (run_due i c)" "i < length (c_due c) \<Longrightarrow> keys (run_due i c) = keys c - {c_due c ! i}"
proof -
  let ?ds = "take i (c_due c) @ drop (i + 1) (c_due c)"
  have s: "set (c_due c) \<subseteq> insert (c_due c ! i) (set ?ds)" if "i < length (c_due c)"
    using id_take_nth_drop [OF that] by (metis Suc_eq_plus1 list.simps(15) set_append subset_refl Un_insert_right)
  have "cache_ok ((c\<lparr>c_due := ?ds\<rparr>)\<lparr>c_due := c_due c\<rparr>)" using assms by simp
  then have pre: "cache_ok (c\<lparr>c_due := ?ds\<rparr>) \<or> (\<exists>ds. cache_ok ((c\<lparr>c_due := ?ds\<rparr>)\<lparr>c_due := ds\<rparr>) \<and> set ds \<subseteq> insert (c_due c ! i) (set (c_due (c\<lparr>c_due := ?ds\<rparr>))))"
    if "i < length (c_due c)" using s [OF that] by (intro disjI2 exI [of _ "c_due c"]) simp
  show "cache_ok (run_due i c)" using Cache_Del_ok(1) [OF pre] assms by (simp add: run_due_def)
  show "i < length (c_due c) \<Longrightarrow> keys (run_due i c) = keys c - {c_due c ! i}"
    using Cache_Del_ok(2) [OF pre] by (simp add: run_due_def keys_def)
qed

section \<open>Executions\<close>

fun lru_limit :: "lru \<Rightarrow> int option" where
  "lru_limit emptyLru = None"
| "lru_limit (KeyLru k) = Some (limit k)"

lemma lru_limit_ops [simp]: "lru_limit (snd (lru_add key l)) = lru_limit l" "lru_limit (snd (lru_remove key l)) = lru_limit l"
  by (cases l; simp add: keyLru_add_def keyLru_remove_def removeOldest_def removeElement_def Let_def case_prod_beta split: option.split)+

lemma lruCache_evict [simp]: "lruCache (fold onEvict ev c) = lruCache c"
proof -
  have "lruCache (onEvict k c) = lruCache c" for k and c :: "'a Cache"
    by (simp add: onEvict_def remove_timer_def split: sum.split)
  then show ?thesis by (induction ev arbitrary: c) simp_all
qed

lemma lruCache_ops [simp]:
  "lru_limit (lruCache (touch key c)) = lru_limit (lruCache c)" "lru_limit (lruCache (forget key c)) = lru_limit (lruCache c)"
  "lruCache (remove_timer key c) = lruCache c" "lruCache (apply_timer r c) = lruCache c"
  "lruCache (IncrementHit c) = lruCache c" "lruCache (IncrementMiss c) = lruCache c" "lruCache (cache_tick c) = lruCache c"
  using lru_limit_ops [of key "lruCache c"]
  by (auto simp: touch_def forget_def remove_timer_def apply_timer_def IncrementHit_def IncrementMiss_def cache_tick_def case_prod_beta
      split: sum.split)

datatype 'v cache_op =
    OpSet rat string 'v int
  | OpGet string
  | OpTake rat string "string + 'v"
  | OpDel string
  | OpTick
  | OpRun nat

fun cache_step :: "'v cache_op \<Rightarrow> 'v Cache \<Rightarrow> 'v Cache" where
  "cache_step (OpSet draw key v ex) c = SetWithExpire draw key v ex c"
| "cache_step (OpGet key) c = snd (Cache_Get key c)"
| "cache_step (OpTake draw key f) c = snd (Cache_Take draw key f c)"
| "cache_step (OpDel key) c = Cache_Del key c"
| "cache_step OpTick c = cache_tick c"
| "cache_step (OpRun i) c = run_due i c"

text \<open>Expirations are at least two nanoseconds (the jitter rounds less to no timer at all), draws are in the unit interval.\<close>

fun valid_op :: "'v cache_op \<Rightarrow> bool" where
  "valid_op (OpSet draw key v ex) \<longleftrightarrow> 0 \<le> draw \<and> draw \<le> 1 \<and> 2 \<le> ex"
| "valid_op (OpTake draw key f) \<longleftrightarrow> 0 \<le> draw \<and> draw \<le> 1"
| "valid_op _ \<longleftrightarrow> True"

lemma c_expire_ops [simp]:
  "c_expire (touch key c) = c_expire c" "c_expire (forget key c) = c_expire c" "c_expire (remove_timer key c) = c_expire c"
  "c_expire (apply_timer r c) = c_expire c" "c_expire (IncrementHit c) = c_expire c" "c_expire (IncrementMiss c) = c_expire c"
  "c_expire (cache_tick c) = c_expire c"
proof -
  have "c_expire (onEvict k c') = c_expire c'" for k and c' :: "'a Cache" by (simp add: onEvict_def remove_timer_def split: sum.split)
  then have "c_expire (fold onEvict ev c') = c_expire c'" for ev and c' :: "'a Cache" by (induction ev arbitrary: c') simp_all
  then show "c_expire (touch key c) = c_expire c" "c_expire (forget key c) = c_expire c" "c_expire (remove_timer key c) = c_expire c"
    "c_expire (apply_timer r c) = c_expire c" "c_expire (IncrementHit c) = c_expire c" "c_expire (IncrementMiss c) = c_expire c"
    "c_expire (cache_tick c) = c_expire c"
    by (auto simp: touch_def forget_def remove_timer_def apply_timer_def IncrementHit_def IncrementMiss_def cache_tick_def case_prod_beta split: sum.split)
qed

lemma cache_step_fields:
  "lru_limit (lruCache (cache_step q c)) = lru_limit (lruCache c)" "c_expire (cache_step q c) = c_expire c"
proof -
  have s: "lru_limit (lruCache (SetWithExpire d k v e c)) = lru_limit (lruCache c)" "c_expire (SetWithExpire d k v e c) = c_expire c" for d k v e and c :: "'a Cache"
    by (simp_all add: SetWithExpire_def Let_def)
  have g: "lru_limit (lruCache (snd (doGet k c))) = lru_limit (lruCache c)" "c_expire (snd (doGet k c)) = c_expire c" for k and c :: "'a Cache"
    by (simp_all add: doGet_def split: option.split)
  have t: "lru_limit (lruCache (snd (Cache_Take d k f c))) = lru_limit (lruCache c)" "c_expire (snd (Cache_Take d k f c)) = c_expire c" for d k f and c :: "'a Cache"
    using g [of k c] g [of k "snd (doGet k c)"]
    by (auto simp: Cache_Take_def Cache_Set_def s split: prod.splits option.splits sum.splits)
  have "lru_limit (lruCache (snd (Cache_Get k c))) = lru_limit (lruCache c)" "c_expire (snd (Cache_Get k c)) = c_expire c" for k
    using g [of k c] by (auto simp: Cache_Get_def split: prod.splits option.splits)
  then show "lru_limit (lruCache (cache_step q c)) = lru_limit (lruCache c)" "c_expire (cache_step q c) = c_expire c"
    by (cases q; simp add: s t Cache_Del_def run_due_def)+
qed

inductive cache_reachable :: "int \<Rightarrow> int option \<Rightarrow> 'v Cache \<Rightarrow> bool" for expire :: int and mx :: "int option" where
  new: "NewCache expire mx = Inr c \<Longrightarrow> cache_reachable expire mx c"
| step: "cache_reachable expire mx c \<Longrightarrow> valid_op q \<Longrightarrow> cache_reachable expire mx (cache_step q c)"

lemma NewCache_ok:
  assumes "NewCache expire mx = Inr c"
  shows "cache_ok c" "c_expire c = expire" "lru_limit (lruCache c) = (case mx of None \<Rightarrow> None | Some l \<Rightarrow> if l > 0 then Some l else None)"
proof -
  from assms obtain tw where tw: "NewTimingWheel time_Second cache_slots False = Inr tw" and c: "c = \<lparr>c_data = [], c_expire = expire, wheel = tw,
      lruCache = (case mx of None \<Rightarrow> emptyLru | Some l \<Rightarrow> if l > 0 then KeyLru (newKeyLru l) else emptyLru),
      deviation = NewUnstable expiryDeviation, hit = 0, miss = 0, c_due = []\<rparr>"
    by (auto simp: NewCache_def split: sum.splits)
  note w = new_wheel [OF tw]
  have "\<not> stopped tw" using tw by (auto simp: NewTimingWheel_def time_Second_def cache_slots_def)
  moreover have "NewUnstable expiryDeviation = 1 / 20" by (simp add: NewUnstable_def expiryDeviation_def)
  ultimately show "cache_ok c" using w newKeyLru_ok
    by (auto simp: c cache_ok_def base_ok_def keys_def timed_def split: option.split)
  show "c_expire c = expire" "lru_limit (lruCache c) = (case mx of None \<Rightarrow> None | Some l \<Rightarrow> if l > 0 then Some l else None)"
    by (simp_all add: c newKeyLru_def split: option.split)
qed

lemma cache_reachable_ok:
  assumes "cache_reachable expire mx c" "2 \<le> expire"
  shows "cache_ok c \<and> c_expire c = expire \<and> lru_limit (lruCache c) = (case mx of None \<Rightarrow> None | Some l \<Rightarrow> if l > 0 then Some l else None)"
  using assms
proof (induction rule: cache_reachable.induct)
  case (new c)
  then show ?case using NewCache_ok by blast
next
  case (step c q)
  then have ok: "cache_ok c" "c_expire c = expire" by auto
  have "cache_ok (cache_step q c)"
    using ok step.hyps step.prems SetWithExpire_ok(1) [OF ok(1)] Cache_Get_ok(1) [OF ok(1)] Cache_Take_ok [OF ok(1)] Cache_Del_ok(1) [OF disjI1 [OF ok(1)]] cache_tick_ok [OF ok(1)] run_due_ok(1) [OF ok(1)]
    by (cases q) auto
  with step show ?case by (simp add: cache_step_fields)
qed




text \<open>Setting a key that is already cached does not replace its value: a following \<open>Get\<close> still answers the
  old value.\<close>

theorem cache_set_keeps_old_value:
  assumes "cache_reachable expire mx c" and "2 \<le> expire"
    and "gm_get (c_data c) key = Some old" and "0 \<le> draw" and "draw \<le> 1" and "2 \<le> ex"
  shows "fst (Cache_Get key (SetWithExpire draw key new ex c)) = Some old"
proof -
  have ok: "cache_ok c" using cache_reachable_ok [OF assms(1,2)] by blast
  note s = SetWithExpire_ok [OF ok assms(4-6), of key new]
  show ?thesis using Cache_Get_ok(2) [OF s(1), of key] s(2) assms(3) by simp
qed

theorem cache_set_keeps_old_value_witness:
  "\<exists>c :: int Cache. NewCache 1000 None = Inr c \<and> fst (Cache_Get ''a'' (SetWithExpire 0 ''a'' 2 1000 (SetWithExpire 0 ''a'' 1 1000 c))) = Some 1"
proof -
  obtain c :: "int Cache" where c: "NewCache 1000 None = Inr c"
    by (simp add: NewCache_def NewTimingWheel_def time_Second_def cache_slots_def)
  let ?c = "cache_step (OpSet 0 ''a'' 1 1000) c"
  have r: "cache_reachable 1000 None ?c" by (intro cache_reachable.step cache_reachable.new c) simp_all
  have "c_data c = []" using c by (auto simp: NewCache_def split: sum.splits)
  then have "gm_get (c_data ?c) ''a'' = Some 1" using SetWithExpire_ok(2) [OF NewCache_ok(1) [OF c], of 0 1000 "''a''" 1] by simp
  with cache_set_keeps_old_value [OF r, of "''a''" 1 0 1000 2] c show ?thesis by auto
qed

lemma SetWithExpire_new:
  assumes ok: "cache_ok c" and n: "gm_get (c_data c) key = None" and d: "0 \<le> draw" "draw \<le> 1" and e: "2 \<le> ex"
  obtains c1 where "base_ok c1" "remaining (wheel c1) key = None" "c_due c1 = c_due c"
    "SetWithExpire draw key v ex c = c1\<lparr>wheel := snd (setTask (AroundDuration (1 / 20) draw ex) key v (wheel c1))\<rparr>"
proof -
  let ?c0 = "c\<lparr>c_data := gm_set key v (c_data c)\<rparr>"
  from ok have c0: "base_ok ?c0" "lru_tracks (lruCache ?c0) (keys c)" "timed ?c0 \<subseteq> keys c"
    by (simp_all add: cache_ok_def base_ok_def timed_def)
  have nk: "key \<notin> keys c" using n by (simp add: keys_def map_of_eq_None_iff)
  define c1 where "c1 = touch key ?c0"
  obtain ev where c1: "base_ok c1" "timed c1 = timed ?c0 - set ev" "c_due c1 = c_due c"
    unfolding c1_def by (rule touch_correct [OF c0(1,2), of key]) simp
  have "key \<notin> timed c1" using c1(2) c0(3) nk by blast
  then have r: "remaining (wheel c1) key = None" by (cases "remaining (wheel c1) key") (auto simp: timed_def)
  have dev: "deviation c1 = 1 / 20" using c1(1) unfolding base_ok_def by blast
  have e1: "1 \<le> AroundDuration (1 / 20) draw ex" by (rule around_pos [OF d e])
  have inv: "tw_inv (wheel c1)" using c1(1) by (simp add: base_ok_def)
  have "SetWithExpire draw key v ex c = apply_timer (SetTimer (Some key) v (AroundDuration (1 / 20) draw ex) (wheel c1)) c1"
    using n unfolding dev [symmetric] by (simp add: SetWithExpire_def c1_def Let_def)
  also have "\<dots> = c1\<lparr>wheel := snd (setTask (AroundDuration (1 / 20) draw ex) key v (wheel c1))\<rparr>"
    using apply_set_ok(1) [OF c1(1) e1] setTask_fresh(1) [OF inv, of key] r by (simp add: remaining_None)
  finally show thesis using that c1 r by blast
qed

lemma cache_ticks_due:
  assumes "base_ok c" "remaining (wheel c) key = Some (v, s)" "1 \<le> s" "key \<notin> set (c_due c)"
  shows "base_ok ((cache_tick ^^ m) c) \<and>
    (if int m < s then remaining (wheel ((cache_tick ^^ m) c)) key = Some (v, s - int m) \<and> key \<notin> set (c_due ((cache_tick ^^ m) c))
     else key \<in> set (c_due ((cache_tick ^^ m) c)))"
proof (induction m)
  case 0
  then show ?case using assms by simp
next
  case (Suc m)
  let ?c = "(cache_tick ^^ m) c"
  have b: "base_ok ?c" and inv: "tw_inv (wheel ?c)" using Suc by (simp_all add: base_ok_def)
  note t = onTick_correct [OF inv]
  have ct: "wheel (cache_tick ?c) = snd (onTick (wheel ?c))" "c_due (cache_tick ?c) = c_due ?c @ map fst (fst (onTick (wheel ?c)))"
    by (simp_all add: cache_tick_def case_prod_beta)
  have "base_ok (cache_tick ?c)" using wheel_request(1) [OF b, of ReqTick] by (simp add: cache_tick_def case_prod_beta base_ok_def)
  moreover have fired: "key \<in> set (map fst (fst (onTick (wheel ?c)))) \<longleftrightarrow> (\<exists>v. remaining (wheel ?c) key = Some (v, 1))"
    using t(4) by force
  ultimately show ?case using Suc t(6) [of key] ct by (auto split: if_splits)
qed

text \<open>C33: A newly cached entry expires on time: its deletion is handed out at the tick of the wheel that its jittered
  expiration asks for, not before.\<close>

theorem cache_entry_expires_on_time:
  assumes "cache_reachable expire mx c" and "2 \<le> expire"
    and "gm_get (c_data c) key = None" and "key \<notin> set (c_due c)" and "0 \<le> draw" and "draw \<le> 1" and "2 \<le> ex"
  shows "key \<in> set (c_due ((cache_tick ^^ m) (SetWithExpire draw key v ex c))) \<longleftrightarrow>
    max 1 (AroundDuration (1 / 20) draw ex div time_Second) \<le> int m"
proof -
  have ok: "cache_ok c" using cache_reachable_ok [OF assms(1,2)] by blast
  from SetWithExpire_new [OF ok assms(3,5-7), of v] obtain c1 where c1: "base_ok c1" "remaining (wheel c1) key = None" "c_due c1 = c_due c"
    "SetWithExpire draw key v ex c = c1\<lparr>wheel := snd (setTask (AroundDuration (1 / 20) draw ex) key v (wheel c1))\<rparr>" by metis
  let ?s = "max 1 (AroundDuration (1 / 20) draw ex div time_Second)" and ?c2 = "SetWithExpire draw key v ex c"
  have inv: "tw_inv (wheel c1)" "tw_interval (wheel c1) = time_Second" using c1(1) by (simp_all add: base_ok_def)
  have "remaining (wheel ?c2) key = Some (v, ?s)"
    using setTask_fresh(4) [OF inv(1), of key] c1(2,4) inv(2) by (simp add: remaining_None ticks_for_def)
  moreover have "base_ok ?c2" using SetWithExpire_ok(1) [OF ok assms(5-7)] by (simp add: cache_ok_def)
  moreover have "key \<notin> set (c_due ?c2)" using c1(3,4) assms(4) by simp
  ultimately show ?thesis using cache_ticks_due [of ?c2 key v ?s m] by (auto split: if_splits)
qed

theorem cache_entry_expires_on_time_witness:
  "\<exists>c :: int Cache. NewCache 3000000000 None = Inr c \<and>
     ''a'' \<in> set (c_due ((cache_tick ^^ 3) (SetWithExpire 0 ''a'' 1 3000000000 c)))"
proof -
  obtain c :: "int Cache" where c: "NewCache 3000000000 None = Inr c"
    by (simp add: NewCache_def NewTimingWheel_def time_Second_def cache_slots_def)
  have "c_data c = []" "c_due c = []" using c by (auto simp: NewCache_def split: sum.splits)
  moreover have "AroundDuration (1 / 20) 0 3000000000 div time_Second = 3" by (simp add: AroundDuration_def trunc_def time_Second_def)
  ultimately show ?thesis using cache_entry_expires_on_time [OF cache_reachable.new [OF c], of "''a''" 0 3000000000 3 1] c by auto
qed

end
