(* ===== verification/Route_Tree.thy ===== *)
theory Route_Tree
  imports Go_Strings
begin

text \<open>
  \<open>src/infra/search/tree.go\<close>: the search tree of the router.  A node has the children whose key is a literal
  path segment and the children whose key is a parameter (\<open>:name\<close>); the tree owns its nodes, so a node is a value
  and \<open>add\<close> returns the changed node.  The maps are iterated in an unspecified order: an order is a list, and
  the theorems hold for every tree, hence for every order.  A \<open>nil\<close> child does not arise, since every entry of a
  children map is made by \<open>newNode\<close>.
\<close>

section \<open>Trees\<close>

abbreviation colon :: char where
  "colon \<equiv> CHR 0x3A"

abbreviation slash :: char where
  "slash \<equiv> CHR 0x2F"

datatype tree_error = errDupItem | errDupSlash | errEmptyItem | errNotFromRoot

datatype 'a node = Node (item: "'a option") (literals: "(string \<times> 'a node) list") (params: "(string \<times> 'a node) list")

definition newNode :: "'a option \<Rightarrow> 'a node" where
  "newNode it = Node it [] []"

record 'a Result =
  Item :: "'a option"
  Params :: "(string, string) gomap"

definition NotFound :: "'a Result" where
  "NotFound = \<lparr>Item = None, Params = []\<rparr>"

definition addParam :: "string \<Rightarrow> string \<Rightarrow> 'a Result \<Rightarrow> 'a Result" where
  "addParam k v r = r\<lparr>Params := gm_set k v (Params r)\<rparr>"

text \<open>The result of matching a key against a segment: the parameter it binds, if any.\<close>

definition match :: "string \<Rightarrow> string \<Rightarrow> (string \<times> string) option option" where
  "match pat token =
     (if pat \<noteq> [] \<and> hd pat = colon then Some (Some (tl pat, token))
      else if pat = token then Some None else None)"

text \<open>\<open>getChildren\<close> selects one of the two maps.\<close>

definition is_param :: "string \<Rightarrow> bool" where
  "is_param route \<longleftrightarrow> route \<noteq> [] \<and> hd route = colon"

definition getChildren :: "string \<Rightarrow> 'a node \<Rightarrow> (string \<times> 'a node) list" where
  "getChildren route nd = (if is_param route then params nd else literals nd)"

definition setChild :: "string \<Rightarrow> 'a node \<Rightarrow> 'a node \<Rightarrow> 'a node" where
  "setChild key child nd =
     (if is_param key then Node (item nd) (literals nd) (gm_set key child (params nd))
      else Node (item nd) (gm_set key child (literals nd)) (params nd))"

text \<open>The segment before the first slash and what follows it.\<close>

definition cut_slash :: "string \<Rightarrow> (string \<times> string) option" where
  "cut_slash route = (if slash \<in> set route then Some (takeWhile (\<lambda>c. c \<noteq> slash) route, tl (dropWhile (\<lambda>c. c \<noteq> slash) route)) else None)"

lemma cut_slash_length: "cut_slash route = Some (token, rest) \<Longrightarrow> length rest < length route"
proof -
  assume "cut_slash route = Some (token, rest)"
  then have s: "slash \<in> set route" and r: "rest = tl (dropWhile (\<lambda>c. c \<noteq> slash) route)" by (auto simp: cut_slash_def split: if_splits)
  from s have "dropWhile (\<lambda>c. c \<noteq> slash) route \<noteq> []" by (simp add: dropWhile_eq_Nil_conv)
  with r show ?thesis using length_dropWhile_le [of "\<lambda>c. c \<noteq> slash" route]
    by (cases "dropWhile (\<lambda>c. c \<noteq> slash) route") auto
qed

function (sequential) tree_add :: "'a node \<Rightarrow> string \<Rightarrow> 'a \<Rightarrow> tree_error option \<times> 'a node" where
  "tree_add nd route it =
     (if route = []
      then if item nd \<noteq> None then (Some errDupItem, nd) else (None, Node (Some it) (literals nd) (params nd))
      else if hd route = slash then (Some errDupSlash, nd)
      else case cut_slash route of
        Some (token, rest) \<Rightarrow>
          (case gm_get (getChildren token nd) token of
             Some child \<Rightarrow> (case tree_add child rest it of (e, child') \<Rightarrow> (e, setChild token child' nd))
           | None \<Rightarrow> (case tree_add (newNode None) rest it of (e, child') \<Rightarrow> (e, setChild token child' nd)))
      | None \<Rightarrow>
          (case gm_get (getChildren route nd) route of
             Some child \<Rightarrow>
               if item child \<noteq> None then (Some errDupItem, nd)
               else (None, setChild route (Node (Some it) (literals child) (params child)) nd)
           | None \<Rightarrow> (None, setChild route (newNode (Some it)) nd)))"
  by pat_completeness auto
termination
  by (relation "measure (\<lambda>(nd, route, it). length route)") (auto dest: cut_slash_length)

declare tree_add.simps [simp del]

definition NewTree :: "'a node" where
  "NewTree = newNode None"

text \<open>\<open>item == nil\<close> is \<^const>\<open>None\<close>.\<close>

definition Tree_Add :: "'a node \<Rightarrow> string \<Rightarrow> 'a option \<Rightarrow> tree_error option \<times> 'a node" where
  "Tree_Add t route it =
     (if route = [] \<or> hd route \<noteq> slash then (Some errNotFromRoot, t)
      else case it of None \<Rightarrow> (Some errEmptyItem, t) | Some i \<Rightarrow> tree_add t (tl route) i)"

text \<open>
  \<open>next\<close> and the loops of \<open>forEach\<close> with its two callbacks: \<open>each_inner\<close> descends into the children that
  match the segment, \<open>each_last\<close> looks for a matching child with an item.
\<close>

fun each_last :: "(string \<times> 'a node) list \<Rightarrow> string \<Rightarrow> 'a Result option" where
  "each_last [] route = None"
| "each_last ((k, v) # cs) route =
     (case match k route of
        Some b \<Rightarrow>
          if item v \<noteq> None
          then Some (case b of None \<Rightarrow> \<lparr>Item = item v, Params = []\<rparr> | Some (pk, pv) \<Rightarrow> addParam pk pv \<lparr>Item = item v, Params = []\<rparr>)
          else each_last cs route
      | None \<Rightarrow> each_last cs route)"

function (sequential) tree_next :: "'a node \<Rightarrow> string \<Rightarrow> 'a Result option"
  and each_inner :: "(string \<times> 'a node) list \<Rightarrow> string \<Rightarrow> string \<Rightarrow> 'a Result option"
where
  "tree_next n route =
     (if route = [] \<and> item n \<noteq> None then Some \<lparr>Item = item n, Params = []\<rparr>
      else case cut_slash route of
        Some (token, rest) \<Rightarrow>
          (case each_inner (literals n) token rest of
             Some r \<Rightarrow> Some r
           | None \<Rightarrow> each_inner (params n) token rest)
      | None \<Rightarrow>
          (case each_last (literals n) route of
             Some r \<Rightarrow> Some r
           | None \<Rightarrow> each_last (params n) route))"
| "each_inner [] token rest = None"
| "each_inner ((k, v) # cs) token rest =
     (case match k token of
        None \<Rightarrow> each_inner cs token rest
      | Some b \<Rightarrow>
          (case tree_next v rest of
             None \<Rightarrow> each_inner cs token rest
           | Some r \<Rightarrow> Some (case b of None \<Rightarrow> r | Some (pk, pv) \<Rightarrow> addParam pk pv r)))"
  by pat_completeness auto
termination
  by (relation "inv_image (less_than <*lex*> less_than)
        (\<lambda>x. case x of Inl (n, route) \<Rightarrow> (length route, 0) | Inr (cs, token, rest) \<Rightarrow> (length rest, Suc (length cs)))")
    (auto dest: cut_slash_length)

declare tree_next.simps [simp del]

definition Search :: "'a node \<Rightarrow> string \<Rightarrow> 'a Result \<times> bool" where
  "Search t route =
     (if route = [] \<or> hd route \<noteq> slash then (NotFound, False)
      else case tree_next t (tl route) of None \<Rightarrow> (NotFound, False) | Some r \<Rightarrow> (r, True))"

section \<open>The routes of a tree\<close>

text \<open>
  A tree stands for the map from segment lists to the items registered for them.  A tree is well formed when its
  maps have distinct keys, the literal keys are not parameters and the parameter keys are, and no key is empty.
\<close>

fun routes :: "'a node \<Rightarrow> string list \<Rightarrow> 'a option" where
  "routes nd [] = item nd"
| "routes nd (t # ts) = (case gm_get (getChildren t nd) t of None \<Rightarrow> None | Some c \<Rightarrow> routes c ts)"

inductive wf_node :: "'a node \<Rightarrow> bool" where
  "gm_wf ls \<Longrightarrow> gm_wf ps \<Longrightarrow> (\<And>k c. (k, c) \<in> set ls \<Longrightarrow> k \<noteq> [] \<and> \<not> is_param k \<and> wf_node c) \<Longrightarrow>
   (\<And>k c. (k, c) \<in> set ps \<Longrightarrow> is_param k \<and> wf_node c) \<Longrightarrow> wf_node (Node it ls ps)"

inductive_simps wf_node_simps: "wf_node (Node it ls ps)"

lemma wf_node_iff:
  "wf_node nd \<longleftrightarrow> gm_wf (literals nd) \<and> gm_wf (params nd) \<and>
     (\<forall>(k, c) \<in> set (literals nd). k \<noteq> [] \<and> \<not> is_param k \<and> wf_node c) \<and> (\<forall>(k, c) \<in> set (params nd). is_param k \<and> wf_node c)"
  by (cases nd) (auto simp: wf_node_simps)

lemma wf_newNode [simp]: "wf_node (newNode it)"
  by (simp add: newNode_def wf_node_simps)

lemma wf_child:
  assumes "wf_node nd" "gm_get (getChildren t nd) t = Some c"
  shows "wf_node c"
  using assms by (auto simp: wf_node_iff [of nd] getChildren_def split: if_splits dest!: map_of_SomeD)

lemma get_setChild: "gm_get (getChildren t (setChild k c nd)) t = (if t = k then Some c else gm_get (getChildren t nd) t)"
  by (auto simp: getChildren_def setChild_def gomap_simps)

lemma set_gm_set: "set (gm_set k v m) \<subseteq> insert (k, v) (set m)"
  by (induction m) auto

lemma wf_setChild:
  assumes "wf_node nd" "wf_node c" "k \<noteq> []"
  shows "wf_node (setChild k c nd)"
  using assms set_gm_set [of k c "literals nd"] set_gm_set [of k c "params nd"]
  by (auto simp: wf_node_iff [of nd] setChild_def wf_node_simps)

lemma item_setChild [simp]: "item (setChild k c nd) = item nd"
  by (simp add: setChild_def)

lemma routes_setChild: "routes (setChild k c nd) (t # ts) = (if t = k then routes c ts else routes nd (t # ts))"
  by (simp add: get_setChild)

text \<open>The segments of a path: split at the slashes.  Registering drops one trailing slash.\<close>

function (sequential) segments :: "string \<Rightarrow> string list" where
  "segments route = (case cut_slash route of Some (token, rest) \<Rightarrow> token # segments rest | None \<Rightarrow> [route])"
  by pat_completeness auto
termination
  by (relation "measure length") (auto dest: cut_slash_length)

declare segments.simps [simp del]

definition key_of :: "string \<Rightarrow> string list" where
  "key_of route = (let ts = segments route in if last ts = [] then butlast ts else ts)"

section \<open>Registering\<close>

lemma segments_ne [simp]: "segments route \<noteq> []"
  by (subst segments.simps) (auto split: option.split)

lemma segments_cut:
  "cut_slash route = Some (token, rest) \<Longrightarrow> segments route = token # segments rest"
  "cut_slash route = None \<Longrightarrow> segments route = [route]"
  by (simp_all add: segments.simps [of route])

lemma key_of_cut:
  "cut_slash route = Some (token, rest) \<Longrightarrow> key_of route = token # key_of rest"
  "cut_slash route = None \<Longrightarrow> key_of route = (if route = [] then [] else [route])"
  by (auto simp: key_of_def segments_cut Let_def)

lemma cut_hd:
  "cut_slash [] = None" "route \<noteq> [] \<Longrightarrow> hd route = slash \<Longrightarrow> \<exists>rest. cut_slash route = Some ([], rest)"
  "cut_slash route = Some (token, rest) \<Longrightarrow> hd route \<noteq> slash \<Longrightarrow> token \<noteq> []"
  by (cases route; auto simp: cut_slash_def split: if_splits)+

text \<open>A route is proper when it has no empty segment, except after a trailing slash.\<close>

definition proper :: "string \<Rightarrow> bool" where
  "proper route \<longleftrightarrow> [] \<notin> set (butlast (segments route))"

lemma proper_cut:
  "cut_slash route = Some (token, rest) \<Longrightarrow> proper route \<longleftrightarrow> token \<noteq> [] \<and> proper rest"
  "cut_slash route = None \<Longrightarrow> proper route"
  by (auto simp: proper_def segments_cut)

definition add_spec :: "string \<Rightarrow> 'a \<Rightarrow> (string list \<Rightarrow> 'a option) \<Rightarrow> tree_error option \<times> (string list \<Rightarrow> 'a option)" where
  "add_spec route it m =
     (if \<not> proper route then (Some errDupSlash, m)
      else if m (key_of route) \<noteq> None then (Some errDupItem, m)
      else (None, m(key_of route \<mapsto> it)))"

lemma routes_newNode [simp]: "routes (newNode None) ts = None"
  by (cases ts) (simp_all add: newNode_def getChildren_def)

lemma routes_item: "routes (Node i (literals c) (params c)) (t # ts) = routes c (t # ts)"
  by (simp add: getChildren_def)

lemma add_spec_descend:
  assumes c: "cut_slash route = Some (token, rest)" and t: "token \<noteq> []"
    and ch: "add_spec rest it (routes c) = (e, routes c')"
    and m: "\<And>ts. routes c ts = m (token # ts)"
  shows "add_spec route it m = (e, \<lambda>ts. case ts of [] \<Rightarrow> m [] | s # ss \<Rightarrow> if s = token then routes c' ss else m ts)"
proof -
  have k: "key_of route = token # key_of rest" "proper route \<longleftrightarrow> proper rest" using c t by (simp_all add: key_of_cut proper_cut)
  define G where "G f = (\<lambda>ts. case ts of [] \<Rightarrow> m [] | s # ss \<Rightarrow> if s = token then f ss else m ts)" for f
  have g1: "G (routes c) = m" using m by (auto simp: G_def fun_eq_iff split: list.split)
  have g2: "G ((routes c)(key_of rest \<mapsto> it)) = m(token # key_of rest \<mapsto> it)"
    using m by (auto simp: G_def fun_eq_iff split: list.split)
  have c': "routes c' = snd (add_spec rest it (routes c))" "e = fst (add_spec rest it (routes c))" using ch by simp_all
  have "add_spec route it m = (e, G (routes c'))"
    unfolding c' add_spec_def k using m by (simp add: g1 g2)
  then show ?thesis by (simp only: G_def)
qed

lemma tree_add_correct:
  assumes "wf_node nd"
  shows "wf_node (snd (tree_add nd route it)) \<and> (fst (tree_add nd route it), routes (snd (tree_add nd route it))) = add_spec route it (routes nd)"
  using assms
proof (induction "length route" arbitrary: nd route rule: less_induct)
  case less
  show ?case
  proof (cases "route = []")
    case True
    have "routes (Node (Some it) (literals nd) (params nd)) ts = ((routes nd)([] \<mapsto> it)) ts" for ts by (cases ts) (simp_all add: getChildren_def)
    then have r: "routes (Node (Some it) (literals nd) (params nd)) = (routes nd)([] \<mapsto> it)" by blast
    have k: "key_of route = []" "proper route" using True cut_hd(1) by (simp_all add: key_of_cut proper_cut)
    show ?thesis using True less.prems r k
      by (auto simp: tree_add.simps [of nd "[]"] add_spec_def wf_node_iff [of nd] wf_node_simps)
  next
    case ne: False
    show ?thesis
    proof (cases "hd route = slash")
      case True
      with cut_hd(2) [OF ne] have "\<not> proper route" by (auto simp: proper_cut)
      then show ?thesis using True ne less.prems by (simp add: tree_add.simps [of nd route] add_spec_def)
    next
      case nh: False
      show ?thesis
      proof (cases "cut_slash route")
        case (Some tr)
        then obtain token rest where cut: "cut_slash route = Some (token, rest)" by (cases tr) auto
        have tne: "token \<noteq> []" using cut_hd(3) [OF cut nh] .
        define c where "c = (case gm_get (getChildren token nd) token of Some child \<Rightarrow> child | None \<Rightarrow> newNode None)"
        have wfc: "wf_node c" using wf_child [OF less.prems, of token] by (auto simp: c_def split: option.split)
        obtain e c' where ad: "tree_add c rest it = (e, c')" by (cases "tree_add c rest it")
        have IH: "wf_node c' \<and> (e, routes c') = add_spec rest it (routes c)"
          using less.hyps [OF cut_slash_length [OF cut] wfc] ad by simp
        have t: "tree_add nd route it = (e, setChild token c' nd)"
          using ne nh cut ad by (cases "gm_get (getChildren token nd) token") (auto simp: tree_add.simps [of nd route] c_def)
        have m: "routes c ts = routes nd (token # ts)" for ts by (simp add: c_def split: option.split)
        have "routes (setChild token c' nd) = (\<lambda>ts. case ts of [] \<Rightarrow> routes nd [] | s # ss \<Rightarrow> if s = token then routes c' ss else routes nd ts)"
          by (auto simp: fun_eq_iff routes_setChild simp del: routes.simps(2) split: list.split)
        then show ?thesis using add_spec_descend [OF cut tne _ m, of it e c'] IH t wf_setChild [OF less.prems _ tne, of c'] by simp
      next
        case None
        define c where "c = (case gm_get (getChildren route nd) route of Some child \<Rightarrow> child | None \<Rightarrow> newNode None)"
        have k: "key_of route = [route]" "proper route" using None ne by (simp_all add: key_of_cut proper_cut)
        have wfc: "wf_node c" using wf_child [OF less.prems, of route] by (auto simp: c_def split: option.split)
        let ?c = "Node (Some it) (literals c) (params c)"
        have ic: "routes nd [route] = item c" by (simp add: c_def newNode_def split: option.split)
        have t: "tree_add nd route it = (if item c \<noteq> None then (Some errDupItem, nd) else (None, setChild route ?c nd))"
          using ne nh None by (auto simp: tree_add.simps [of nd route] c_def newNode_def split: option.split)
        have "routes (setChild route ?c nd) ts = ((routes nd)([route] \<mapsto> it)) ts" if "item c = None" for ts
        proof (cases ts)
          case (Cons s ss)
          have m: "routes c ss = routes nd (route # ss)" by (simp add: c_def split: option.split)
          show ?thesis
          proof (cases "s = route")
            case True
            then show ?thesis using that m ic by (cases ss) (simp_all add: Cons routes_setChild routes_item del: routes.simps(2))
          next
            case False
            then show ?thesis by (simp add: Cons routes_setChild del: routes.simps(2))
          qed
        qed simp
        then have "routes (setChild route ?c nd) = (routes nd)([route] \<mapsto> it)" if "item c = None" using that by blast
        moreover have "wf_node (setChild route ?c nd)" using wfc by (intro wf_setChild [OF less.prems _ ne]) (auto simp: wf_node_iff [of c] wf_node_simps)
        ultimately show ?thesis using t ic k less.prems by (simp add: add_spec_def)
      qed
    qed
  qed
qed

section \<open>Searching\<close>

definition seg_match :: "string \<Rightarrow> string \<Rightarrow> bool" where
  "seg_match pat token \<longleftrightarrow> is_param pat \<or> pat = token"

text \<open>A registered route matches a path segment by segment; the path may have one trailing slash more.\<close>

definition path_match :: "string list \<Rightarrow> string list \<Rightarrow> bool" where
  "path_match pats segs \<longleftrightarrow>
     list_all2 seg_match pats segs \<or> (segs \<noteq> [] \<and> last segs = [] \<and> list_all2 seg_match pats (butlast segs))"

text \<open>The parameters that a match binds; an outer parameter hides an inner one of the same name.\<close>

fun bindings :: "string list \<Rightarrow> string list \<Rightarrow> (string \<times> string) list" where
  "bindings (p # ps) (s # ss) = (if is_param p then [(tl p, s)] else []) @ bindings ps ss"
| "bindings _ _ = []"

lemma path_match_step: "segs \<noteq> [] \<Longrightarrow> path_match pats (token # segs) \<longleftrightarrow> (\<exists>p ps. pats = p # ps \<and> seg_match p token \<and> path_match ps segs)"
  by (auto simp: path_match_def list_all2_Cons2)

lemma path_match_last: "path_match pats [s] \<longleftrightarrow> (\<exists>p. pats = [p] \<and> seg_match p s) \<or> (s = [] \<and> pats = [])"
  by (auto simp: path_match_def list_all2_Cons2)

lemma match_cases:
  "match k token = (if is_param k then Some (Some (tl k, token)) else if k = token then Some None else None)"
  by (simp add: match_def is_param_def)

lemma match_seg: "(match k token = None) = (\<not> seg_match k token)"
  by (simp add: match_cases seg_match_def)

definition children :: "'a node \<Rightarrow> (string \<times> 'a node) set" where
  "children nd = set (literals nd) \<union> set (params nd)"

lemma child_get:
  assumes "wf_node nd"
  shows "gm_get (getChildren k nd) k = Some v \<longleftrightarrow> (k, v) \<in> children nd"
  using assms by (auto simp: children_def getChildren_def wf_node_iff [of nd] gm_get_eq_iff)

lemma child_routes:
  assumes "wf_node nd"
  shows "routes nd (k # ps) = Some it \<longleftrightarrow> (\<exists>v. (k, v) \<in> children nd \<and> routes v ps = Some it)"
  using child_get [OF assms, of k] by (cases "gm_get (getChildren k nd) k") (simp_all flip: child_get [OF assms])

lemma wf_children: "wf_node nd \<Longrightarrow> (k, v) \<in> children nd \<Longrightarrow> wf_node v \<and> k \<noteq> []"
  by (auto simp: children_def wf_node_iff [of nd] is_param_def)

text \<open>What a successful and what a failed search mean.\<close>

definition hits :: "'a node \<Rightarrow> string list \<Rightarrow> 'a Result \<Rightarrow> bool" where
  "hits nd segs r \<longleftrightarrow>
     (\<exists>pats it. routes nd pats = Some it \<and> Item r = Some it \<and> path_match pats segs \<and> gm_get (Params r) = map_of (bindings pats segs))"

definition misses :: "'a node \<Rightarrow> string list \<Rightarrow> bool" where
  "misses nd segs \<longleftrightarrow> (\<forall>pats it. routes nd pats = Some it \<longrightarrow> \<not> path_match pats segs)"

lemma each_last_correct:
  "each_last cs route = Some r \<Longrightarrow>
     \<exists>k v it. (k, v) \<in> set cs \<and> seg_match k route \<and> item v = Some it \<and> Item r = Some it \<and> gm_get (Params r) = map_of (bindings [k] [route])"
  "each_last cs route = None \<Longrightarrow> (k, v) \<in> set cs \<Longrightarrow> seg_match k route \<Longrightarrow> item v = None"
proof -
  show "\<exists>k v it. (k, v) \<in> set cs \<and> seg_match k route \<and> item v = Some it \<and> Item r = Some it \<and> gm_get (Params r) = map_of (bindings [k] [route])"
    if "each_last cs route = Some r"
    using that
  proof (induction cs)
    case (Cons c cs)
    obtain k v where c: "c = (k, v)" by (cases c)
    show ?case
    proof (cases "seg_match k route \<and> item v \<noteq> None")
      case True
      then obtain it where it: "item v = Some it" by auto
      have "gm_get (Params r) = map_of (bindings [k] [route]) \<and> Item r = Some it"
        using Cons.prems True it by (auto simp: c match_cases seg_match_def addParam_def split: if_splits)
      with True it c show ?thesis by (intro exI [of _ k] exI [of _ v] exI [of _ it]) simp
    next
      case False
      then have "each_last cs route = Some r" using Cons.prems match_seg [of k route] by (auto simp: c split: option.splits)
      with Cons.IH show ?thesis by (meson list.set_intros(2))
    qed
  qed simp
  show "each_last cs route = None \<Longrightarrow> (k, v) \<in> set cs \<Longrightarrow> seg_match k route \<Longrightarrow> item v = None"
    using match_seg by (induction cs route rule: each_last.induct) (auto split: option.splits if_splits)
qed

lemma hits_child:
  assumes "wf_node nd" "(k, v) \<in> children nd" "seg_match k token" "hits v segs r" "segs \<noteq> []"
  shows "hits nd (token # segs) (if is_param k then addParam (tl k) token r else r)"
proof -
  from assms(4) obtain pats it where p: "routes v pats = Some it" "Item r = Some it" "path_match pats segs" "gm_get (Params r) = map_of (bindings pats segs)"
    by (auto simp: hits_def)
  have "routes nd (k # pats) = Some it" using child_routes [OF assms(1)] assms(2) p(1) by blast
  moreover have "path_match (k # pats) (token # segs)" using assms(3,5) p(3) by (simp add: path_match_step)
  moreover have "gm_get (Params (if is_param k then addParam (tl k) token r else r)) = map_of (bindings (k # pats) (token # segs))"
    using p(4) by (auto simp: addParam_def gm_get_fun)
  ultimately show ?thesis using p(2) unfolding hits_def by (intro exI [of _ "k # pats"] exI [of _ it]) (simp add: addParam_def)
qed

definition next_ok :: "'a node \<Rightarrow> string list \<Rightarrow> 'a Result option \<Rightarrow> bool" where
  "next_ok nd segs res \<longleftrightarrow> (case res of Some r \<Rightarrow> hits nd segs r | None \<Rightarrow> misses nd segs)"

definition inner_ok :: "(string \<times> 'a node) set \<Rightarrow> string \<Rightarrow> string list \<Rightarrow> 'a Result option \<Rightarrow> bool" where
  "inner_ok cs token segs res \<longleftrightarrow>
     (case res of
        Some r \<Rightarrow> \<exists>k v r'. (k, v) \<in> cs \<and> seg_match k token \<and> hits v segs r' \<and> r = (if is_param k then addParam (tl k) token r' else r')
      | None \<Rightarrow> \<forall>k v. (k, v) \<in> cs \<longrightarrow> seg_match k token \<longrightarrow> misses v segs)"

lemma inner_ok_union:
  assumes "inner_ok A token segs res" "res = None \<Longrightarrow> inner_ok B token segs res'"
  shows "inner_ok (A \<union> B) token segs (case res of Some r \<Rightarrow> Some r | None \<Rightarrow> res')"
proof (cases res)
  case None
  then show ?thesis using assms by (cases res') (fastforce simp: inner_ok_def)+
next
  case (Some r)
  then show ?thesis using assms(1) by (fastforce simp: inner_ok_def)
qed

lemma inner_ok_insert:
  assumes "inner_ok cs token segs res" "seg_match k token \<Longrightarrow> misses v segs"
  shows "inner_ok (insert (k, v) cs) token segs res"
proof (cases res)
  case (Some r)
  show ?thesis using assms(1) unfolding Some inner_ok_def option.case by blast
qed (use assms in \<open>auto simp: inner_ok_def\<close>)

lemma inner_next:
  assumes wf: "wf_node n" and i: "inner_ok (children n) token segs res" and ne: "segs \<noteq> []"
  shows "next_ok n (token # segs) res"
proof (cases res)
  case (Some r)
  with i obtain k v r' where "(k, v) \<in> children n" "seg_match k token" "hits v segs r'" "r = (if is_param k then addParam (tl k) token r' else r')"
    by (auto simp: inner_ok_def)
  with hits_child [OF wf, of k v token segs r'] ne Some show ?thesis by (simp add: next_ok_def)
next
  case None
  with i have m: "misses v segs" if "(k, v) \<in> children n" "seg_match k token" for k v using that by (simp add: inner_ok_def)
  have "misses n (token # segs)"
    unfolding misses_def
  proof (intro allI impI notI)
    fix pats it assume r: "routes n pats = Some it" and pm: "path_match pats (token # segs)"
    from pm ne obtain p ps where p: "pats = p # ps" "seg_match p token" "path_match ps segs" by (auto simp: path_match_step)
    with r child_routes [OF wf, of p ps it] obtain v where "(p, v) \<in> children n" "routes v ps = Some it" by blast
    with m [of p v] p show False by (auto simp: misses_def)
  qed
  then show ?thesis using None by (simp add: next_ok_def)
qed

lemma last_next:
  assumes wf: "wf_node n" and z: "\<not> (route = [] \<and> item n \<noteq> None)"
  shows "next_ok n [route] (case each_last (literals n) route of Some r \<Rightarrow> Some r | None \<Rightarrow> each_last (params n) route)" (is "next_ok n [route] ?res")
proof (cases ?res)
  case (Some r)
  then have "each_last (literals n) route = Some r \<or> each_last (params n) route = Some r" by (auto split: option.splits)
  with each_last_correct(1) obtain k v it where k: "(k, v) \<in> children n" "seg_match k route" "item v = Some it" "Item r = Some it"
    "gm_get (Params r) = map_of (bindings [k] [route])" unfolding children_def by blast
  have "routes n [k] = Some it" using child_routes [OF wf, of k "[]" it] k(1,3) by auto
  with k show ?thesis unfolding Some next_ok_def hits_def option.case
    by (intro exI [of _ "[k]"] exI [of _ it]) (simp add: path_match_last del: routes.simps(2))
next
  case None
  then have el: "each_last (literals n) route = None" "each_last (params n) route = None" by (auto split: option.splits)
  have it: "item v = None" if "(k, v) \<in> children n" "seg_match k route" for k v
    using each_last_correct(2) [OF el(1), of k v] each_last_correct(2) [OF el(2), of k v] that by (auto simp: children_def)
  have "misses n [route]"
    unfolding misses_def
  proof (intro allI impI notI)
    fix pats i assume r: "routes n pats = Some i" and pm: "path_match pats [route]"
    from pm consider p where "pats = [p]" "seg_match p route" | "route = []" "pats = []" by (auto simp: path_match_last)
    then show False
    proof cases
      case 1
      with r child_routes [OF wf, of p "[]" i] it [of p] show False by auto
    next
      case 2
      with r z show False by simp
    qed
  qed
  then show ?thesis using None by (simp add: next_ok_def)
qed

lemma search_correct:
  fixes n :: "'a node" and cs :: "(string \<times> 'a node) list"
  shows "wf_node n \<Longrightarrow> next_ok n (segments route) (tree_next n route)"
    and "(\<And>k v. (k, v) \<in> set cs \<Longrightarrow> wf_node v) \<Longrightarrow> inner_ok (set cs) token (segments rest) (each_inner cs token rest)"
proof (induction n route and cs token rest rule: tree_next_each_inner.induct)
  case (1 n route)
  show ?case
  proof (cases "route = [] \<and> item n \<noteq> None")
    case True
    then have "hits n (segments route) \<lparr>Item = item n, Params = []\<rparr>"
      using cut_hd(1) by (auto simp: hits_def segments_cut path_match_last intro!: exI [of _ "[]"])
    then show ?thesis using True by (simp add: tree_next.simps [of n "[]"] next_ok_def)
  next
    case nz: False
    show ?thesis
    proof (cases "cut_slash route")
      case (Some tr)
      then obtain token rest where cut: "cut_slash route = Some (token, rest)" by (cases tr) auto
      have wf: "wf_node v" if "(k, v) \<in> set (literals n) \<or> (k, v) \<in> set (params n)" for k v
        using that "1.prems" wf_children [of n k v] by (auto simp: children_def)
      have ne: "tree_next n route = (case each_inner (literals n) token rest of Some r \<Rightarrow> Some r | None \<Rightarrow> each_inner (params n) token rest)"
        using nz cut by (auto simp: tree_next.simps [of n route])
      have "inner_ok (children n) token (segments rest) (tree_next n route)"
        unfolding ne children_def
        by (rule inner_ok_union [OF "1.IH"(1) [OF nz cut refl wf] "1.IH"(2) [OF nz cut refl _ wf]]) auto
      then show ?thesis using inner_next [OF "1.prems"] by (simp add: segments_cut(1) [OF cut])
    next
      case None
      then have "tree_next n route = (case each_last (literals n) route of Some r \<Rightarrow> Some r | None \<Rightarrow> each_last (params n) route)"
        using nz by (auto simp: tree_next.simps [of n route])
      then show ?thesis using last_next [OF "1.prems" nz] by (simp add: segments_cut(2) [OF None])
    qed
  qed
next
  case (2 token rest)
  then show ?case by (simp add: inner_ok_def)
next
  case (3 k v cs token rest)
  have tl: "\<And>k v. (k, v) \<in> set cs \<Longrightarrow> wf_node v" using "3.prems" by auto
  show ?case
  proof (cases "seg_match k token")
    case False
    then have m: "match k token = None" using match_seg by blast
    have "inner_ok (set cs) token (segments rest) (each_inner cs token rest)" by (rule "3.IH"(1) [OF m tl])
    from inner_ok_insert [OF this, of k v] m False show ?thesis by simp
  next
    case True
    then obtain b where m: "match k token = Some b" using match_seg [of k token] by (cases "match k token") auto
    then have b: "(case b of None \<Rightarrow> r | Some (pk, pv) \<Rightarrow> addParam pk pv r) = (if is_param k then addParam (tl k) token r else r)" for r
      by (auto simp: match_cases split: if_splits)
    have nv: "next_ok v (segments rest) (tree_next v rest)" by (rule "3.IH"(2) [OF m "3.prems" [of k]]) simp
    show ?thesis
    proof (cases "tree_next v rest")
      case (Some r)
      with nv have "hits v (segments rest) r" by (simp add: next_ok_def)
      moreover have "each_inner ((k, v) # cs) token rest = Some (if is_param k then addParam (tl k) token r else r)"
        using Some m b [of r] by simp
      ultimately show ?thesis using True unfolding inner_ok_def
        by (simp only: option.case) (intro exI [of _ k] exI [of _ v] exI [of _ r], simp)
    next
      case None
      have "inner_ok (set cs) token (segments rest) (each_inner cs token rest)" by (rule "3.IH"(3) [OF m None tl])
      from inner_ok_insert [OF this, of k v] nv m None show ?thesis by (simp add: next_ok_def)
    qed
  qed
qed

section \<open>The router\<close>

text \<open>A sequence of registrations, with their results.\<close>

fun register :: "(string \<times> 'a option) list \<Rightarrow> 'a node \<Rightarrow> tree_error option list \<times> 'a node" where
  "register [] t = ([], t)"
| "register ((route, it) # rs) t =
     (let (e, t) = Tree_Add t route it; (es, t) = register rs t in (e # es, t))"

text \<open>The contract: a map from segment lists to items, in which a key is registered once.\<close>

fun register_spec :: "(string \<times> 'a option) list \<Rightarrow> (string list \<Rightarrow> 'a option) \<Rightarrow> tree_error option list \<times> (string list \<Rightarrow> 'a option)" where
  "register_spec [] m = ([], m)"
| "register_spec ((route, it) # rs) m =
     (let (e, m) = (if route = [] \<or> hd route \<noteq> slash then (Some errNotFromRoot, m)
                    else case it of None \<Rightarrow> (Some errEmptyItem, m) | Some i \<Rightarrow> add_spec (tl route) i m);
          (es, m) = register_spec rs m
      in (e # es, m))"

lemma register_correct:
  assumes "wf_node t"
  shows "wf_node (snd (register rs t)) \<and> (fst (register rs t), routes (snd (register rs t))) = register_spec rs (routes t)"
  using assms
proof (induction rs arbitrary: t)
  case (Cons r rs)
  obtain route it where r: "r = (route, it)" by (cases r)
  obtain e t' where a: "Tree_Add t route it = (e, t')" by (cases "Tree_Add t route it")
  have "wf_node t' \<and> (e, routes t') = (if route = [] \<or> hd route \<noteq> slash then (Some errNotFromRoot, routes t)
      else case it of None \<Rightarrow> (Some errEmptyItem, routes t) | Some i \<Rightarrow> add_spec (tl route) i (routes t))"
  proof (cases it)
    case (Some i)
    then show ?thesis using a Cons.prems tree_add_correct [OF Cons.prems, of "tl route" i]
      by (auto simp: Tree_Add_def split: if_splits)
  qed (use a Cons.prems in \<open>auto simp: Tree_Add_def split: if_splits\<close>)
  moreover from this have "wf_node t'" by blast
  note IH = Cons.IH [OF this]
  obtain es t2 where rg: "register rs t' = (es, t2)" by (cases "register rs t'")
  ultimately show ?case using IH a by (auto simp: r rg Let_def split: prod.splits)
qed simp

text \<open>C30: Registering routes builds a map: the tree holds exactly the routes whose registration succeeded, a route
  is refused when it does not start with a slash, has no item, has an empty segment, or is already taken, and a refused
  registration changes no route.\<close>

theorem route_registration_refines:
  "(fst (register rs NewTree), routes (snd (register rs NewTree))) = register_spec rs (\<lambda>ts. None)"
proof -
  have "routes (NewTree :: 'a node) = (\<lambda>ts. None)" by (simp add: NewTree_def fun_eq_iff)
  then show ?thesis using register_correct [of "NewTree :: 'a node" rs] by (simp add: NewTree_def)
qed

text \<open>C9: Searching decides matching: a path is found exactly when it starts with a slash and some registered route matches
  it segment by segment (a parameter matches any segment, and the path may end in an extra slash); what is found is the
  item of such a route together with the values of its parameters.\<close>

theorem route_search_correct:
  "case Search (snd (register rs NewTree)) path of (r, found) \<Rightarrow>
     if found
     then path \<noteq> [] \<and> hd path = slash \<and>
       (\<exists>pats it. snd (register_spec rs (\<lambda>ts. None)) pats = Some it \<and> Item r = Some it \<and> path_match pats (segments (tl path)) \<and>
          gm_get (Params r) = map_of (bindings pats (segments (tl path))))
     else r = NotFound \<and>
       \<not> (path \<noteq> [] \<and> hd path = slash \<and>
          (\<exists>pats it. snd (register_spec rs (\<lambda>ts. None)) pats = Some it \<and> path_match pats (segments (tl path))))"
proof -
  let ?t = "snd (register rs NewTree) :: 'a node"
  have r0: "routes (NewTree :: 'a node) = (\<lambda>ts. None)" by (simp add: NewTree_def fun_eq_iff)
  have wf: "wf_node ?t" and m: "routes ?t = snd (register_spec rs (\<lambda>ts. None))"
    using register_correct [of "NewTree :: 'a node" rs] r0 by (auto simp: NewTree_def dest: arg_cong [of _ _ snd])
  note s = search_correct(1) [OF wf, of "tl path"]
  show ?thesis
  proof (cases "path = [] \<or> hd path \<noteq> slash")
    case True
    then show ?thesis by (auto simp: Search_def)
  next
    case False
    then show ?thesis using s unfolding m [symmetric]
      by (cases "tree_next ?t (tl path)") (auto simp: Search_def next_ok_def hits_def misses_def)
  qed
qed

text \<open>A literal route is found before any route with parameters.\<close>

lemma each_inner_literal:
  assumes "gm_wf cs" "\<And>k v. (k, v) \<in> set cs \<Longrightarrow> \<not> is_param k" "gm_get cs token = Some c" "tree_next c rest = Some r"
  shows "each_inner cs token rest = Some r"
  using assms
proof (induction cs)
  case (Cons a cs)
  obtain k v where a: "a = (k, v)" by (cases a)
  have wf: "gm_wf cs" using Cons.prems(1) by (simp add: gm_wf_def)
  have np: "\<not> is_param k'" if "(k', v') \<in> set (a # cs)" for k' v' using Cons.prems(2) [OF that] .
  have "\<not> is_param k" using np [of k v] a by simp
  with Cons.IH [OF wf] np Cons.prems(3,4) show ?case by (cases "k = token") (auto simp: a match_cases)
qed simp

lemma each_last_literal:
  assumes "gm_wf cs" "\<And>k v. (k, v) \<in> set cs \<Longrightarrow> \<not> is_param k" "gm_get cs token = Some c" "item c = Some it"
  shows "each_last cs token = Some \<lparr>Item = Some it, Params = []\<rparr>"
  using assms
proof (induction cs)
  case (Cons a cs)
  obtain k v where a: "a = (k, v)" by (cases a)
  have wf: "gm_wf cs" using Cons.prems(1) by (simp add: gm_wf_def)
  have np: "\<not> is_param k'" if "(k', v') \<in> set (a # cs)" for k' v' using Cons.prems(2) [OF that] .
  have "\<not> is_param k" using np [of k v] a by simp
  with Cons.IH [OF wf] np Cons.prems(3,4) show ?case by (cases "k = token") (auto simp: a match_cases)
qed simp

lemma literal_found:
  assumes "wf_node t" "routes t (key_of route) = Some it" "\<And>s. s \<in> set (key_of route) \<Longrightarrow> \<not> is_param s"
  shows "tree_next t route = Some \<lparr>Item = Some it, Params = []\<rparr>"
  using assms
proof (induction "length route" arbitrary: t route rule: less_induct)
  case less
  have lit: "gm_wf (literals t)" "\<And>k v. (k, v) \<in> set (literals t) \<Longrightarrow> \<not> is_param k" using less.prems(1) by (auto simp: wf_node_iff [of t])
  show ?case
  proof (cases "cut_slash route")
    case (Some tr)
    then obtain token rest where cut: "cut_slash route = Some (token, rest)" by (cases tr) auto
    then have ne: "route \<noteq> []" using cut_hd(1) by auto
    have k: "key_of route = token # key_of rest" using key_of_cut(1) [OF cut] .
    have nt: "\<not> is_param token" using less.prems(3) k by simp
    from less.prems(2) k obtain c where c: "gm_get (getChildren token t) token = Some c" "routes c (key_of rest) = Some it"
      by (auto split: option.splits)
    have "tree_next c rest = Some \<lparr>Item = Some it, Params = []\<rparr>"
      using less.hyps [OF cut_slash_length [OF cut] wf_child [OF less.prems(1) c(1)] c(2)] less.prems(3) k by simp
    then have "each_inner (literals t) token rest = Some \<lparr>Item = Some it, Params = []\<rparr>"
      using each_inner_literal [OF lit(1)] lit(2) c(1) nt by (auto simp: getChildren_def)
    then show ?thesis using cut ne by (simp add: tree_next.simps [of t route])
  next
    case None
    show ?thesis
    proof (cases "route = []")
      case True
      then show ?thesis using less.prems(2) key_of_cut(2) [OF None] by (simp add: tree_next.simps [of t "[]"])
    next
      case False
      then have k: "key_of route = [route]" using key_of_cut(2) [OF None] by simp
      then have nt: "\<not> is_param route" using less.prems(3) by simp
      from less.prems(2) k obtain c where "gm_get (literals t) route = Some c" "item c = Some it"
        using nt by (auto simp: getChildren_def split: option.splits)
      then have "each_last (literals t) route = Some \<lparr>Item = Some it, Params = []\<rparr>" using each_last_literal [OF lit(1)] lit(2) by blast
      then show ?thesis using False None by (simp add: tree_next.simps [of t route])
    qed
  qed
qed

text \<open>What is registered under a route without parameters is found under it, in preference to every route with
  parameters that also matches.\<close>

theorem route_roundtrip:
  assumes "Tree_Add (snd (register rs NewTree)) route (Some it) = (None, t)"
    and "\<And>s. s \<in> set (key_of (tl route)) \<Longrightarrow> \<not> is_param s"
  shows "Search t route = (\<lparr>Item = Some it, Params = []\<rparr>, True)"
proof -
  let ?t = "snd (register rs NewTree)"
  have wf: "wf_node ?t" using register_correct [of NewTree rs] by (simp add: NewTree_def)
  from assms(1) have r: "route \<noteq> []" "hd route = slash" "tree_add ?t (tl route) it = (None, t)"
    by (auto simp: Tree_Add_def split: if_splits)
  with tree_add_correct [OF wf, of "tl route" it] have "wf_node t" "(None, routes t) = add_spec (tl route) it (routes ?t)" by simp_all
  moreover from this have "routes t (key_of (tl route)) = Some it" by (auto simp: add_spec_def split: if_splits)
  ultimately show ?thesis using literal_found [of t "tl route" it] assms(2) r by (simp add: Search_def)
qed

theorem route_roundtrip_witness:
  "Search (snd (Tree_Add (snd (register [(''/:x'', Some (1 :: int))] NewTree)) ''/a'' (Some 2))) ''/a'' = (\<lparr>Item = Some 2, Params = []\<rparr>, True)"
proof -
  have "fst (Tree_Add (snd (register [(''/:x'', Some (1 :: int))] NewTree)) ''/a'' (Some 2)) = None" by code_simp
  moreover have "key_of (tl ''/a'') = [''a'']" by code_simp
  ultimately show ?thesis
    using route_roundtrip [of "[(''/:x'', Some (1 :: int))]" "''/a''" 2 "snd (Tree_Add (snd (register [(''/:x'', Some (1 :: int))] NewTree)) ''/a'' (Some 2))"]
    by (simp add: prod_eq_iff is_param_def)
qed

end
