(* ===== verification/Auth_Role.thy ===== *)
theory Auth_Role
  imports Go_Prelude
begin

text \<open>
  \<open>src/runtime/auth/role.go\<close> and \<open>CheckPasswordStrength\<close> of \<open>src/runtime/auth/password.go\<close>.

  The role hierarchy is searched depth first with a set of visited roles that the recursive
  calls share.  The main result is that this search decides reachability in the inheritance
  graph, on every hierarchy, cyclic ones included, and that it always terminates.
\<close>

section \<open>Role hierarchies\<close>

type_synonym RoleHierarchy = "(string, string list) gomap"

definition parents :: "RoleHierarchy \<Rightarrow> string \<Rightarrow> string list" where
  "parents h u = gm_get_or [] h u"

text \<open>Roles that are keys of the hierarchy and have not been visited yet bound the recursion.\<close>

definition unseen :: "RoleHierarchy \<Rightarrow> string set \<Rightarrow> nat" where
  "unseen h seen = card (gm_keys h - seen)"

lemma unseen_insert: "u \<in> gm_keys h \<Longrightarrow> u \<notin> seen \<Longrightarrow> unseen h (insert u seen) < unseen h seen"
  unfolding unseen_def by (rule psubset_card_mono) auto

lemma unseen_mono: "seen \<subseteq> seen' \<Longrightarrow> unseen h seen' \<le> unseen h seen"
  unfolding unseen_def by (rule card_mono) auto

lemma parents_not_key: "u \<notin> gm_keys h \<Longrightarrow> parents h u = []"
  by (simp add: parents_def gm_get_or_def map_of_eq_None_iff [symmetric])

text \<open>
  \<open>inherits\<close> mutates the map \<open>seen\<close> that its caller passes, so the model returns the map
  beside the answer; \<open>inherits_loop\<close> is the loop \<open>for _, r := range h[userRole]\<close>.
\<close>

function (sequential)
  inherits :: "RoleHierarchy \<Rightarrow> string \<Rightarrow> string \<Rightarrow> string set \<Rightarrow> bool \<times> string set" and
  inherits_loop :: "RoleHierarchy \<Rightarrow> string list \<Rightarrow> string \<Rightarrow> string set \<Rightarrow> bool \<times> string set"
where
  "inherits h userRole requiredRole seen =
     (if userRole = requiredRole then (True, seen)
      else if userRole \<in> seen then (False, seen)
      else inherits_loop h (parents h userRole) requiredRole (insert userRole seen))"
| "inherits_loop h [] requiredRole seen = (False, seen)"
| "inherits_loop h (r # rs) requiredRole seen =
     (case inherits h r requiredRole seen of
        (True, seen') \<Rightarrow> (True, seen')
      | (False, seen') \<Rightarrow> inherits_loop h rs requiredRole seen')"
  by pat_completeness auto

termination
proof -
  have visited_grows: "inherits_inherits_loop_dom (Inl (h, u, r, seen)) \<Longrightarrow> seen \<subseteq> snd (inherits h u r seen)"
    and "inherits_inherits_loop_dom (Inr (h, us, r, seen)) \<Longrightarrow> seen \<subseteq> snd (inherits_loop h us r seen)"
    for h u us r seen
  proof (induction h u r seen and h us r seen rule: inherits_inherits_loop.pinduct)
    case (3 h r rs requiredRole seen)
    obtain b s where "inherits h r requiredRole seen = (b, s)"
      by (cases "inherits h r requiredRole seen")
    with 3 show ?case by (cases b) (auto simp: inherits_loop.psimps)
  qed (auto simp: inherits.psimps inherits_loop.psimps)
  show ?thesis
  proof (relation "measures
      [\<lambda>x. case x of Inl (h, u, r, seen) \<Rightarrow> unseen h seen | Inr (h, us, r, seen) \<Rightarrow> unseen h seen,
       \<lambda>x. case x of Inl _ \<Rightarrow> 1 | Inr (h, us, r, seen) \<Rightarrow> 2 * length us]", goal_cases)
    case 1
    show ?case by simp
  next
    case (2 h userRole requiredRole seen)
    show ?case
    proof (cases "userRole \<in> gm_keys h")
      case True
      with 2 show ?thesis by (simp add: unseen_insert)
    next
      case False
      have "unseen h (insert userRole seen) \<le> unseen h seen"
        by (rule unseen_mono) blast
      with False show ?thesis by (auto simp: parents_not_key)
    qed
  next
    case (3 h r rs requiredRole seen)
    show ?case by simp
  next
    case (4 h r rs requiredRole seen b s)
    from 4 have "seen \<subseteq> s" using visited_grows [of h r requiredRole seen]
      by (metis snd_conv)
    then have "unseen h s \<le> unseen h seen" by (rule unseen_mono)
    then show ?case by auto
  qed
qed

declare inherits.simps [simp del]

definition Inherits :: "RoleHierarchy \<Rightarrow> string \<Rightarrow> string \<Rightarrow> bool" where
  "Inherits h userRole requiredRole = fst (inherits h userRole requiredRole {})"

fun Satisfies :: "RoleHierarchy \<Rightarrow> string list \<Rightarrow> string \<Rightarrow> bool" where
  "Satisfies h [] requiredRole = False"
| "Satisfies h (r # rs) requiredRole =
     (if Inherits h r requiredRole then True else Satisfies h rs requiredRole)"

section \<open>Permission patterns\<close>

definition MatchPermission :: "string \<Rightarrow> string \<Rightarrow> bool" where
  "MatchPermission granted required =
     (if granted = required then True
      else case IndexByte granted (CHR ''*'') of
        Some i \<Rightarrow> (let p = take i granted
                    in length p \<le> length required \<and> take (length p) required = p)
      | None \<Rightarrow> False)"

fun MatchAnyPermission :: "string list \<Rightarrow> string \<Rightarrow> bool" where
  "MatchAnyPermission [] required = False"
| "MatchAnyPermission (g # gs) required =
     (if MatchPermission g required then True else MatchAnyPermission gs required)"

section \<open>Password strength\<close>

text \<open>
  \<open>CheckPasswordStrength\<close> ranges over the runes of the password.  A rune outside ASCII is none
  of the three classes, and neither is any byte of its encoding, so ranging over the bytes sets
  the same flags.
\<close>

datatype password_error = TooShort | NoUpper | NoLower | NoDigit

record password_flags =
  hasUpper :: bool
  hasLower :: bool
  hasDigit :: bool

definition password_step :: "char \<Rightarrow> password_flags \<Rightarrow> password_flags" where
  "password_step ch f =
     (if 65 \<le> ord_of ch \<and> ord_of ch \<le> 90 then f\<lparr>hasUpper := True\<rparr>
      else if 97 \<le> ord_of ch \<and> ord_of ch \<le> 122 then f\<lparr>hasLower := True\<rparr>
      else if 48 \<le> ord_of ch \<and> ord_of ch \<le> 57 then f\<lparr>hasDigit := True\<rparr>
      else f)"

definition CheckPasswordStrength :: "string \<Rightarrow> password_error option" where
  "CheckPasswordStrength password =
     (if length password < 8 then Some TooShort
      else let f = fold password_step password \<lparr>hasUpper = False, hasLower = False, hasDigit = False\<rparr>
        in if \<not> hasUpper f then Some NoUpper
           else if \<not> hasLower f then Some NoLower
           else if \<not> hasDigit f then Some NoDigit
           else None)"

section \<open>Lemmas\<close>

text \<open>The inheritance graph: an edge from each role to each role it lists.\<close>

definition role_edges :: "RoleHierarchy \<Rightarrow> (string \<times> string) set" where
  "role_edges h = {(a, b). b \<in> set (parents h a)}"

lemma inherits_sound:
  "fst (inherits h u r seen) \<Longrightarrow> (u, r) \<in> (role_edges h)\<^sup>*"
  "fst (inherits_loop h us r seen) \<Longrightarrow> \<exists>u\<in>set us. (u, r) \<in> (role_edges h)\<^sup>*"
proof (induction h u r seen and h us r seen rule: inherits_inherits_loop.induct)
  case (1 h userRole requiredRole seen)
  show ?case
  proof (cases "userRole = requiredRole \<or> userRole \<in> seen")
    case True
    with "1.prems" show ?thesis by (auto simp: inherits.simps split: if_splits)
  next
    case False
    with 1 obtain v where "v \<in> set (parents h userRole)" "(v, requiredRole) \<in> (role_edges h)\<^sup>*"
      by (auto simp: inherits.simps)
    then show ?thesis
      by (auto simp: role_edges_def intro: converse_rtrancl_into_rtrancl)
  qed
next
  case (2 h requiredRole seen)
  then show ?case by simp
next
  case (3 h r rs requiredRole seen)
  obtain b s where "inherits h r requiredRole seen = (b, s)"
    by (cases "inherits h r requiredRole seen")
  with 3 show ?case by (cases b) auto
qed

text \<open>
  What a failed search leaves behind: every role it newly visited differs from the required
  one and has all its parents in the visited set.
\<close>

definition explored :: "RoleHierarchy \<Rightarrow> string \<Rightarrow> string set \<Rightarrow> string set \<Rightarrow> bool" where
  "explored h r seen s \<longleftrightarrow> seen \<subseteq> s \<and> (\<forall>x\<in>s - seen. x \<noteq> r \<and> set (parents h x) \<subseteq> s)"

lemma explored_refl: "explored h r s s"
  by (simp add: explored_def)

lemma explored_trans: "explored h r a b \<Longrightarrow> explored h r b c \<Longrightarrow> explored h r a c"
  unfolding explored_def by blast

lemma inherits_complete:
  "\<not> fst (inherits h u r seen) \<Longrightarrow>
     explored h r seen (snd (inherits h u r seen)) \<and> u \<noteq> r \<and> u \<in> snd (inherits h u r seen)"
  "\<not> fst (inherits_loop h us r seen) \<Longrightarrow>
     explored h r seen (snd (inherits_loop h us r seen)) \<and> r \<notin> set us \<and>
     set us \<subseteq> snd (inherits_loop h us r seen)"
proof (induction h u r seen and h us r seen rule: inherits_inherits_loop.induct)
  case (1 h userRole requiredRole seen)
  show ?case
  proof (cases "userRole = requiredRole \<or> userRole \<in> seen")
    case True
    with "1.prems" show ?thesis by (auto simp: inherits.simps explored_refl split: if_splits)
  next
    case False
    define s where "s = snd (inherits_loop h (parents h userRole) requiredRole (insert userRole seen))"
    from False 1 have ex: "explored h requiredRole (insert userRole seen) s"
      and sub: "set (parents h userRole) \<subseteq> s"
      by (auto simp: inherits.simps s_def)
    from ex sub False have "explored h requiredRole seen s" and "userRole \<in> s"
      unfolding explored_def by blast+
    with False show ?thesis by (simp add: inherits.simps s_def)
  qed
next
  case (2 h requiredRole seen)
  then show ?case by (simp add: explored_refl)
next
  case (3 h r rs requiredRole seen)
  obtain b s where bs: "inherits h r requiredRole seen = (b, s)"
    by (cases "inherits h r requiredRole seen")
  with "3.prems" have [simp]: "b = False" by (cases b) auto
  define t where "t = snd (inherits_loop h rs requiredRole s)"
  from bs "3.IH"(1) have first: "explored h requiredRole seen s" "r \<noteq> requiredRole" "r \<in> s"
    by auto
  from bs "3.prems" "3.IH"(2) have rest: "explored h requiredRole s t"
      "requiredRole \<notin> set rs" "set rs \<subseteq> t"
    by (auto simp: t_def)
  from first(3) rest(1) have "r \<in> t" unfolding explored_def by blast
  with bs first rest show ?case
    by (auto simp: t_def intro: explored_trans)
qed

lemma closed_set_no_escape:
  assumes "(u, v) \<in> (role_edges h)\<^sup>*" and "u \<in> s" and "\<And>x. x \<in> s \<Longrightarrow> set (parents h x) \<subseteq> s"
  shows "v \<in> s"
  using assms(1,2) by (induction rule: rtrancl_induct) (use assms(3) in \<open>auto simp: role_edges_def\<close>)

lemma Inherits_iff_rtrancl: "Inherits h u r \<longleftrightarrow> (u, r) \<in> (role_edges h)\<^sup>*"
proof
  assume "Inherits h u r"
  then show "(u, r) \<in> (role_edges h)\<^sup>*"
    unfolding Inherits_def by (rule inherits_sound(1))
next
  assume path: "(u, r) \<in> (role_edges h)\<^sup>*"
  show "Inherits h u r"
  proof (rule ccontr)
    define s where "s = snd (inherits h u r {})"
    assume "\<not> Inherits h u r"
    then have "explored h r {} s" "u \<in> s"
      using inherits_complete(1) [of h u r "{}"] by (auto simp: Inherits_def s_def)
    then have "r \<in> s" "r \<notin> s"
      using closed_set_no_escape [OF path, of s] by (auto simp: explored_def)
    then show False by contradiction
  qed
qed

lemma Satisfies_iff_ex: "Satisfies h rs r \<longleftrightarrow> (\<exists>u\<in>set rs. Inherits h u r)"
  by (induction rs) auto

lemma fold_password_step:
  "hasUpper (fold password_step p f) \<longleftrightarrow> hasUpper f \<or> (\<exists>c\<in>set p. 65 \<le> ord_of c \<and> ord_of c \<le> 90)"
  "hasLower (fold password_step p f) \<longleftrightarrow> hasLower f \<or> (\<exists>c\<in>set p. 97 \<le> ord_of c \<and> ord_of c \<le> 122)"
  "hasDigit (fold password_step p f) \<longleftrightarrow> hasDigit f \<or> (\<exists>c\<in>set p. 48 \<le> ord_of c \<and> ord_of c \<le> 57)"
  by (induction p arbitrary: f) (auto simp: password_step_def)

lemma take_eq_iff_prefix: "length p \<le> length r \<and> take (length p) r = p \<longleftrightarrow> prefix p r"
  by (auto simp: prefix_def) (metis append_take_drop_id)

lemma MatchPermission_star:
  "CHR ''*'' \<notin> set p \<Longrightarrow>
     MatchPermission (p @ CHR ''*'' # s) required \<longleftrightarrow> p @ CHR ''*'' # s = required \<or> prefix p required"
  by (simp add: MatchPermission_def Let_def take_eq_iff_prefix)

lemma MatchPermission_iff:
  "MatchPermission granted required \<longleftrightarrow>
     granted = required \<or>
     (\<exists>p s. granted = p @ CHR ''*'' # s \<and> CHR ''*'' \<notin> set p \<and> prefix p required)"
proof (cases "CHR ''*'' \<in> set granted")
  case False
  then have "IndexByte granted (CHR ''*'') = None" by (simp add: IndexByte_None_iff)
  with False show ?thesis by (auto simp: MatchPermission_def)
next
  case True
  then obtain p s where g: "granted = p @ CHR ''*'' # s" and no: "CHR ''*'' \<notin> set p"
    by (meson split_list_first)
  with g no show ?thesis by (auto simp: MatchPermission_star dest: split_first_unique)
qed

section \<open>Properties\<close>

text \<open>
  C13: A role check succeeds exactly when one of the user's roles reaches the required role by
  following inheritance edges any number of times.  The search therefore terminates with the
  right answer on every hierarchy, including one with cycles and one that names unknown roles.
\<close>

theorem role_check_decides_reachability:
  "Satisfies h userRoles requiredRole \<longleftrightarrow>
     (\<exists>u\<in>set userRoles. (u, requiredRole) \<in> (role_edges h)\<^sup>*)"
  by (simp add: Satisfies_iff_ex Inherits_iff_rtrancl)

text \<open>
  A granted permission covers a required one exactly when they are equal or the part of the
  granted permission before its first star is a prefix of the required one.  What follows the
  first star has no influence.
\<close>

theorem permission_match_characterisation:
  "MatchAnyPermission granted required \<longleftrightarrow>
     required \<in> set granted \<or>
     (\<exists>p s. p @ CHR ''*'' # s \<in> set granted \<and> CHR ''*'' \<notin> set p \<and> prefix p required)"
  by (induction granted) (auto simp: MatchPermission_iff)

text \<open>
  A password passes the strength check exactly when it has at least eight bytes and contains
  an upper-case letter, a lower-case letter and a digit.
\<close>

theorem password_strength_accepts_iff:
  "CheckPasswordStrength p = None \<longleftrightarrow>
     8 \<le> length p \<and>
     (\<exists>c\<in>set p. CHR ''A'' \<le> c \<and> c \<le> CHR ''Z'') \<and>
     (\<exists>c\<in>set p. CHR ''a'' \<le> c \<and> c \<le> CHR ''z'') \<and>
     (\<exists>c\<in>set p. CHR ''0'' \<le> c \<and> c \<le> CHR ''9'')"
  by (simp add: CheckPasswordStrength_def Let_def fold_password_step less_eq_char_def not_less)

end
