(* ===== verification/Fifo_Queue.thy ===== *)
theory Fifo_Queue
  imports Go_Prelude
begin

text \<open>
  \<open>src/infra/collection/fifo.go\<close> and \<open>ring.go\<close>: a growing circular queue and a fixed-size ring.

  Both hold their elements in a slice that is used circularly.  The queue is shown to refine a
  list with insertion at the end and removal at the front (the locale \<open>fifo\<close>, interpreted on
  the circular queue), and the ring to hold the most recent elements in insertion order.
\<close>

section \<open>The queue\<close>

record 'a Queue =
  elements :: "'a list"
  size_of :: nat
  head :: nat
  tail :: nat
  count :: nat

text \<open>
  \<open>make([]any, size)\<close> fills the slice with the zero value \<open>nil\<close>, a parameter of the model.
\<close>

definition NewQueue :: "'a \<Rightarrow> nat \<Rightarrow> 'a Queue" where
  "NewQueue nil n = \<lparr>elements = replicate n nil, size_of = n, head = 0, tail = 0, count = 0\<rparr>"

definition Queue_Empty :: "'a Queue \<Rightarrow> bool" where
  "Queue_Empty q \<longleftrightarrow> count q = 0"

definition Queue_grow :: "'a \<Rightarrow> 'a Queue \<Rightarrow> 'a Queue" where
  "Queue_grow nil q =
     (let nodes = replicate (length (elements q) + size_of q) nil;
          nodes = go_copy nodes 0 (drop (head q) (elements q));
          nodes = go_copy nodes (length (elements q) - head q) (take (head q) (elements q))
      in q\<lparr>head := 0, tail := length (elements q), elements := nodes\<rparr>)"

definition Queue_Put :: "'a \<Rightarrow> 'a \<Rightarrow> 'a Queue \<Rightarrow> panic + 'a Queue" where
  "Queue_Put nil element q =
     (let q = (if head q = tail q \<and> count q > 0 then Queue_grow nil q else q)
      in if tail q < length (elements q)
         then Inr (q\<lparr>elements := (elements q)[tail q := element],
                     tail := (tail q + 1) mod length (elements q),
                     count := count q + 1\<rparr>)
         else Inl IndexOutOfRange)"

definition Queue_Take :: "'a Queue \<Rightarrow> panic + ('a option \<times> 'a Queue)" where
  "Queue_Take q =
     (if count q = 0 then Inr (None, q)
      else if head q < length (elements q)
      then Inr (Some (elements q ! head q),
                q\<lparr>head := (head q + 1) mod length (elements q), count := count q - 1\<rparr>)
      else Inl IndexOutOfRange)"

section \<open>The queue interface\<close>

text \<open>
  Clients issue any sequence of insertions and removals.  \<open>run_queue\<close> runs one against the
  operations of a queue and collects the answers of the removals; \<open>run_list\<close> is the same on a
  list and is the specification.
\<close>

datatype 'a queue_op = OpPut 'a | OpTake

fun run_queue :: "('a \<Rightarrow> 'q \<Rightarrow> panic + 'q) \<Rightarrow> ('q \<Rightarrow> panic + ('a option \<times> 'q)) \<Rightarrow>
    'a queue_op list \<Rightarrow> 'q \<Rightarrow> panic + ('a option list \<times> 'q)" where
  "run_queue put take1 [] q = Inr ([], q)"
| "run_queue put take1 (OpPut x # ops) q =
     (case put x q of Inl e \<Rightarrow> Inl e | Inr q' \<Rightarrow> run_queue put take1 ops q')"
| "run_queue put take1 (OpTake # ops) q =
     (case take1 q of
        Inl e \<Rightarrow> Inl e
      | Inr (r, q') \<Rightarrow>
          (case run_queue put take1 ops q' of Inl e \<Rightarrow> Inl e | Inr (rs, q'') \<Rightarrow> Inr (r # rs, q'')))"

fun run_list :: "'a queue_op list \<Rightarrow> 'a list \<Rightarrow> 'a option list \<times> 'a list" where
  "run_list [] xs = ([], xs)"
| "run_list (OpPut x # ops) xs = run_list ops (xs @ [x])"
| "run_list (OpTake # ops) [] = (let (rs, ys) = run_list ops [] in (None # rs, ys))"
| "run_list (OpTake # ops) (x # xs) = (let (rs, ys) = run_list ops xs in (Some x # rs, ys))"

text \<open>
  What a client relies on: an abstraction to lists under which insertion appends, removal takes
  the first element, and neither operation fails on a well-formed queue.
\<close>

locale fifo =
  fixes put :: "'a \<Rightarrow> 'q \<Rightarrow> panic + 'q"
    and take1 :: "'q \<Rightarrow> panic + ('a option \<times> 'q)"
    and is_empty :: "'q \<Rightarrow> bool"
    and items :: "'q \<Rightarrow> 'a list"
    and ok :: "'q \<Rightarrow> bool"
  assumes put_spec: "ok q \<Longrightarrow> \<exists>q'. put x q = Inr q' \<and> ok q' \<and> items q' = items q @ [x]"
    and take_nil: "ok q \<Longrightarrow> items q = [] \<Longrightarrow> take1 q = Inr (None, q)"
    and take_cons: "ok q \<Longrightarrow> items q = x # xs \<Longrightarrow>
                      \<exists>q'. take1 q = Inr (Some x, q') \<and> ok q' \<and> items q' = xs"
    and empty_iff: "ok q \<Longrightarrow> is_empty q \<longleftrightarrow> items q = []"
begin

lemma run_refines:
  "ok q \<Longrightarrow> \<exists>q'. run_queue put take1 ops q = Inr (fst (run_list ops (items q)), q') \<and>
     ok q' \<and> items q' = snd (run_list ops (items q))"
proof (induction ops arbitrary: q)
  case Nil
  then show ?case by simp
next
  case (Cons opn ops)
  show ?case
  proof (cases opn)
    case (OpPut x)
    from put_spec [OF Cons.prems, of x] obtain q1
      where q1: "put x q = Inr q1" "ok q1" "items q1 = items q @ [x]" by blast
    from Cons.IH [OF q1(2)] q1 OpPut show ?thesis by auto
  next
    case OpTake
    show ?thesis
    proof (cases "items q")
      case Nil
      from take_nil [OF Cons.prems Nil] Cons.IH [OF Cons.prems] OpTake Nil show ?thesis
        by (auto split: prod.split)
    next
      case items: (Cons x xs)
      from take_cons [OF Cons.prems items] obtain q1
        where q1: "take1 q = Inr (Some x, q1)" "ok q1" "items q1 = xs" by blast
      from Cons.IH [OF q1(2)] q1 OpTake items show ?thesis by (auto split: prod.split)
    qed
  qed
qed

lemma run_empty:
  assumes "ok q" and "items q = []"
  shows "\<exists>q'. run_queue put take1 ops q = Inr (fst (run_list ops []), q') \<and>
    (is_empty q' \<longleftrightarrow> snd (run_list ops []) = [])"
  using run_refines [OF assms(1), of ops] assms(2) by (auto simp: empty_iff)

end

section \<open>The circular queue implements the interface\<close>

definition queue_items :: "'a Queue \<Rightarrow> 'a list" where
  "queue_items q = map (\<lambda>i. elements q ! ((head q + i) mod length (elements q))) [0..<count q]"

definition queue_ok :: "'a Queue \<Rightarrow> bool" where
  "queue_ok q \<longleftrightarrow> 0 < size_of q \<and> size_of q \<le> length (elements q) \<and>
     head q < length (elements q) \<and> count q \<le> length (elements q) \<and>
     tail q = (head q + count q) mod length (elements q)"

lemma queue_ok_new [simp]: "0 < n \<Longrightarrow> queue_ok (NewQueue nil n) \<and> queue_items (NewQueue nil n) = []"
  by (simp add: queue_ok_def queue_items_def NewQueue_def)

lemma mod_add_once:
  fixes a b n :: nat
  assumes "a < n" and "b \<le> n"
  shows "(a + b) mod n = (if a + b < n then a + b else a + b - n)"
  using assms by (simp add: le_mod_geq)

lemma queue_full_iff:
  "queue_ok q \<Longrightarrow> head q = tail q \<and> count q > 0 \<longleftrightarrow> count q = length (elements q)"
  by (auto simp: queue_ok_def mod_add_once split: if_splits)

lemma queue_grow_elements:
  assumes "queue_ok q"
  shows "elements (Queue_grow nil q) =
    drop (head q) (elements q) @ take (head q) (elements q) @ replicate (size_of q) nil"
proof -
  let ?e = "elements q" and ?h = "head q" and ?n = "length (elements q)"
  from assms have h: "?h \<le> ?n" by (simp add: queue_ok_def)
  have "replicate (?n + size_of q) nil = replicate (?n - ?h) nil @ replicate (?h + size_of q) nil"
    using h by (simp flip: replicate_add)
  then have "go_copy (replicate (?n + size_of q) nil) 0 (drop ?h ?e) =
      drop ?h ?e @ replicate (?h + size_of q) nil"
    using go_copy_append [of "[]" 0 "drop ?h ?e" "replicate (?n + size_of q) nil"] h by simp
  moreover have "go_copy (drop ?h ?e @ replicate (?h + size_of q) nil) (?n - ?h) (take ?h ?e) =
      drop ?h ?e @ take ?h ?e @ replicate (size_of q) nil"
    using go_copy_append [of "drop ?h ?e" "?n - ?h" "take ?h ?e" "replicate (?h + size_of q) nil"] h
    by simp
  ultimately show ?thesis by (simp add: Queue_grow_def Let_def)
qed

lemma queue_items_full:
  assumes "head q < length (elements q)" and "count q = length (elements q)"
  shows "queue_items q = drop (head q) (elements q) @ take (head q) (elements q)"
proof -
  have "queue_items q = rotate (head q) (elements q)"
    by (rule nth_equalityI) (auto simp: queue_items_def assms nth_rotate)
  also have "\<dots> = drop (head q) (elements q) @ take (head q) (elements q)"
    using assms by (simp add: rotate_drop_take)
  finally show ?thesis .
qed

lemma queue_grow_ok:
  assumes ok: "queue_ok q" and full: "count q = length (elements q)"
  shows "queue_ok (Queue_grow nil q) \<and> queue_items (Queue_grow nil q) = queue_items q \<and>
    count (Queue_grow nil q) < length (elements (Queue_grow nil q))"
proof -
  let ?g = "Queue_grow nil q" and ?ring = "drop (head q) (elements q) @ take (head q) (elements q)"
  from ok have h: "head q < length (elements q)" by (simp add: queue_ok_def)
  have fields: "head ?g = 0" "tail ?g = length (elements q)" "count ?g = count q" "size_of ?g = size_of q"
    by (simp_all add: Queue_grow_def Let_def)
  have el: "elements ?g = ?ring @ replicate (size_of q) nil"
    using queue_grow_elements [OF ok, of nil] by simp
  have "queue_items ?g = take (count q) (elements ?g)"
    by (rule nth_equalityI) (use fields el full h in \<open>auto simp: queue_items_def nth_append\<close>)
  also have "\<dots> = ?ring" using el full h by simp
  finally have "queue_items ?g = queue_items q"
    using queue_items_full [OF h full] by simp
  with ok fields el full h show ?thesis
    by (auto simp: queue_ok_def)
qed

lemma queue_append_ok:
  fixes x :: "'a"
  assumes ok: "queue_ok q" and room: "count q < length (elements q)"
  defines "q' \<equiv> q\<lparr>elements := (elements q)[tail q := x],
      tail := (tail q + 1) mod length (elements q), count := count q + 1\<rparr>"
  shows "tail q < length (elements q)" and "queue_ok q'" and "queue_items q' = queue_items q @ [x]"
proof -
  let ?n = "length (elements q)"
  from ok have h: "head q < ?n" and t: "tail q = (head q + count q) mod ?n"
    by (auto simp: queue_ok_def)
  from h have "0 < ?n" by linarith
  then show lt: "tail q < ?n" by (simp add: t)
  show "queue_ok q'"
    using ok room h t by (auto simp: queue_ok_def q'_def mod_simps)
  have "tail q \<noteq> (head q + i) mod ?n" if "i < count q" for i
    using that h t room by (auto simp: mod_add_once split: if_splits)
  then have old: "map (\<lambda>i. (elements q)[tail q := x] ! ((head q + i) mod ?n)) [0..<count q] = queue_items q"
    unfolding queue_items_def by (intro map_cong) (simp_all add: nth_list_update_neq)
  have "queue_items q' =
      map (\<lambda>i. (elements q)[tail q := x] ! ((head q + i) mod ?n)) [0..<count q] @
      [(elements q)[tail q := x] ! ((head q + count q) mod ?n)]"
    by (simp add: queue_items_def q'_def)
  with old lt show "queue_items q' = queue_items q @ [x]" by (simp flip: t)
qed

lemma queue_put_spec:
  assumes ok: "queue_ok q"
  shows "\<exists>q'. Queue_Put nil x q = Inr q' \<and> queue_ok q' \<and> queue_items q' = queue_items q @ [x]"
proof (cases "count q = length (elements q)")
  case True
  note g = queue_grow_ok [OF ok True, of nil]
  from True queue_full_iff [OF ok] have full: "head q = tail q \<and> count q > 0" by simp
  from queue_append_ok [of "Queue_grow nil q"] g full show ?thesis
    by (simp add: Queue_Put_def Let_def)
next
  case False
  with ok have room: "count q < length (elements q)" by (simp add: queue_ok_def)
  from False queue_full_iff [OF ok] have "\<not> (head q = tail q \<and> count q > 0)" by simp
  with queue_append_ok [OF ok room] show ?thesis
    by (auto simp: Queue_Put_def Let_def)
qed

lemma queue_take_cons:
  assumes ok: "queue_ok q" and items: "queue_items q = x # xs"
  shows "\<exists>q'. Queue_Take q = Inr (Some x, q') \<and> queue_ok q' \<and> queue_items q' = xs"
proof -
  let ?n = "length (elements q)"
  define q' where "q' = q\<lparr>head := (head q + 1) mod ?n, count := count q - 1\<rparr>"
  from items have "queue_items q \<noteq> []" by simp
  then have c: "count q > 0" by (simp add: queue_items_def)
  from ok have h: "head q < ?n" by (simp add: queue_ok_def)
  from c have up: "[0..<count q] = 0 # map Suc [0..<count q - 1]"
    by (simp add: map_Suc_upt upt_conv_Cons)
  have "queue_items q = elements q ! head q # queue_items q'"
    unfolding queue_items_def up using h by (simp add: q'_def mod_simps)
  with items have eqs: "elements q ! head q = x" "queue_items q' = xs" by auto
  obtain k where k: "count q = Suc k" using c by (cases "count q") auto
  from h have "0 < ?n" by linarith
  then have "queue_ok q'"
    using ok k by (simp add: queue_ok_def q'_def mod_simps)
  with c h eqs show ?thesis by (auto simp: Queue_Take_def q'_def)
qed

interpretation lq: fifo "Queue_Put nil" Queue_Take Queue_Empty queue_items queue_ok
  for nil :: 'a
proof unfold_locales
  show "\<exists>q'. Queue_Put nil x q = Inr q' \<and> queue_ok q' \<and> queue_items q' = queue_items q @ [x]"
    if "queue_ok q" for x :: 'a and q using that by (rule queue_put_spec)
  show "\<exists>q'. Queue_Take q = Inr (Some x, q') \<and> queue_ok q' \<and> queue_items q' = xs"
    if "queue_ok q" "queue_items q = x # xs" for x :: 'a and xs q using that by (rule queue_take_cons)
qed (auto simp: Queue_Take_def Queue_Empty_def queue_items_def)

section \<open>The ring\<close>

record 'a Ring =
  ring_elements :: "'a list"
  ring_index :: nat

definition NewRing :: "'a \<Rightarrow> int \<Rightarrow> panic + 'a Ring" where
  "NewRing nil n =
     (if n < 1 then Inl (ExplicitPanic ''n should be greater than 0'')
      else Inr \<lparr>ring_elements = replicate (nat n) nil, ring_index = 0\<rparr>)"

definition Ring_Add :: "'a \<Rightarrow> 'a Ring \<Rightarrow> 'a Ring" where
  "Ring_Add v r =
     (let rlen = length (ring_elements r);
          els = (ring_elements r)[ring_index r mod rlen := v];
          i = ring_index r + 1
      in \<lparr>ring_elements = els, ring_index = (if i \<ge> 2 * rlen then i - rlen else i)\<rparr>)"

definition Ring_Take :: "'a Ring \<Rightarrow> 'a list" where
  "Ring_Take r =
     (let rlen = length (ring_elements r);
          (size, start) = (if ring_index r > rlen then (rlen, ring_index r mod rlen) else (ring_index r, 0))
      in map (\<lambda>i. ring_elements r ! ((start + i) mod rlen)) [0..<size])"

text \<open>
  \<open>ring_holds n xs r\<close>: the ring of size \<open>n\<close> has received exactly the elements \<open>xs\<close>.  The index
  is kept below \<open>2 * n\<close>; it is the number of insertions up to a multiple of \<open>n\<close>, and stays at
  least \<open>n\<close> once the ring has filled.
\<close>

definition ring_holds :: "nat \<Rightarrow> 'a list \<Rightarrow> 'a Ring \<Rightarrow> bool" where
  "ring_holds n xs r \<longleftrightarrow>
     0 < n \<and> length (ring_elements r) = n \<and> ring_index r < 2 * n \<and>
     ring_index r mod n = length xs mod n \<and>
     (if length xs < n then ring_index r = length xs else n \<le> ring_index r) \<and>
     (\<forall>i<length xs. length xs \<le> i + n \<longrightarrow> ring_elements r ! (i mod n) = xs ! i)"

lemma ring_holds_new: "0 < n \<Longrightarrow> NewRing nil (int n) = Inr r \<Longrightarrow> ring_holds n [] r"
  by (auto simp: NewRing_def ring_holds_def)

lemma ring_holds_add:
  assumes r: "ring_holds n xs r"
  shows "ring_holds n (xs @ [v]) (Ring_Add v r)"
proof -
  let ?l = "length xs" and ?r = "Ring_Add v r"
  from r have n: "0 < n" and len: "length (ring_elements r) = n"
    and pos: "ring_index r mod n = ?l mod n" by (auto simp: ring_holds_def)
  have els: "ring_elements ?r = (ring_elements r)[?l mod n := v]"
    by (simp add: Ring_Add_def Let_def len pos)
  have idx: "ring_index ?r = (if 2 * n \<le> Suc (ring_index r) then Suc (ring_index r) - n else Suc (ring_index r))"
    by (simp add: Ring_Add_def Let_def len)
  have "Suc (ring_index r) mod n = Suc ?l mod n"
    using pos by (metis mod_Suc_eq)
  then have "ring_index ?r mod n = Suc ?l mod n"
    using n by (simp add: idx flip: le_mod_geq)
  moreover have "ring_elements ?r ! (i mod n) = (xs @ [v]) ! i" if "i < Suc ?l" "Suc ?l \<le> i + n" for i
  proof (cases "i = ?l")
    case True
    then show ?thesis using n by (simp add: els len)
  next
    case False
    with that have i: "i < ?l" "?l < i + n" by auto
    with r show ?thesis
      using mod_neq_within [OF i] by (simp add: els nth_append ring_holds_def)
  qed
  moreover have "ring_index ?r < 2 * n" "if Suc ?l < n then ring_index ?r = Suc ?l else n \<le> ring_index ?r"
    using r by (auto simp: idx ring_holds_def split: if_splits)
  ultimately show ?thesis
    using n len by (auto simp: ring_holds_def els simp del: mod_less split: if_splits)
qed

lemma ring_holds_take:
  assumes r: "ring_holds n xs r"
  shows "Ring_Take r = take_last n xs"
proof -
  let ?l = "length xs"
  from r have n: "0 < n" and len: "length (ring_elements r) = n" and pos: "ring_index r mod n = ?l mod n"
    and held: "\<And>i. i < ?l \<Longrightarrow> ?l \<le> i + n \<Longrightarrow> ring_elements r ! (i mod n) = xs ! i"
    by (auto simp: ring_holds_def)
  show ?thesis
  proof (cases "?l < n")
    case True
    with r have "ring_index r = ?l" by (simp add: ring_holds_def)
    with True len have "Ring_Take r = map (\<lambda>i. ring_elements r ! (i mod n)) [0..<?l]"
      by (simp add: Ring_Take_def)
    also have "\<dots> = map (\<lambda>i. xs ! i) [0..<?l]"
      using held True by (intro map_cong) auto
    finally show ?thesis using True by (simp add: map_nth take_last_def)
  next
    case False
    with r have "n \<le> ring_index r" by (simp add: ring_holds_def split: if_splits)
    then have "Ring_Take r = map (\<lambda>i. ring_elements r ! ((?l + i) mod n)) [0..<n]"
      by (cases "ring_index r = n") (use pos len in \<open>auto simp: Ring_Take_def mod_simps\<close>)
    also have "\<dots> = map (\<lambda>i. xs ! (?l - n + i)) [0..<n]"
    proof (rule map_cong, simp_all)
      fix i assume i: "i < n"
      have "(?l + i) mod n = (?l - n + i) mod n"
        using False by (simp add: le_mod_geq)
      then show "ring_elements r ! ((?l + i) mod n) = xs ! (?l - n + i)"
        using held [of "?l - n + i"] i False by simp
    qed
    also have "\<dots> = drop (?l - n) xs"
      using False by (intro nth_equalityI) auto
    finally show ?thesis by (simp add: take_last_def)
  qed
qed

lemma ring_holds_fold: "ring_holds n ys r \<Longrightarrow> ring_holds n (ys @ xs) (fold Ring_Add xs r)"
proof (induction xs arbitrary: ys r)
  case (Cons x xs)
  from Cons.IH [OF ring_holds_add [OF Cons.prems, of x]] show ?case by simp
qed simp

section \<open>Properties\<close>

text \<open>
  C14: Whatever sequence of \<open>Put\<close> and \<open>Take\<close> calls a client makes on a new queue of positive initial
  size, no call panics, every \<open>Take\<close> answers as a first-in first-out list would (the oldest element
  not yet taken, or nothing), across wrap-arounds and growth of the circular buffer, and \<open>Empty\<close>
  holds at the end exactly when all elements have been taken.
\<close>

theorem queue_is_fifo:
  assumes "0 < n"
  shows "\<exists>q. run_queue (Queue_Put nil) Queue_Take ops (NewQueue nil n) = Inr (fst (run_list ops []), q) \<and>
    (Queue_Empty q \<longleftrightarrow> snd (run_list ops []) = [])"
  using queue_ok_new [OF assms, of nil] by (intro lq.run_empty) auto

theorem queue_is_fifo_witness:
  "\<exists>q. run_queue (Queue_Put (0::nat)) Queue_Take [OpPut 7, OpPut 8, OpTake, OpPut 9, OpTake, OpTake] (NewQueue 0 1) =
     Inr ([Some 7, Some 8, Some 9], q) \<and> Queue_Empty q"
  using queue_is_fifo [of 1 0 "[OpPut 7, OpPut 8, OpTake, OpPut 9, OpTake, OpTake]"] by simp

text \<open>
  After any sequence of insertions into a new ring of size \<open>n\<close>, \<open>Take\<close> returns the last \<open>n\<close>
  of them (all of them when there are fewer) in insertion order, and the index stays below \<open>2 * n\<close>,
  so it never overflows.
\<close>

theorem ring_keeps_most_recent:
  assumes "NewRing nil (int n) = Inr r"
  shows "Ring_Take (fold Ring_Add xs r) = take_last n xs \<and> ring_index (fold Ring_Add xs r) < 2 * n"
proof -
  have "ring_holds n [] r" using assms by (intro ring_holds_new) (auto simp: NewRing_def split: if_splits)
  then have "ring_holds n xs (fold Ring_Add xs r)" by (auto dest: ring_holds_fold)
  then show ?thesis by (auto simp: ring_holds_take ring_holds_def)
qed

theorem ring_keeps_most_recent_witness:
  "Ring_Take (fold Ring_Add [1, 2, 3, 4, 5] \<lparr>ring_elements = [0, 0, 0], ring_index = 0\<rparr>) = [3, 4, 5::nat]"
  using ring_keeps_most_recent [of "0::nat" 3 "\<lparr>ring_elements = [0, 0, 0], ring_index = 0\<rparr>" "[1, 2, 3, 4, 5]"]
  by (simp add: NewRing_def take_last_def numeral_eq_Suc)

end
