(* ===== verification/Safe_Map.thy ===== *)
theory Safe_Map
  imports Go_Prelude
begin

text \<open>
  \<open>src/infra/collection/safemap.go\<close> and \<open>set.go\<close>: a map that keeps its entries in two Go maps so
  that it can drop storage after many deletions, and a set over one Go map.

  The contract of a map is the locale \<open>map_store\<close>; the client lemma proved inside it says that any
  sequence of updates leaves the map in the state a finite function would be in.  It is interpreted
  on the plain Go map and on \<open>SafeMap\<close>, whose operations hold a lock for their whole duration and are
  therefore atomic steps.
\<close>

section \<open>The interface of a map\<close>

datatype ('k, 'v) map_op = OpSet 'k 'v | OpDel 'k

fun run_map :: "('k \<Rightarrow> 'v \<Rightarrow> 'm \<Rightarrow> 'm) \<Rightarrow> ('k \<Rightarrow> 'm \<Rightarrow> 'm) \<Rightarrow> ('k, 'v) map_op list \<Rightarrow> 'm \<Rightarrow> 'm" where
  "run_map st dl [] m = m"
| "run_map st dl (OpSet k v # ops) m = run_map st dl ops (st k v m)"
| "run_map st dl (OpDel k # ops) m = run_map st dl ops (dl k m)"

abbreviation run_fun :: "('k, 'v) map_op list \<Rightarrow> ('k \<rightharpoonup> 'v) \<Rightarrow> ('k \<rightharpoonup> 'v)" where
  "run_fun \<equiv> run_map (\<lambda>k v f. f(k \<mapsto> v)) (\<lambda>k f. f(k := None))"

locale map_store =
  fixes get :: "'m \<Rightarrow> 'k \<Rightarrow> 'v option"
    and st :: "'k \<Rightarrow> 'v \<Rightarrow> 'm \<Rightarrow> 'm"
    and dl :: "'k \<Rightarrow> 'm \<Rightarrow> 'm"
    and entries :: "'m \<Rightarrow> ('k \<times> 'v) list"
    and ok :: "'m \<Rightarrow> bool"
  assumes ok_set [simp]: "ok m \<Longrightarrow> ok (st k v m)"
    and ok_del [simp]: "ok m \<Longrightarrow> ok (dl k m)"
    and get_set: "ok m \<Longrightarrow> get (st k v m) = (get m)(k \<mapsto> v)"
    and get_del: "ok m \<Longrightarrow> get (dl k m) = (get m)(k := None)"
    and entries_distinct: "ok m \<Longrightarrow> distinct (map fst (entries m))"
    and entries_get: "ok m \<Longrightarrow> map_of (entries m) = get m"
begin

lemma run_ok: "ok m \<Longrightarrow> ok (run_map st dl ops m)"
proof (induction ops arbitrary: m)
  case (Cons opn ops)
  then show ?case by (cases opn) simp_all
qed simp

lemma run_get: "ok m \<Longrightarrow> get (run_map st dl ops m) = run_fun ops (get m)"
proof (induction ops arbitrary: m)
  case (Cons opn ops)
  then show ?case by (cases opn) (simp_all add: get_set get_del)
qed simp

lemma entries_size: "ok m \<Longrightarrow> length (entries m) = card (dom (get m))"
  by (metis dom_map_of_conv_image_fst distinct_card entries_distinct entries_get length_map set_map)

end

interpretation go_map: map_store gm_get gm_set gm_del "\<lambda>m. m" gm_wf
  by unfold_locales (auto simp: update_conv' delete_conv' gm_wf_def distinct_update distinct_delete)

section \<open>SafeMap\<close>

record ('k, 'v) SafeMap =
  deletionOld :: nat
  deletionNew :: nat
  dirtyOld :: "('k, 'v) gomap"
  dirtyNew :: "('k, 'v) gomap"

definition copyThreshold :: nat where
  "copyThreshold = 1000"

definition maxDeletion :: nat where
  "maxDeletion = 10000"

definition NewSafeMap :: "('k, 'v) SafeMap" where
  "NewSafeMap = \<lparr>deletionOld = 0, deletionNew = 0, dirtyOld = [], dirtyNew = []\<rparr>"

text \<open>\<open>maps.Copy(dst, src)\<close>.\<close>

definition maps_Copy :: "('k, 'v) gomap \<Rightarrow> ('k, 'v) gomap \<Rightarrow> ('k, 'v) gomap" where
  "maps_Copy dst src = fold (\<lambda>(k, v). gm_set k v) src dst"

definition SafeMap_Del :: "'k \<Rightarrow> ('k, 'v) SafeMap \<Rightarrow> ('k, 'v) SafeMap" where
  "SafeMap_Del key m =
     (let m = (if gm_get (dirtyOld m) key \<noteq> None
               then m\<lparr>dirtyOld := gm_del key (dirtyOld m), deletionOld := deletionOld m + 1\<rparr>
               else if gm_get (dirtyNew m) key \<noteq> None
               then m\<lparr>dirtyNew := gm_del key (dirtyNew m), deletionNew := deletionNew m + 1\<rparr>
               else m);
          m = (if deletionOld m \<ge> maxDeletion \<and> length (dirtyOld m) < copyThreshold
               then m\<lparr>dirtyOld := maps_Copy (dirtyNew m) (dirtyOld m), deletionOld := deletionNew m,
                      dirtyNew := [], deletionNew := 0\<rparr>
               else m)
      in if deletionNew m \<ge> maxDeletion \<and> length (dirtyNew m) < copyThreshold
         then m\<lparr>dirtyOld := maps_Copy (dirtyOld m) (dirtyNew m), dirtyNew := [], deletionNew := 0\<rparr>
         else m)"

definition SafeMap_Get :: "('k, 'v) SafeMap \<Rightarrow> 'k \<Rightarrow> 'v option" where
  "SafeMap_Get m key =
     (case gm_get (dirtyOld m) key of Some val \<Rightarrow> Some val | None \<Rightarrow> gm_get (dirtyNew m) key)"

text \<open>
  \<open>Range\<close> calls \<open>f\<close> on the entries until it answers false; what \<open>f\<close> does to its environment is
  the state \<open>'s\<close>.
\<close>

fun range_loop :: "('k \<Rightarrow> 'v \<Rightarrow> 's \<Rightarrow> bool \<times> 's) \<Rightarrow> ('k, 'v) gomap \<Rightarrow> 's \<Rightarrow> bool \<times> 's" where
  "range_loop f [] s = (True, s)"
| "range_loop f ((k, v) # m) s = (case f k v s of (True, s') \<Rightarrow> range_loop f m s' | (False, s') \<Rightarrow> (False, s'))"

definition SafeMap_Range :: "('k \<Rightarrow> 'v \<Rightarrow> 's \<Rightarrow> bool \<times> 's) \<Rightarrow> ('k, 'v) SafeMap \<Rightarrow> 's \<Rightarrow> 's" where
  "SafeMap_Range f m s =
     (case range_loop f (dirtyOld m) s of
        (False, s') \<Rightarrow> s'
      | (True, s') \<Rightarrow> snd (range_loop f (dirtyNew m) s'))"

definition SafeMap_Set :: "'k \<Rightarrow> 'v \<Rightarrow> ('k, 'v) SafeMap \<Rightarrow> ('k, 'v) SafeMap" where
  "SafeMap_Set key value m =
     (if deletionOld m \<le> maxDeletion
      then let m = (if gm_get (dirtyNew m) key \<noteq> None
                    then m\<lparr>dirtyNew := gm_del key (dirtyNew m), deletionNew := deletionNew m + 1\<rparr>
                    else m)
           in m\<lparr>dirtyOld := gm_set key value (dirtyOld m)\<rparr>
      else let m = (if gm_get (dirtyOld m) key \<noteq> None
                    then m\<lparr>dirtyOld := gm_del key (dirtyOld m), deletionOld := deletionOld m + 1\<rparr>
                    else m)
           in m\<lparr>dirtyNew := gm_set key value (dirtyNew m)\<rparr>)"

definition SafeMap_Size :: "('k, 'v) SafeMap \<Rightarrow> nat" where
  "SafeMap_Size m = length (dirtyOld m) + length (dirtyNew m)"

subsection \<open>The invariant: the two halves are maps with disjoint keys\<close>

definition safemap_ok :: "('k, 'v) SafeMap \<Rightarrow> bool" where
  "safemap_ok m \<longleftrightarrow> gm_wf (dirtyOld m) \<and> gm_wf (dirtyNew m) \<and>
     gm_keys (dirtyOld m) \<inter> gm_keys (dirtyNew m) = {}"

abbreviation safemap_entries :: "('k, 'v) SafeMap \<Rightarrow> ('k, 'v) gomap" where
  "safemap_entries m \<equiv> dirtyOld m @ dirtyNew m"

lemma maps_Copy_wf: "gm_wf d \<Longrightarrow> gm_wf (maps_Copy d s)"
  unfolding maps_Copy_def by (induction s arbitrary: d) auto

lemma maps_Copy_get: "gm_wf s \<Longrightarrow> gm_get (maps_Copy d s) = gm_get d ++ gm_get s"
proof (induction s arbitrary: d)
  case (Cons e s)
  obtain k v where e: "e = (k, v)" by (cases e)
  from Cons.prems e have "gm_wf s" and "gm_get s k = None"
    by (auto simp: gm_wf_def map_of_eq_None_iff)
  moreover from e have "maps_Copy d (e # s) = maps_Copy (gm_set k v d) s"
    by (simp add: maps_Copy_def)
  ultimately show ?case
    using Cons.IH [of "gm_set k v d"] e by (auto simp: update_conv' map_add_def fun_eq_iff split: option.splits)
qed (simp add: maps_Copy_def)

lemma gm_keys_dom: "gm_keys m = dom (gm_get m)"
  by (simp add: dom_map_of_conv_image_fst)

lemma safemap_ok_dom:
  "safemap_ok m \<longleftrightarrow> gm_wf (dirtyOld m) \<and> gm_wf (dirtyNew m) \<and>
     (\<forall>k. gm_get (dirtyOld m) k = None \<or> gm_get (dirtyNew m) k = None)"
  by (simp add: safemap_ok_def gm_keys_dom disjoint_iff domIff imp_conv_disj)

lemma safemap_get_add: "SafeMap_Get m = gm_get (dirtyNew m) ++ gm_get (dirtyOld m)"
  by (auto simp: SafeMap_Get_def map_add_def fun_eq_iff)

lemma safemap_ok_new [simp]: "safemap_ok NewSafeMap" "SafeMap_Get NewSafeMap = Map.empty"
  by (simp_all add: safemap_ok_def NewSafeMap_def SafeMap_Get_def fun_eq_iff)

lemma safemap_set_spec:
  assumes "safemap_ok m"
  shows "safemap_ok (SafeMap_Set k v m)" and "SafeMap_Get (SafeMap_Set k v m) = (SafeMap_Get m)(k \<mapsto> v)"
  using assms
  by (auto simp: safemap_ok_dom safemap_get_add SafeMap_Set_def gomap_simps map_add_def fun_eq_iff
        split: option.splits)

text \<open>The three steps of \<open>Del\<close>: the deletion itself, and the two compactions.\<close>

lemma safemap_remove_spec:
  assumes "safemap_ok m"
    and "m' = (if gm_get (dirtyOld m) k \<noteq> None
               then m\<lparr>dirtyOld := gm_del k (dirtyOld m), deletionOld := deletionOld m + 1\<rparr>
               else if gm_get (dirtyNew m) k \<noteq> None
               then m\<lparr>dirtyNew := gm_del k (dirtyNew m), deletionNew := deletionNew m + 1\<rparr>
               else m)"
  shows "safemap_ok m' \<and> SafeMap_Get m' = (SafeMap_Get m)(k := None)"
  using assms
  by (auto simp: safemap_ok_dom safemap_get_add gomap_simps map_add_def fun_eq_iff split: option.splits)
    (metis option.distinct(1))

lemma safemap_compact_old:
  assumes "safemap_ok m"
  shows "safemap_ok (m\<lparr>dirtyOld := maps_Copy (dirtyNew m) (dirtyOld m), deletionOld := a, dirtyNew := [], deletionNew := b\<rparr>) \<and>
    SafeMap_Get (m\<lparr>dirtyOld := maps_Copy (dirtyNew m) (dirtyOld m), deletionOld := a, dirtyNew := [], deletionNew := b\<rparr>) = SafeMap_Get m"
  using assms by (simp add: safemap_ok_dom safemap_get_add maps_Copy_wf maps_Copy_get)

lemma safemap_compact_new:
  assumes "safemap_ok m"
  shows "safemap_ok (m\<lparr>dirtyOld := maps_Copy (dirtyOld m) (dirtyNew m), dirtyNew := [], deletionNew := b\<rparr>) \<and>
    SafeMap_Get (m\<lparr>dirtyOld := maps_Copy (dirtyOld m) (dirtyNew m), dirtyNew := [], deletionNew := b\<rparr>) = SafeMap_Get m"
proof -
  from assms have "dom (gm_get (dirtyOld m)) \<inter> dom (gm_get (dirtyNew m)) = {}"
    by (auto simp: safemap_ok_def gm_keys_dom)
  then have "gm_get (dirtyOld m) ++ gm_get (dirtyNew m) = gm_get (dirtyNew m) ++ gm_get (dirtyOld m)"
    by (rule map_add_comm)
  with assms show ?thesis by (simp add: safemap_ok_dom safemap_get_add maps_Copy_wf maps_Copy_get)
qed

lemma safemap_del_spec:
  assumes "safemap_ok m"
  shows "safemap_ok (SafeMap_Del k m) \<and> SafeMap_Get (SafeMap_Del k m) = (SafeMap_Get m)(k := None)"
proof -
  define m1 where "m1 = (if gm_get (dirtyOld m) k \<noteq> None
               then m\<lparr>dirtyOld := gm_del k (dirtyOld m), deletionOld := deletionOld m + 1\<rparr>
               else if gm_get (dirtyNew m) k \<noteq> None
               then m\<lparr>dirtyNew := gm_del k (dirtyNew m), deletionNew := deletionNew m + 1\<rparr>
               else m)"
  define m2 where "m2 = (if deletionOld m1 \<ge> maxDeletion \<and> length (dirtyOld m1) < copyThreshold
               then m1\<lparr>dirtyOld := maps_Copy (dirtyNew m1) (dirtyOld m1), deletionOld := deletionNew m1,
                      dirtyNew := [], deletionNew := 0\<rparr>
               else m1)"
  have 1: "safemap_ok m1 \<and> SafeMap_Get m1 = (SafeMap_Get m)(k := None)"
    using assms m1_def by (rule safemap_remove_spec)
  then have 2: "safemap_ok m2 \<and> SafeMap_Get m2 = (SafeMap_Get m)(k := None)"
    using safemap_compact_old [of m1] by (simp add: m2_def)
  have "SafeMap_Del k m = (if deletionNew m2 \<ge> maxDeletion \<and> length (dirtyNew m2) < copyThreshold
         then m2\<lparr>dirtyOld := maps_Copy (dirtyOld m2) (dirtyNew m2), dirtyNew := [], deletionNew := 0\<rparr>
         else m2)"
    by (simp only: SafeMap_Del_def m1_def m2_def Let_def)
  with 2 show ?thesis using safemap_compact_new [of m2] by simp
qed

interpretation safe: map_store SafeMap_Get SafeMap_Set SafeMap_Del safemap_entries safemap_ok
proof unfold_locales
  fix m :: "('a, 'b) SafeMap" assume ok: "safemap_ok m"
  show "distinct (map fst (safemap_entries m))"
    using ok by (auto simp: safemap_ok_def gm_wf_def)
  show "map_of (safemap_entries m) = SafeMap_Get m"
  proof -
    from ok have "gm_get (dirtyOld m) ++ gm_get (dirtyNew m) = gm_get (dirtyNew m) ++ gm_get (dirtyOld m)"
      by (intro map_add_comm) (auto simp: safemap_ok_def gm_keys_dom)
    then show ?thesis by (simp add: safemap_get_add map_of_append)
  qed
qed (simp_all add: safemap_set_spec safemap_del_spec)

lemma range_loop_append:
  "range_loop f (xs @ ys) s = (case range_loop f xs s of (False, s') \<Rightarrow> (False, s') | (True, s') \<Rightarrow> range_loop f ys s')"
  by (induction f xs s rule: range_loop.induct) (auto split: prod.splits bool.splits)

lemma safemap_range_entries: "SafeMap_Range f m s = snd (range_loop f (safemap_entries m) s)"
  by (auto simp: SafeMap_Range_def range_loop_append split: prod.splits bool.splits)

section \<open>Set\<close>

type_synonym 'a Set = "('a, unit) gomap"

definition NewSet :: "'a Set" where
  "NewSet = []"

definition Set_Add :: "'a list \<Rightarrow> 'a Set \<Rightarrow> 'a Set" where
  "Set_Add items s = fold (\<lambda>item. gm_set item ()) items s"

definition Set_Clear :: "'a Set \<Rightarrow> 'a Set" where
  "Set_Clear s = []"

definition Set_Contains :: "'a \<Rightarrow> 'a Set \<Rightarrow> bool" where
  "Set_Contains item s \<longleftrightarrow> gm_get s item \<noteq> None"

definition Set_Count :: "'a Set \<Rightarrow> nat" where
  "Set_Count s = length s"

definition Set_Keys :: "'a Set \<Rightarrow> 'a list" where
  "Set_Keys s = map fst s"

definition Set_Remove :: "'a \<Rightarrow> 'a Set \<Rightarrow> 'a Set" where
  "Set_Remove item s = gm_del item s"

lemma set_add_spec: "gm_wf s \<Longrightarrow> gm_wf (Set_Add items s) \<and> gm_keys (Set_Add items s) = set items \<union> gm_keys s"
  unfolding Set_Add_def
proof (induction items arbitrary: s)
  case (Cons x items)
  from Cons.IH [of "gm_set x () s"] Cons.prems show ?case by (auto simp: dom_update)
qed simp

lemma set_keys_spec: "gm_wf s \<Longrightarrow> distinct (Set_Keys s) \<and> set (Set_Keys s) = {x. Set_Contains x s} \<and>
    Set_Count s = card {x. Set_Contains x s}"
proof -
  assume wf: "gm_wf s"
  have "{x. Set_Contains x s} = gm_keys s"
    by (auto simp: Set_Contains_def gm_keys_dom)
  with wf show ?thesis
    by (simp add: Set_Keys_def Set_Count_def gm_wf_def) (metis distinct_card length_map set_map)
qed

text \<open>
  A set built by \<open>Add\<close> of some items and \<open>Remove\<close> of one contains exactly the items added and
  not removed; \<open>Keys\<close> lists each of them once and \<open>Count\<close> is their number.
\<close>

lemma set_is_a_set:
  "let s = Set_Remove y (Set_Add xs NewSet) in
     (\<forall>x. Set_Contains x s = (x \<in> set xs - {y})) \<and> distinct (Set_Keys s) \<and>
     set (Set_Keys s) = set xs - {y} \<and> Set_Count s = card (set xs - {y})"
proof -
  let ?s = "Set_Remove y (Set_Add xs NewSet)"
  have add: "gm_wf (Set_Add xs NewSet)" "gm_keys (Set_Add xs NewSet) = set xs"
    using set_add_spec [of NewSet xs] by (simp_all add: NewSet_def)
  then have wf: "gm_wf ?s" and mem: "\<And>x. Set_Contains x ?s = (x \<in> set xs - {y})"
    by (auto simp: Set_Remove_def Set_Contains_def gomap_simps gm_keys_dom)
  then have "{x. Set_Contains x ?s} = set xs - {y}" by auto
  with set_keys_spec [OF wf] mem show ?thesis by (simp add: Let_def)
qed

section \<open>Properties\<close>

text \<open>
  C29: Whatever sequence of \<open>Set\<close> and \<open>Del\<close> calls is made on a new \<open>SafeMap\<close>, moving entries between
  its two halves and compacting them included, \<open>Get\<close> answers what the finite function obtained from
  the same updates answers, \<open>Size\<close> is the number of keys of that function, and \<open>Range\<close> calls its
  argument on each entry of that function exactly once, stopping at the first false answer.
\<close>

theorem safemap_is_a_map:
  "let m = run_map SafeMap_Set SafeMap_Del ops NewSafeMap; f = run_fun ops Map.empty in
     SafeMap_Get m = f \<and> SafeMap_Size m = card (dom f) \<and>
     (\<exists>es. map_of es = f \<and> distinct (map fst es) \<and> (\<forall>g s. SafeMap_Range g m s = snd (range_loop g es s)))"
proof -
  let ?m = "run_map SafeMap_Set SafeMap_Del ops NewSafeMap"
  have ok: "safemap_ok ?m" by (rule safe.run_ok) simp
  have get: "SafeMap_Get ?m = run_fun ops Map.empty" by (simp add: safe.run_get)
  show ?thesis
    using safe.entries_size [OF ok] safe.entries_get [OF ok] safe.entries_distinct [OF ok] get
    unfolding Let_def
    by (intro conjI exI [of _ "safemap_entries ?m"]) (simp_all add: SafeMap_Size_def safemap_range_entries)
qed

end
