(* ===== verification/Memory_Store.thy ===== *)
theory Memory_Store
  imports Go_Prelude
begin

text \<open>
  \<open>src/infra/stores/memory/memory.go\<close>: an in-memory key/value store whose entries may expire.

  Every operation holds the mutex for its whole duration, and so does each collection the background
  goroutine \<open>gcLoop\<close> performs, so an execution is a sequence of atomic operations with their clock
  readings.  The specification is a store that keeps everything and compares the clock with the
  deadline at each read; collection and the removal of expired entries by \<open>Get\<close> are shown to be
  unobservable.
\<close>

section \<open>The store\<close>

text \<open>A Go \<open>any\<close> is an optional value: \<^const>\<open>None\<close> is \<open>nil\<close>.\<close>

record 'v Item =
  Value :: "'v option"
  Expiry :: int

record 'v Memory =
  items :: "(string, 'v Item) gomap"
  gcTick :: int

definition Memory_New :: "int \<Rightarrow> 'v Memory" where
  "Memory_New cleanupInterval =
     (let interval = (if cleanupInterval \<le> 0 then 5 * 60 * 1000000000 else cleanupInterval)
      in \<lparr>items = [], gcTick = interval\<rparr>)"

definition Memory_Get :: "int \<Rightarrow> string \<Rightarrow> 'v Memory \<Rightarrow> 'v option \<times> 'v Memory" where
  "Memory_Get now key m =
     (case gm_get (items m) key of
        None \<Rightarrow> (None, m)
      | Some it \<Rightarrow>
          if Expiry it > 0 \<and> now \<ge> Expiry it
          then (None, m\<lparr>items := gm_del key (items m)\<rparr>)
          else (Value it, m))"

definition Memory_Set :: "int \<Rightarrow> string \<Rightarrow> 'v option \<Rightarrow> int \<Rightarrow> 'v Memory \<Rightarrow> 'v Memory" where
  "Memory_Set now key value ttl m =
     (let expiry = (if ttl > 0 then now + ttl else 0)
      in m\<lparr>items := gm_set key \<lparr>Value = value, Expiry = expiry\<rparr> (items m)\<rparr>)"

definition Memory_Delete :: "string \<Rightarrow> 'v Memory \<Rightarrow> 'v Memory" where
  "Memory_Delete key m = m\<lparr>items := gm_del key (items m)\<rparr>"

definition Memory_Len :: "'v Memory \<Rightarrow> nat" where
  "Memory_Len m = length (items m)"

text \<open>Go allows deleting from a map while ranging over it; each expired key is removed once.\<close>

definition Memory_gc :: "int \<Rightarrow> 'v Memory \<Rightarrow> 'v Memory" where
  "Memory_gc now m =
     m\<lparr>items := fold (\<lambda>(k, v) its. if Expiry v > 0 \<and> now \<ge> Expiry v then gm_del k its else its)
                   (items m) (items m)\<rparr>"

section \<open>Executions\<close>

datatype 'v mem_op =
    MSet string "'v option" int
  | MGet string
  | MDelete string
  | MGc

fun run_memory :: "(int \<times> 'v mem_op) list \<Rightarrow> 'v Memory \<Rightarrow> 'v option list \<times> 'v Memory" where
  "run_memory [] m = ([], m)"
| "run_memory ((now, MSet k v ttl) # tr) m = run_memory tr (Memory_Set now k v ttl m)"
| "run_memory ((now, MGet k) # tr) m =
     (let (r, m1) = Memory_Get now k m; (rs, m2) = run_memory tr m1 in (r # rs, m2))"
| "run_memory ((now, MDelete k) # tr) m = run_memory tr (Memory_Delete k m)"
| "run_memory ((now, MGc) # tr) m = run_memory tr (Memory_gc now m)"

text \<open>
  The specification: for every key the last value written and its deadline, if any.
\<close>

type_synonym 'v ttl_spec = "string \<rightharpoonup> 'v option \<times> int option"

definition live :: "int \<Rightarrow> int option \<Rightarrow> bool" where
  "live now d = (case d of None \<Rightarrow> True | Some e \<Rightarrow> now < e)"

definition spec_get :: "int \<Rightarrow> 'v ttl_spec \<Rightarrow> string \<Rightarrow> 'v option" where
  "spec_get now f k = (case f k of Some (v, d) \<Rightarrow> if live now d then v else None | None \<Rightarrow> None)"

fun run_spec :: "(int \<times> 'v mem_op) list \<Rightarrow> 'v ttl_spec \<Rightarrow> 'v option list \<times> 'v ttl_spec" where
  "run_spec [] f = ([], f)"
| "run_spec ((now, MSet k v ttl) # tr) f =
     run_spec tr (f(k \<mapsto> (v, if ttl > 0 then Some (now + ttl) else None)))"
| "run_spec ((now, MGet k) # tr) f = (let (rs, g) = run_spec tr f in (spec_get now f k # rs, g))"
| "run_spec ((now, MDelete k) # tr) f = run_spec tr (f(k := None))"
| "run_spec ((now, MGc) # tr) f = run_spec tr f"

section \<open>Simulation\<close>

definition deadline :: "'v Item \<Rightarrow> int option" where
  "deadline it = (if Expiry it > 0 then Some (Expiry it) else None)"

lemma live_deadline: "live now (deadline it) \<longleftrightarrow> \<not> (Expiry it > 0 \<and> now \<ge> Expiry it)"
  by (auto simp: live_def deadline_def)

lemma live_mono: "\<not> live t d \<Longrightarrow> t \<le> t' \<Longrightarrow> \<not> live t' d"
  by (auto simp: live_def split: option.splits)

text \<open>
  At time \<open>t\<close> the store holds exactly what the specification holds, except for entries that are
  already expired.
\<close>

fun agree :: "int \<Rightarrow> 'v Item option \<Rightarrow> ('v option \<times> int option) option \<Rightarrow> bool" where
  "agree t (Some it) x \<longleftrightarrow> x = Some (Value it, deadline it)"
| "agree t None None \<longleftrightarrow> True"
| "agree t None (Some (v, d)) \<longleftrightarrow> \<not> live t d"

definition sim :: "int \<Rightarrow> 'v Memory \<Rightarrow> 'v ttl_spec \<Rightarrow> bool" where
  "sim t m f \<longleftrightarrow> gm_wf (items m) \<and> (\<forall>k. agree t (gm_get (items m) k) (f k))"

lemma agree_later: "agree t i x \<Longrightarrow> t \<le> t' \<Longrightarrow> agree t' i x"
  by (induction t i x rule: agree.induct) (auto dest: live_mono)

lemma agree_drop_expired: "agree t (Some it) x \<Longrightarrow> \<not> live t (deadline it) \<Longrightarrow> agree t None x"
  by auto

lemma memory_gc_items:
  "gm_wf (items m) \<Longrightarrow> items (Memory_gc now m) = filter (\<lambda>(k, v). live now (deadline v)) (items m)"
  by (simp add: Memory_gc_def gm_delete_loop live_deadline)

lemma sim_later: "sim t m f \<Longrightarrow> t \<le> t' \<Longrightarrow> sim t' m f"
  by (auto simp: sim_def intro: agree_later)

lemma sim_gc:
  assumes "sim t m f"
  shows "sim t (Memory_gc t m) f"
proof -
  from assms have wf: "gm_wf (items m)" and k: "\<And>k. agree t (gm_get (items m) k) (f k)"
    by (auto simp: sim_def)
  have "agree t (gm_get (filter (\<lambda>(k, v). live t (deadline v)) (items m)) k) (f k)" for k
    using k [of k] by (auto simp: gm_get_filter [OF wf] split: option.split)
  with wf show ?thesis by (simp add: sim_def memory_gc_items)
qed

lemma sim_set: "sim t m f \<Longrightarrow> 0 < t \<Longrightarrow>
    sim t (Memory_Set t k v ttl m) (f(k \<mapsto> (v, if ttl > 0 then Some (t + ttl) else None)))"
  by (auto simp: sim_def Memory_Set_def gm_get_set deadline_def)

lemma sim_delete: "sim t m f \<Longrightarrow> sim t (Memory_Delete k m) (f(k := None))"
  by (auto simp: sim_def Memory_Delete_def gm_get_del)

lemma sim_get:
  assumes "sim t m f"
  shows "fst (Memory_Get t k m) = spec_get t f k" and "sim t (snd (Memory_Get t k m)) f"
proof -
  from assms have wf: "gm_wf (items m)" and k: "\<And>k. agree t (gm_get (items m) k) (f k)"
    by (auto simp: sim_def)
  show "fst (Memory_Get t k m) = spec_get t f k"
    using k [of k] by (cases "gm_get (items m) k"; cases "f k")
      (auto simp: Memory_Get_def spec_get_def live_deadline)
  show "sim t (snd (Memory_Get t k m)) f"
  proof (cases "gm_get (items m) k")
    case (Some it)
    then have "agree t None (f k)" if "\<not> live t (deadline it)"
      using that agree_drop_expired [of t it "f k"] k [of k] by simp
    with Some wf k show ?thesis
      by (auto simp: Memory_Get_def sim_def gm_get_del live_deadline)
  qed (use assms in \<open>simp add: Memory_Get_def\<close>)
qed

lemma run_sim:
  "sim t m f \<Longrightarrow> sorted (t # map fst tr) \<Longrightarrow> 0 < t \<Longrightarrow> fst (run_memory tr m) = fst (run_spec tr f)"
proof (induction tr arbitrary: t m f)
  case (Cons e tr)
  obtain now opn where e: "e = (now, opn)" by (cases e)
  from Cons.prems e have s: "sim now m f" and later: "sorted (now # map fst tr)" "0 < now"
    by (auto intro: sim_later)
  note IH = Cons.IH [OF _ later]
  show ?case
  proof (cases opn)
    case (MSet k v ttl)
    from IH [OF sim_set [OF s later(2)]] show ?thesis
      by (simp only: e MSet run_memory.simps run_spec.simps)
  next
    case (MGet k)
    from IH [OF sim_get(2) [OF s, of k]] sim_get(1) [OF s, of k] show ?thesis
      by (simp add: e MGet case_prod_beta Let_def)
  next
    case (MDelete k)
    from IH [OF sim_delete [OF s]] show ?thesis
      by (simp only: e MDelete run_memory.simps run_spec.simps)
  next
    case MGc
    from IH [OF sim_gc [OF s]] show ?thesis by (simp add: e MGc)
  qed
qed simp

section \<open>Properties\<close>

text \<open>
  C15: For every interleaving of \<open>Set\<close>, \<open>Get\<close>, \<open>Delete\<close> and background collections whose clock
  readings are positive and do not go back, each \<open>Get\<close> on a new store answers the last value written
  to its key, unless the key was deleted since or its time to live has run out: neither collection
  nor the lazy removal by \<open>Get\<close> is ever observable.
\<close>

theorem memory_store_expiry:
  assumes "sorted (1 # map fst tr)"
  shows "fst (run_memory tr (Memory_New interval)) = fst (run_spec tr Map.empty)"
  using run_sim [of 1 "Memory_New interval" Map.empty tr] assms
  by (simp add: sim_def Memory_New_def)

theorem memory_store_expiry_witness:
  "fst (run_memory [(5, MSet ''k'' (Some (7::nat)) 10), (9, MGet ''k''), (15, MGc), (15, MGet ''k''),
       (16, MSet ''k'' (Some 8) 0), (99, MGc), (99, MGet ''k'')] (Memory_New 0)) = [Some 7, None, Some 8]"
  using memory_store_expiry [of "[(5, MSet ''k'' (Some (7::nat)) 10), (9, MGet ''k''), (15, MGc), (15, MGet ''k''),
       (16, MSet ''k'' (Some 8) 0), (99, MGc), (99, MGet ''k'')]" 0]
  by (simp add: spec_get_def live_def)

text \<open>
  A collection at time \<open>now\<close> leaves exactly the entries that a read at that time would find: after it,
  \<open>Len\<close> is the number of keys whose entry has not expired.
\<close>

theorem memory_gc_frees_expired:
  assumes "gm_wf (items m)"
  shows "Memory_Len (Memory_gc now m) =
    card {k. \<exists>it. gm_get (items m) k = Some it \<and> (Expiry it \<le> 0 \<or> now < Expiry it)}"
proof -
  let ?xs = "filter (\<lambda>(k, v). live now (deadline v)) (items m)"
  have "distinct (map fst ?xs)" using gm_wf_filter [OF assms] by (simp add: gm_wf_def)
  then have "length ?xs = card (fst ` set ?xs)" by (metis distinct_card length_map set_map)
  also have "fst ` set ?xs = {k. \<exists>it. gm_get (items m) k = Some it \<and> (Expiry it \<le> 0 \<or> now < Expiry it)}"
    using assms by (force simp: gm_get_eq_iff live_deadline image_iff)
  finally show ?thesis using assms by (simp add: Memory_Len_def memory_gc_items)
qed

theorem memory_gc_frees_expired_witness:
  "Memory_Len (Memory_gc 20 \<lparr>items = [(''a'', \<lparr>Value = Some (1::nat), Expiry = 20\<rparr>), (''b'', \<lparr>Value = None, Expiry = 0\<rparr>)], gcTick = 1\<rparr>) =
     card {''b''}"
proof -
  let ?m = "\<lparr>items = [(''a'', \<lparr>Value = Some (1::nat), Expiry = 20\<rparr>), (''b'', \<lparr>Value = None, Expiry = 0\<rparr>)], gcTick = 1\<rparr>"
  have "{k. \<exists>it. gm_get (items ?m) k = Some it \<and> (Expiry it \<le> 0 \<or> 20 < Expiry it)} = {''b''}" by auto
  then show ?thesis using memory_gc_frees_expired [of ?m 20] by (simp add: gm_wf_def)
qed

end
