(* ===== verification/Circuit_Breaker.thy ===== *)
theory Circuit_Breaker
  imports Google_Breaker
begin

text \<open>
  \<open>src/infra/breaker/breaker.go\<close>, \<open>breakers.go\<close> and \<open>nopbreaker.go\<close>, and the middleware
  \<open>src/server/middleware/breaker.go\<close>: the circuit breaker with its window of recent error texts, the
  registry of breakers by name, and the handler that guards a route with the breaker of its name.
\<close>

section \<open>The error window\<close>

definition numHistoryReasons :: nat where
  "numHistoryReasons = 5"

record errorWindow =
  reasons :: "string list"
  ew_index :: nat
  ew_count :: nat

definition new_errorWindow :: errorWindow where
  "new_errorWindow = \<lparr>reasons = replicate numHistoryReasons '''', ew_index = 0, ew_count = 0\<rparr>"

text \<open>\<open>stamp\<close> is the time of day as \<open>time.Now().Format(time.TimeOnly)\<close> prints it.\<close>

definition errorWindow_add :: "string \<Rightarrow> string \<Rightarrow> errorWindow \<Rightarrow> errorWindow" where
  "errorWindow_add stamp reason ew =
     \<lparr>reasons = (reasons ew)[ew_index ew := stamp @ '' '' @ reason],
      ew_index = (ew_index ew + 1) mod numHistoryReasons,
      ew_count = min (ew_count ew + 1) numHistoryReasons\<rparr>"

text \<open>The loop runs from \<open>index - 1\<close> down to \<open>index - count\<close>; the indices may be negative.\<close>

definition errorWindow_reasons :: "errorWindow \<Rightarrow> string list" where
  "errorWindow_reasons ew =
     map (\<lambda>i. reasons ew ! nat (go_rem (i + int numHistoryReasons) (int numHistoryReasons)))
       (rev [int (ew_index ew) - int (ew_count ew) .. int (ew_index ew) - 1])"

definition errorWindow_String :: "errorWindow \<Rightarrow> string" where
  "errorWindow_String ew = Join (errorWindow_reasons ew) ''\<newline>''"

section \<open>The logged throttle and the circuit breaker\<close>

text \<open>
  \<open>cb_reports\<close> collects the texts handed to \<open>stat.Report\<close> (the part of the text after the process
  information).  How an error prints, whether it wraps \<open>ErrServiceUnavailable\<close>, and the time of day are
  parameters.
\<close>

record circuitBreaker =
  cb_name :: string
  gb :: googleBreaker
  errWin :: errorWindow
  cb_reports :: "string list"

record 'e errors =
  err_text :: "'e breaker_err \<Rightarrow> string"
  wraps_unavailable :: "'e \<Rightarrow> bool"

definition errors_Is_unavailable :: "'e errors \<Rightarrow> 'e breaker_err option \<Rightarrow> bool" where
  "errors_Is_unavailable E err =
     (case err of
        None \<Rightarrow> False
      | Some ErrServiceUnavailable \<Rightarrow> True
      | Some (ReqErr e) \<Rightarrow> wraps_unavailable E e)"


definition logError :: "'e errors \<Rightarrow> 'e breaker_err option \<Rightarrow> circuitBreaker \<Rightarrow> circuitBreaker" where
  "logError E err cb =
     (if errors_Is_unavailable E err
      then cb\<lparr>cb_reports := cb_reports cb @ [errorWindow_String (errWin cb)]\<rparr>
      else cb)"

text \<open>
  \<open>loggedThrottle.doReq\<close>: the wrapped \<open>acceptable\<close> records the text of every error that is not
  accepted.  A panic of the request skips \<open>logError\<close>.
\<close>

definition lt_doReq ::
  "'e errors \<Rightarrow> string \<Rightarrow> reads \<Rightarrow> ('s \<Rightarrow> 'e outcome \<times> 's) \<Rightarrow> ('e breaker_err \<Rightarrow> 's \<Rightarrow> 'e outcome \<times> 's) option \<Rightarrow>
   ('e breaker_err option \<Rightarrow> 's \<Rightarrow> bool) \<Rightarrow> circuitBreaker \<Rightarrow> 's \<Rightarrow> panic + ('e outcome \<times> circuitBreaker \<times> 's)" where
  "lt_doReq E stamp rd req fallback acceptable cb s =
     (case gb_doReq rd
             (\<lambda>(s, ew). case req s of (r, s) \<Rightarrow> (r, s, ew))
             (map_option (\<lambda>f err (s, ew). case f err s of (r, s) \<Rightarrow> (r, s, ew)) fallback)
             (\<lambda>err (s, ew).
                let accept = acceptable err s
                in (accept, s, case err of
                                 Some e \<Rightarrow> if \<not> accept then errorWindow_add stamp (err_text E e) ew else ew
                               | None \<Rightarrow> ew))
             (gb cb) (s, errWin cb) of
        Inl e \<Rightarrow> Inl e
      | Inr (r, g, s, ew) \<Rightarrow>
          let cb = cb\<lparr>gb := g, errWin := ew\<rparr>
          in Inr (r, case r of Returned err \<Rightarrow> logError E err cb | Panicked \<Rightarrow> cb, s))"

definition lt_allow :: "'e errors \<Rightarrow> reads \<Rightarrow> circuitBreaker \<Rightarrow> panic + (bool \<times> circuitBreaker)" where
  "lt_allow E rd cb =
     (case gb_allow rd (gb cb) of
        Inl e \<Rightarrow> Inl e
      | Inr (ok, g) \<Rightarrow>
          let cb = cb\<lparr>gb := g\<rparr>
          in Inr (ok, logError E (if ok then None else Some ErrServiceUnavailable) cb))"

definition promise_Accept :: "int \<Rightarrow> int \<Rightarrow> circuitBreaker \<Rightarrow> panic + circuitBreaker" where
  "promise_Accept t1 t2 cb = (case markSuccess t1 t2 (gb cb) of Inl e \<Rightarrow> Inl e | Inr g \<Rightarrow> Inr (cb\<lparr>gb := g\<rparr>))"

definition promise_Reject :: "string \<Rightarrow> string \<Rightarrow> int \<Rightarrow> int \<Rightarrow> circuitBreaker \<Rightarrow> panic + circuitBreaker" where
  "promise_Reject stamp reason t1 t2 cb =
     (let cb = cb\<lparr>errWin := errorWindow_add stamp reason (errWin cb)\<rparr>
      in case markFailure t1 t2 (gb cb) of Inl e \<Rightarrow> Inl e | Inr g \<Rightarrow> Inr (cb\<lparr>gb := g\<rparr>))"

definition defaultAcceptable :: "'e breaker_err option \<Rightarrow> bool" where
  "defaultAcceptable err \<longleftrightarrow> err = None"

text \<open>
  The methods of a breaker.  A context that is done is \<^term>\<open>Some err\<close>, its error; the \<open>Ctx\<close> variants then
  return that error without touching the breaker.
\<close>

definition DoWithFallbackAcceptable where
  "DoWithFallbackAcceptable E stamp rd req fallback acceptable cb s =
     lt_doReq E stamp rd req (Some fallback) acceptable cb s"

definition DoWithFallback where
  "DoWithFallback E stamp rd req fallback cb s =
     lt_doReq E stamp rd req (Some fallback) (\<lambda>err s. defaultAcceptable err) cb s"

definition DoWithAcceptable where
  "DoWithAcceptable E stamp rd req acceptable cb s = lt_doReq E stamp rd req None acceptable cb s"

definition Do where
  "Do E stamp rd req cb s = lt_doReq E stamp rd req None (\<lambda>err s. defaultAcceptable err) cb s"

definition unless_done ::
  "'e option \<Rightarrow> (circuitBreaker \<Rightarrow> 's \<Rightarrow> panic + ('e outcome \<times> circuitBreaker \<times> 's)) \<Rightarrow>
   circuitBreaker \<Rightarrow> 's \<Rightarrow> panic + ('e outcome \<times> circuitBreaker \<times> 's)" where
  "unless_done ctx act cb s =
     (case ctx of Some e \<Rightarrow> Inr (Returned (Some (ReqErr e)), cb, s) | None \<Rightarrow> act cb s)"

definition DoCtx where
  "DoCtx ctx E stamp rd req = unless_done ctx (Do E stamp rd req)"

definition DoWithAcceptableCtx where
  "DoWithAcceptableCtx ctx E stamp rd req acceptable = unless_done ctx (DoWithAcceptable E stamp rd req acceptable)"

definition DoWithFallbackCtx where
  "DoWithFallbackCtx ctx E stamp rd req fallback = unless_done ctx (DoWithFallback E stamp rd req fallback)"

definition DoWithFallbackAcceptableCtx where
  "DoWithFallbackAcceptableCtx ctx E stamp rd req fallback acceptable =
     unless_done ctx (DoWithFallbackAcceptable E stamp rd req fallback acceptable)"

section \<open>The registry\<close>

datatype Breaker = Circuit circuitBreaker | NopBreaker

type_synonym registry = "(string, Breaker) gomap"


definition NoBreakerFor :: "string \<Rightarrow> registry \<Rightarrow> registry" where
  "NoBreakerFor name reg = gm_set name NopBreaker reg"



section \<open>The middleware\<close>







section \<open>The error window holds the most recent errors\<close>

definition ew_holds :: "string list \<Rightarrow> errorWindow \<Rightarrow> bool" where
  "ew_holds xs ew \<longleftrightarrow>
     length (reasons ew) = numHistoryReasons \<and> ew_index ew = length xs mod numHistoryReasons \<and>
     ew_count ew = min (length xs) numHistoryReasons \<and>
     (\<forall>i<length xs. length xs \<le> i + numHistoryReasons \<longrightarrow> reasons ew ! (i mod numHistoryReasons) = xs ! i)"

lemma ew_holds_new: "ew_holds [] new_errorWindow"
  by (simp add: ew_holds_def new_errorWindow_def)

lemma ew_holds_add:
  assumes h: "ew_holds xs ew"
  shows "ew_holds (xs @ [stamp @ '' '' @ reason]) (errorWindow_add stamp reason ew)"
proof -
  let ?l = "length xs" and ?n = numHistoryReasons and ?x = "stamp @ '' '' @ reason"
  have n: "0 < ?n" by (simp add: numHistoryReasons_def)
  from h have len: "length (reasons ew) = ?n" and idx: "ew_index ew = ?l mod ?n" by (auto simp: ew_holds_def)
  have "(reasons ew)[?l mod ?n := ?x] ! (i mod ?n) = (xs @ [?x]) ! i" if "i < Suc ?l" "Suc ?l \<le> i + ?n" for i
  proof (cases "i = ?l")
    case True
    then show ?thesis using n len by simp
  next
    case False
    with that have i: "i < ?l" "?l < i + ?n" by auto
    with h mod_neq_within [OF i] show ?thesis by (simp add: nth_append ew_holds_def)
  qed
  then show ?thesis
    using h idx len by (auto simp: ew_holds_def errorWindow_add_def mod_Suc_eq)
qed

lemma ew_holds_reasons:
  assumes h: "ew_holds xs ew"
  shows "errorWindow_reasons ew = rev (take_last numHistoryReasons xs)"
proof (rule nth_equalityI)
  let ?l = "length xs" and ?n = numHistoryReasons
  from h have idx: "ew_index ew = ?l mod ?n" and cnt: "ew_count ew = min ?l ?n"
    and held: "\<And>i. i < ?l \<Longrightarrow> ?l \<le> i + ?n \<Longrightarrow> reasons ew ! (i mod ?n) = xs ! i" by (auto simp: ew_holds_def)
  show len: "length (errorWindow_reasons ew) = length (rev (take_last ?n xs))"
    by (simp add: errorWindow_reasons_def cnt take_last_def)
  fix p assume "p < length (errorWindow_reasons ew)"
  then have p: "p < min ?l ?n" by (simp add: errorWindow_reasons_def cnt)
  define q where "q = ?l - 1 - p"
  have q: "q < ?l" "?l \<le> q + ?n" "int q = int ?l - 1 - int p" using p by (auto simp: q_def)
  have "errorWindow_reasons ew ! p = reasons ew ! nat (go_rem (int (ew_index ew) - 1 - int p + int ?n) (int ?n))"
    using p by (simp add: errorWindow_reasons_def rev_nth cnt algebra_simps)
  also have "go_rem (int (ew_index ew) - 1 - int p + int ?n) (int ?n) = (int (?l mod ?n) - 1 - int p + int ?n) mod int ?n"
    using p by (subst go_rem_nonneg) (auto simp: idx)
  also have "\<dots> = (int ?l - 1 - int p) mod int ?n"
    by (simp add: zmod_int diff_diff_eq mod_diff_left_eq)
  also have "nat \<dots> = q mod ?n" by (simp add: q(3) [symmetric] flip: zmod_int)
  finally have "errorWindow_reasons ew ! p = xs ! q" using held [OF q(1,2)] by simp
  also have "\<dots> = rev (take_last ?n xs) ! p"
    using p by (auto simp: take_last_def rev_nth q_def)
  finally show "errorWindow_reasons ew ! p = rev (take_last ?n xs) ! p" .
qed

lemma ew_holds_fold:
  "ew_holds ys ew \<Longrightarrow> ew_holds (ys @ map (\<lambda>(st, r). st @ '' '' @ r) xs) (fold (\<lambda>(st, r). errorWindow_add st r) xs ew)"
proof (induction xs arbitrary: ys ew)
  case (Cons x xs)
  obtain st r where x: "x = (st, r)" by (cases x)
  from Cons.IH [OF ew_holds_add [OF Cons.prems, of st r]] show ?case by (simp add: x)
qed simp

section \<open>Properties\<close>

text \<open>
  The report of an open breaker lists the last five recorded errors (or all of them, when fewer), most recent
  first, each with the time it was recorded, one to a line.
\<close>

theorem error_window_most_recent:
  "errorWindow_String (fold (\<lambda>(stamp, reason). errorWindow_add stamp reason) xs new_errorWindow) =
     Join (rev (take_last 5 (map (\<lambda>(stamp, reason). stamp @ '' '' @ reason) xs))) ''\<newline>''"
  using ew_holds_reasons [OF ew_holds_fold [OF ew_holds_new, of xs]]
  by (simp add: errorWindow_String_def numHistoryReasons_def)






end
