(* ===== verification/Go_Time.thy ===== *)
theory Go_Time
  imports Go_Strings
begin

text \<open>
  \<open>time.ParseDuration\<close> of the Go standard library, and \<open>parseDurationDef\<close> of
  \<open>src/runtime/service.go\<close>, through which every duration of the configuration goes.  Durations are
  in nanoseconds.  The fraction of a number is a rational here and a \<open>float64\<close> in Go.
\<close>

text \<open>\<open>leadingInt\<close>: \<^const>\<open>None\<close> on overflow.\<close>

fun leadingInt :: "int \<Rightarrow> string \<Rightarrow> (int \<times> string) option" where
  "leadingInt x [] = Some (x, [])"
| "leadingInt x (c # s) =
     (if \<not> is_digit c then Some (x, c # s)
      else if x > 2 ^ 63 div 10 then None
      else let x = x * 10 + digit_val c in if x > 2 ^ 63 then None else leadingInt x s)"

text \<open>\<open>leadingFraction\<close>: digits that would overflow are dropped.\<close>

fun leadingFraction :: "int \<Rightarrow> rat \<Rightarrow> bool \<Rightarrow> string \<Rightarrow> int \<times> rat \<times> string" where
  "leadingFraction x scale ovf [] = (x, scale, [])"
| "leadingFraction x scale ovf (c # s) =
     (if \<not> is_digit c then (x, scale, c # s)
      else if ovf then leadingFraction x scale ovf s
      else if x > (2 ^ 63 - 1) div 10 then leadingFraction x scale True s
      else let y = x * 10 + digit_val c
           in if y > 2 ^ 63 then leadingFraction x scale True s else leadingFraction y (scale * 10) False s)"

definition unitMap :: "(string, int) gomap" where
  "unitMap = [(''ns'', 1), (''us'', 1000), ([char_of (194 :: nat), char_of (181 :: nat), CHR ''s''], 1000),
     ([char_of (206 :: nat), char_of (188 :: nat), CHR ''s''], 1000), (''ms'', 1000000), (''s'', 1000000000),
     (''m'', 60000000000), (''h'', 3600000000000)]"

definition not_unit :: "char \<Rightarrow> bool" where
  "not_unit c \<longleftrightarrow> c = CHR ''.'' \<or> is_digit c"

text \<open>The optional fraction: its digits, scale, whether it has digits, and the rest of the text.\<close>

definition parse_fraction :: "string \<Rightarrow> int \<times> rat \<times> bool \<times> string" where
  "parse_fraction s =
     (if s \<noteq> [] \<and> hd s = CHR ''.''
      then case leadingFraction 0 1 False (tl s) of
             (f, scale, s') \<Rightarrow> (f, scale, length (tl s) \<noteq> length s', s')
      else (0, 1, False, s))"

definition apply_unit :: "int \<Rightarrow> int \<Rightarrow> rat \<Rightarrow> string \<Rightarrow> int option" where
  "apply_unit v f scale u =
     (case gm_get unitMap u of
        None \<Rightarrow> None
      | Some unit_ns \<Rightarrow>
          if v > 2 ^ 63 div unit_ns then None
          else let v = v * unit_ns;
                   v = (if f > 0 then v + \<lfloor>of_int f * (of_int unit_ns / scale)\<rfloor> else v)
               in if v > 2 ^ 63 then None else Some v)"

text \<open>One number with its unit: its nanoseconds and the rest of the text, or an error.\<close>

definition parse_component :: "string \<Rightarrow> (int \<times> string) option" where
  "parse_component s =
     (if s = [] \<or> \<not> not_unit (hd s) then None
      else case leadingInt 0 s of
        None \<Rightarrow> None
      | Some (v, s1) \<Rightarrow>
          (case parse_fraction s1 of
             (f, scale, post, s2) \<Rightarrow>
               let u = takeWhile (\<lambda>c. \<not> not_unit c) s2
               in if length s = length s1 \<and> \<not> post then None
                  else if u = [] then None
                  else case apply_unit v f scale u of
                    None \<Rightarrow> None
                  | Some v \<Rightarrow> Some (v, dropWhile (\<lambda>c. \<not> not_unit c) s2)))"

lemma leadingInt_length: "leadingInt x s = Some (v, s') \<Longrightarrow> length s' \<le> length s"
  by (induction x s rule: leadingInt.induct) (auto simp: Let_def split: if_splits)

lemma leadingFraction_length: "length (snd (snd (leadingFraction x sc ov s))) \<le> length s"
  by (induction s arbitrary: x sc ov) (auto simp: Let_def intro: le_SucI)

lemma parse_fraction_length: "length (snd (snd (snd (parse_fraction s)))) \<le> length s"
  using order_trans [OF leadingFraction_length [of 0 1 False "tl s"]]
  by (simp add: parse_fraction_def case_prod_beta)

lemma dropWhile_length: "takeWhile P s \<noteq> [] \<Longrightarrow> length (dropWhile P s) < length s"
  by (cases s) (auto simp: less_Suc_eq_le length_dropWhile_le split: if_splits)

lemma parse_component_length:
  assumes "parse_component s = Some (v, s')"
  shows "length s' < length s"
proof -
  from assms obtain v1 s1 where 1: "leadingInt 0 s = Some (v1, s1)"
    by (auto simp: parse_component_def split: if_splits option.splits)
  obtain f scale post s2 where 2: "parse_fraction s1 = (f, scale, post, s2)" by (cases "parse_fraction s1")
  from assms 1 2 have "takeWhile (\<lambda>c. \<not> not_unit c) s2 \<noteq> []" "s' = dropWhile (\<lambda>c. \<not> not_unit c) s2"
    by (auto simp: parse_component_def Let_def split: if_splits option.splits)
  with dropWhile_length leadingInt_length [OF 1] parse_fraction_length [of s1] 2 show ?thesis
    by (metis le_less_trans less_le_trans snd_conv)
qed

function parse_components :: "int \<Rightarrow> string \<Rightarrow> int option" where
  "parse_components d s =
     (if s = [] then Some d
      else case parse_component s of
        None \<Rightarrow> None
      | Some (v, s') \<Rightarrow> if d + v > 2 ^ 63 then None else parse_components (d + v) s')"
  by pat_completeness auto
termination
  by (relation "measure (\<lambda>(d, s). length s)") (auto dest: parse_component_length)

definition ParseDuration :: "string \<Rightarrow> int option" where
  "ParseDuration s =
     (let neg = (s \<noteq> [] \<and> hd s = CHR ''-'');
          s = (if s \<noteq> [] \<and> (hd s = CHR ''-'' \<or> hd s = CHR ''+'') then tl s else s)
      in if s = ''0'' then Some 0
         else if s = [] then None
         else case parse_components 0 s of
           None \<Rightarrow> None
         | Some d \<Rightarrow> if neg then Some (- d) else if d > 2 ^ 63 - 1 then None else Some d)"

definition parseDurationDef :: "string \<Rightarrow> int" where
  "parseDurationDef s = (if s = [] then 0 else case ParseDuration s of None \<Rightarrow> 0 | Some d \<Rightarrow> d)"

lemma parse_duration_examples:
  "parseDurationDef ''1h30m'' = 5400000000000" "parseDurationDef ''1.5s'' = 1500000000"
  "parseDurationDef ''-2ms'' = -2000000" "parseDurationDef ''5'' = 0" "parseDurationDef ''abc'' = 0"
  by code_simp+

end
