(* ===== verification/Async_Job.thy ===== *)
theory Async_Job
  imports Job_Store Go_Time
begin

text \<open>
  \<open>src/runtime/async_job.go\<close>: submission, background processing, status streaming and callbacks of
  asynchronous jobs, over the in-memory job store.

  The manager is shared by request handlers, worker goroutines and status streams.  Its model is a
  state with one transition function per atomic section of the code, and an execution is any
  sequence of enabled transitions.  JSON encoding, the HMAC and the answers of the callback endpoint
  are parameters.
\<close>

section \<open>State\<close>

record callback_conf =
  cbURL :: string
  cbSecret :: string
  cbRetry :: int
  cbRetryDelay :: string

record 'r job_chan =
  buf :: "'r JobState list"
  closed :: bool

text \<open>
  The stages of the goroutine that \<open>HandleSubmit\<close> starts, in the order of the code: waiting for the
  semaphore, started, job marked as processing, that broadcast, outcome stored, that broadcast.
\<close>

datatype stage = WBlocked | WSpawned | WMarked | WRunning | WStored | WTold

record worker =
  w_id :: string
  w_body :: string
  w_stage :: stage

record 'r manager =
  store :: "'r memoryJobStore"
  has_processor :: bool
  maxRetry :: int
  callback :: "callback_conf option"
  sem_cap :: "nat option"
  sem_used :: nat
  chans :: "'r job_chan list"
  subs :: "(string, nat list) gomap"
  workers :: "worker list"
  cancels :: "string list"

definition NewAsyncJobManagerWithRetry :: "'r memoryJobStore \<Rightarrow> bool \<Rightarrow> int \<Rightarrow> 'r manager" where
  "NewAsyncJobManagerWithRetry st processor maxRetries =
     \<lparr>store = st, has_processor = processor, maxRetry = maxRetries, callback = None, sem_cap = None,
      sem_used = 0, chans = [], subs = [], workers = [], cancels = []\<rparr>"

section \<open>Subscriptions\<close>

definition subscribe :: "string \<Rightarrow> 'r manager \<Rightarrow> nat \<times> 'r manager" where
  "subscribe jid m =
     (let ch = length (chans m);
          cur = (case gm_get (subs m) jid of None \<Rightarrow> [] | Some s \<Rightarrow> s)
      in (ch, m\<lparr>chans := chans m @ [\<lparr>buf = [], closed = False\<rparr>], subs := gm_set jid (cur @ [ch]) (subs m)\<rparr>))"

text \<open>Closing a closed channel and sending on one panic.\<close>

definition close_chan :: "nat \<Rightarrow> 'r manager \<Rightarrow> panic + 'r manager" where
  "close_chan ch m =
     (if closed (chans m ! ch) then Inl (ExplicitPanic ''close of closed channel'')
      else Inr (m\<lparr>chans := (chans m)[ch := (chans m ! ch)\<lparr>closed := True\<rparr>]\<rparr>))"

definition unsubscribe :: "string \<Rightarrow> nat \<Rightarrow> 'r manager \<Rightarrow> panic + 'r manager" where
  "unsubscribe jid ch m =
     (case gm_get (subs m) jid of
        None \<Rightarrow> Inr m
      | Some s \<Rightarrow>
          let s' = removeAll ch s
          in case close_chan ch m of
               Inl e \<Rightarrow> Inl e
             | Inr m' \<Rightarrow> Inr (m'\<lparr>subs := (if s' = [] then gm_del jid (subs m) else gm_set jid s' (subs m))\<rparr>))"

definition chan_cap :: nat where
  "chan_cap = 8"

text \<open>The non-blocking send of \<open>broadcast\<close>: a full buffer drops the value.\<close>

definition try_send :: "'r JobState \<Rightarrow> nat \<Rightarrow> 'r manager \<Rightarrow> panic + 'r manager" where
  "try_send js ch m =
     (if closed (chans m ! ch) then Inl (ExplicitPanic ''send on closed channel'')
      else if length (buf (chans m ! ch)) < chan_cap
      then Inr (m\<lparr>chans := (chans m)[ch := (chans m ! ch)\<lparr>buf := buf (chans m ! ch) @ [js]\<rparr>]\<rparr>)
      else Inr m)"

fun send_all :: "'r JobState \<Rightarrow> nat list \<Rightarrow> 'r manager \<Rightarrow> panic + 'r manager" where
  "send_all js [] m = Inr m"
| "send_all js (ch # chs) m = (case try_send js ch m of Inl e \<Rightarrow> Inl e | Inr m' \<Rightarrow> send_all js chs m')"

definition broadcast :: "string \<Rightarrow> 'r manager \<Rightarrow> panic + 'r manager" where
  "broadcast jid m =
     (case gm_get (subs m) jid of
        None \<Rightarrow> Inr m
      | Some chs \<Rightarrow>
          (case mem_Get jid (store m) of
             None \<Rightarrow> Inr m
           | Some js \<Rightarrow> send_all (heap (store m) ! js) chs m))"

section \<open>Callbacks\<close>

datatype response = RequestFails | TransportError | HttpStatus int

record sent =
  to_url :: string
  payload :: string
  signature :: "string option"

text \<open>
  The attempts made: \<open>resp i\<close> is what happens at attempt \<open>i\<close>, \<open>n\<close> the number of attempts still allowed.
\<close>

fun callback_loop :: "sent \<Rightarrow> (nat \<Rightarrow> response) \<Rightarrow> nat \<Rightarrow> nat \<Rightarrow> sent list" where
  "callback_loop msg resp attempt 0 = []"
| "callback_loop msg resp attempt (Suc n) =
     (case resp attempt of
        RequestFails \<Rightarrow> []
      | TransportError \<Rightarrow> msg # callback_loop msg resp (attempt + 1) n
      | HttpStatus code \<Rightarrow>
          if code \<ge> 200 \<and> code < 300 then [msg] else msg # callback_loop msg resp (attempt + 1) n)"

text \<open>
  \<open>notifyCallback\<close>: the messages sent and the delay between two attempts, or a panic.
\<close>

definition notifyCallback ::
  "('r JobState \<Rightarrow> string) \<Rightarrow> (string \<Rightarrow> string \<Rightarrow> string) \<Rightarrow> (nat \<Rightarrow> response) \<Rightarrow> string \<Rightarrow> 'r manager \<Rightarrow> panic + (sent list \<times> int)" where
  "notifyCallback marshal hmac resp jid m =
     (case mem_Get jid (store m) of
        None \<Rightarrow> Inr ([], 0)
      | Some r \<Rightarrow>
          let js = heap (store m) ! r
          in if CallbackURL js = '''' \<and> (case callback m of None \<Rightarrow> True | Some cb \<Rightarrow> cbURL cb = '''') then Inr ([], 0)
             else let (url, secret) =
                        (if CallbackURL js = '''' then (case callback m of Some cb \<Rightarrow> (cbURL cb, cbSecret cb) | None \<Rightarrow> ('''', ''''))
                         else (CallbackURL js, ''''))
                  in case callback m of
                       None \<Rightarrow> Inl NilDereference
                     | Some cb \<Rightarrow>
                         let max_retry = (if cbRetry cb \<le> 0 then 3 else cbRetry cb);
                             delay = parseDurationDef (cbRetryDelay cb);
                             delay = (if delay \<le> 0 then 5 * 1000000000 else delay);
                             body = marshal js;
                             msg = \<lparr>to_url = url, payload = body,
                                    signature = (if secret = '''' then None else Some (hmac secret body))\<rparr>
                         in Inr (callback_loop msg resp 0 (nat (max_retry + 1)), delay))"

definition VerifyCallbackSignature :: "(string \<Rightarrow> string \<Rightarrow> string) \<Rightarrow> string \<Rightarrow> string \<Rightarrow> string \<Rightarrow> bool" where
  "VerifyCallbackSignature hmac body secret sig \<longleftrightarrow> hmac secret body = sig"

section \<open>Handlers\<close>

text \<open>A write through a \<open>*JobState\<close> obtained from the store.\<close>

definition set_job :: "nat \<Rightarrow> ('r JobState \<Rightarrow> 'r JobState) \<Rightarrow> 'r manager \<Rightarrow> 'r manager" where
  "set_job r f m = m\<lparr>store := (store m)\<lparr>heap := (heap (store m))[r := f (heap (store m) ! r)]\<rparr>\<rparr>"

text \<open>
  What the handler uses of \<open>encoding/json\<close>: decoding the body to a map (\<^const>\<open>None\<close> on an error), the type
  assertion to \<open>string\<close>, and encoding the map.
\<close>

record 'j json =
  unmarshal_map :: "string \<Rightarrow> (string, 'j) gomap option"
  as_string :: "'j \<Rightarrow> string option"
  marshal_map :: "(string, 'j) gomap \<Rightarrow> string"

record submit_response =
  job_id :: string
  status :: JobStatus
  status_url :: string

text \<open>\<open>HandleSubmit\<close> up to the point where it waits for the semaphore and starts the goroutine.\<close>

definition HandleSubmit ::
  "'j json \<Rightarrow> int \<Rightarrow> string \<Rightarrow> string \<Rightarrow> string \<Rightarrow> 'r manager \<Rightarrow> submit_response \<times> 'r manager" where
  "HandleSubmit J now jid path body m =
     (let (js, st) = mem_Create now jid (store m);
          m = m\<lparr>store := st\<rparr>;
          st0 = Status (heap st ! js);
          url = (case unmarshal_map J body of
                   None \<Rightarrow> None
                 | Some bm \<Rightarrow> (case gm_get bm ''_callback_url'' of
                                 None \<Rightarrow> None
                               | Some v \<Rightarrow> map_option (\<lambda>u. (u, marshal_map J (gm_del ''_callback_url'' bm))) (as_string J v)));
          (m, body) = (case url of
                         None \<Rightarrow> (m, body)
                       | Some (u, body') \<Rightarrow> (set_job js (\<lambda>j. j\<lparr>CallbackURL := u\<rparr>) m, body'));
          m = (if has_processor m
               then (set_job js (\<lambda>j. j\<lparr>MaxRetries := maxRetry m\<rparr>) m)
                      \<lparr>workers := workers m @ [\<lparr>w_id = jid, w_body = body, w_stage = WBlocked\<rparr>]\<rparr>
               else m)
      in (\<lparr>job_id = jid, status = st0, status_url = path @ ''/'' @ jid\<rparr>, m))"

text \<open>\<open>HandleStatus\<close>: the job, or the 404 error.\<close>

definition HandleStatus :: "string \<Rightarrow> 'r manager \<Rightarrow> 'r JobState option" where
  "HandleStatus jid m = mem_Snapshot jid (store m)"

text \<open>
  \<open>HandleCancel\<close> looks the job up and then, in another section, deletes it; \<open>cancels\<close> holds the
  requests between the two.
\<close>

datatype cancel_answer = NotFound404 | Conflict409 | Proceed

definition cancel_check :: "string \<Rightarrow> 'r manager \<Rightarrow> cancel_answer \<times> 'r manager" where
  "cancel_check jid m =
     (case mem_Get jid (store m) of
        None \<Rightarrow> (NotFound404, m)
      | Some js \<Rightarrow>
          if Status (heap (store m) ! js) = JobProcessing then (Conflict409, m)
          else (Proceed, m\<lparr>cancels := cancels m @ [jid]\<rparr>))"

definition cancel_delete :: "nat \<Rightarrow> 'r manager \<Rightarrow> 'r manager" where
  "cancel_delete i m =
     m\<lparr>store := mem_Delete (cancels m ! i) (store m), cancels := take i (cancels m) @ drop (i + 1) (cancels m)\<rparr>"

section \<open>Executions\<close>

text \<open>
  A step of worker \<open>i\<close>: \<open>t1\<close> and \<open>t2\<close> are clock readings, \<open>res\<close> what the processor returns and \<open>resp\<close> the
  answers of the callback endpoint, where the step uses them.  \<^const>\<open>None\<close> means the step is not enabled.
\<close>

definition advance :: "nat \<Rightarrow> stage \<Rightarrow> 'r manager \<Rightarrow> 'r manager" where
  "advance i s m = m\<lparr>workers := (workers m)[i := (workers m ! i)\<lparr>w_stage := s\<rparr>]\<rparr>"

definition worker_step ::
  "('r JobState \<Rightarrow> string) \<Rightarrow> (string \<Rightarrow> string \<Rightarrow> string) \<Rightarrow> (nat \<Rightarrow> response) \<Rightarrow> int \<Rightarrow> int \<Rightarrow> string + 'r option \<Rightarrow> nat \<Rightarrow>
   'r manager \<Rightarrow> (panic + 'r manager) option" where
  "worker_step marshal hmac resp t1 t2 res i m =
     (if length (workers m) \<le> i then None
      else let jid = w_id (workers m ! i) in
        case w_stage (workers m ! i) of
          WBlocked \<Rightarrow>
            (case sem_cap m of
               None \<Rightarrow> Some (Inr (advance i WSpawned m))
             | Some cap \<Rightarrow> if sem_used m < cap then Some (Inr (advance i WSpawned (m\<lparr>sem_used := sem_used m + 1\<rparr>))) else None)
        | WSpawned \<Rightarrow>
            Some (Inr (advance i WMarked (m\<lparr>store := mem_Update t1 t2 jid JobProcessing None '''' (store m)\<rparr>)))
        | WMarked \<Rightarrow> Some (case broadcast jid m of Inl e \<Rightarrow> Inl e | Inr m' \<Rightarrow> Inr (advance i WRunning m'))
        | WRunning \<Rightarrow>
            Some (Inr (advance i WStored
              (m\<lparr>store := (case res of
                            Inl err \<Rightarrow> mem_Update t1 t2 jid JobFailed None err (store m)
                          | Inr r \<Rightarrow> mem_Update t1 t2 jid JobCompleted r '''' (store m))\<rparr>)))
        | WStored \<Rightarrow> Some (case broadcast jid m of Inl e \<Rightarrow> Inl e | Inr m' \<Rightarrow> Inr (advance i WTold m'))
        | WTold \<Rightarrow>
            Some (case notifyCallback marshal hmac resp jid m of
                    Inl e \<Rightarrow> Inl e
                  | Inr _ \<Rightarrow> Inr (m\<lparr>workers := take i (workers m) @ drop (i + 1) (workers m),
                                     sem_used := (case sem_cap m of None \<Rightarrow> sem_used m | Some _ \<Rightarrow> sem_used m - 1)\<rparr>)))"

datatype 'r transition =
    TSubmit int string string string
  | TWorker "nat \<Rightarrow> response" int int "string + 'r option" nat
  | TCancelCheck string
  | TCancelDelete nat
  | TSubscribe string
  | TUnsubscribe string nat
  | TReceive nat
  | TReap int int
  | TCleanup int int

text \<open>
  A status stream unsubscribes the channel it subscribed, once; \<open>TReceive\<close> takes the next state from a channel.
\<close>

fun exec ::
  "'j json \<Rightarrow> ('r JobState \<Rightarrow> string) \<Rightarrow> (string \<Rightarrow> string \<Rightarrow> string) \<Rightarrow> 'r transition \<Rightarrow> 'r manager \<Rightarrow> (panic + 'r manager) option" where
  "exec J marshal hmac (TSubmit now jid path body) m = Some (Inr (snd (HandleSubmit J now jid path body m)))"
| "exec J marshal hmac (TWorker resp t1 t2 res i) m = worker_step marshal hmac resp t1 t2 res i m"
| "exec J marshal hmac (TCancelCheck jid) m = Some (Inr (snd (cancel_check jid m)))"
| "exec J marshal hmac (TCancelDelete i) m = (if i < length (cancels m) then Some (Inr (cancel_delete i m)) else None)"
| "exec J marshal hmac (TSubscribe jid) m = Some (Inr (snd (subscribe jid m)))"
| "exec J marshal hmac (TUnsubscribe jid ch) m =
     (case gm_get (subs m) jid of
        Some s \<Rightarrow> if ch \<in> set s then Some (unsubscribe jid ch m) else None
      | None \<Rightarrow> None)"
| "exec J marshal hmac (TReceive ch) m =
     (if ch < length (chans m) \<and> buf (chans m ! ch) \<noteq> []
      then Some (Inr (m\<lparr>chans := (chans m)[ch := (chans m ! ch)\<lparr>buf := tl (buf (chans m ! ch))\<rparr>]\<rparr>)) else None)"
| "exec J marshal hmac (TReap now maxRetries) m = Some (Inr (m\<lparr>store := snd (mem_ReapStale now maxRetries (store m))\<rparr>))"
| "exec J marshal hmac (TCleanup now ttl) m = Some (Inr (m\<lparr>store := snd (mem_Cleanup now ttl (store m))\<rparr>))"

inductive reachable ::
  "'j json \<Rightarrow> ('r JobState \<Rightarrow> string) \<Rightarrow> (string \<Rightarrow> string \<Rightarrow> string) \<Rightarrow> 'r manager \<Rightarrow> 'r manager \<Rightarrow> bool"
  for J marshal hmac m0 where
  start: "reachable J marshal hmac m0 m0"
| move: "reachable J marshal hmac m0 m \<Longrightarrow> exec J marshal hmac t m = Some (Inr m') \<Longrightarrow> reachable J marshal hmac m0 m'"

section \<open>Invariants\<close>

text \<open>Every subscribed channel is open and belongs to one subscription; no buffer exceeds its capacity.\<close>

definition subscribed :: "'r manager \<Rightarrow> string \<Rightarrow> nat set" where
  "subscribed m jid = (case gm_get (subs m) jid of None \<Rightarrow> {} | Some s \<Rightarrow> set s)"

definition subs_ok :: "'r manager \<Rightarrow> bool" where
  "subs_ok m \<longleftrightarrow>
     (\<forall>jid. \<forall>ch\<in>subscribed m jid. ch < length (chans m) \<and> \<not> closed (chans m ! ch)) \<and>
     (\<forall>jid jid'. jid \<noteq> jid' \<longrightarrow> subscribed m jid \<inter> subscribed m jid' = {}) \<and>
     (\<forall>c\<in>set (chans m). length (buf c) \<le> chan_cap)"

text \<open>The semaphore counts the workers that have passed it.\<close>

definition running :: "'r manager \<Rightarrow> nat" where
  "running m = length (filter (\<lambda>w. w_stage w \<noteq> WBlocked) (workers m))"

definition sem_ok :: "'r manager \<Rightarrow> bool" where
  "sem_ok m \<longleftrightarrow> (case sem_cap m of None \<Rightarrow> True | Some cap \<Rightarrow> sem_used m = running m \<and> running m \<le> cap)"

lemma subs_okI:
  "(\<And>jid ch. ch \<in> subscribed m jid \<Longrightarrow> ch < length (chans m) \<and> \<not> closed (chans m ! ch)) \<Longrightarrow>
   (\<And>jid jid'. jid \<noteq> jid' \<Longrightarrow> subscribed m jid \<inter> subscribed m jid' = {}) \<Longrightarrow>
   (\<forall>c\<in>set (chans m). length (buf c) \<le> chan_cap) \<Longrightarrow> subs_ok m"
  by (simp add: subs_ok_def)

lemma subs_okD:
  assumes "subs_ok m"
  shows "ch \<in> subscribed m jid \<Longrightarrow> ch < length (chans m) \<and> \<not> closed (chans m ! ch)"
    and "jid \<noteq> jid' \<Longrightarrow> subscribed m jid \<inter> subscribed m jid' = {}"
    and "\<forall>c\<in>set (chans m). length (buf c) \<le> chan_cap"
  using assms by (simp_all add: subs_ok_def)

lemma chan_update:
  assumes "ch < length cs" and "closed c = closed (cs ! ch)" and "length (buf c) \<le> chan_cap"
    and "\<forall>c\<in>set cs. length (buf c) \<le> chan_cap"
  shows "map closed (cs[ch := c]) = map closed cs" and "\<forall>c\<in>set (cs[ch := c]). length (buf c) \<le> chan_cap"
proof -
  have "map closed (cs[ch := c]) = (map closed cs)[ch := map closed cs ! ch]"
    using assms(1,2) by (simp add: map_update)
  then show "map closed (cs[ch := c]) = map closed cs" by simp
  show "\<forall>c\<in>set (cs[ch := c]). length (buf c) \<le> chan_cap"
    using assms by (auto dest!: set_update_subset_insert [THEN subsetD])
qed

lemma try_send_ok:
  assumes "ch < length (chans m)" and "\<not> closed (chans m ! ch)" and "\<forall>c\<in>set (chans m). length (buf c) \<le> chan_cap"
  shows "\<exists>cs. try_send js ch m = Inr (m\<lparr>chans := cs\<rparr>) \<and> map closed cs = map closed (chans m) \<and>
    (\<forall>c\<in>set cs. length (buf c) \<le> chan_cap)"
proof (cases "length (buf (chans m ! ch)) < chan_cap")
  case True
  let ?cs = "(chans m)[ch := (chans m ! ch)\<lparr>buf := buf (chans m ! ch) @ [js]\<rparr>]"
  have "map closed ?cs = map closed (chans m)" "\<forall>c\<in>set ?cs. length (buf c) \<le> chan_cap"
    using True by (intro chan_update [OF assms(1) _ _ assms(3)]; simp)+
  moreover have "try_send js ch m = Inr (m\<lparr>chans := ?cs\<rparr>)" using assms True by (simp add: try_send_def)
  ultimately show ?thesis by blast
next
  case False
  then show ?thesis using assms by (intro exI [of _ "chans m"]) (simp add: try_send_def)
qed

lemma send_all_ok:
  assumes "\<forall>ch\<in>set chs. ch < length (chans m) \<and> \<not> closed (chans m ! ch)" and "\<forall>c\<in>set (chans m). length (buf c) \<le> chan_cap"
  shows "\<exists>cs. send_all js chs m = Inr (m\<lparr>chans := cs\<rparr>) \<and> map closed cs = map closed (chans m) \<and>
    (\<forall>c\<in>set cs. length (buf c) \<le> chan_cap)"
  using assms
proof (induction chs arbitrary: m)
  case Nil
  then show ?case by (intro exI [of _ "chans m"]) simp
next
  case (Cons ch chs)
  then obtain cs where cs: "try_send js ch m = Inr (m\<lparr>chans := cs\<rparr>)" "map closed cs = map closed (chans m)"
    "\<forall>c\<in>set cs. length (buf c) \<le> chan_cap" using try_send_ok [of ch m js] by auto
  from cs(2) have len: "length cs = length (chans m)" by (rule map_eq_imp_length_eq)
  have "closed (cs ! c) = closed (chans m ! c)" if "c < length (chans m)" for c
    using cs(2) len that by (metis nth_map)
  with Cons.prems len cs(3) Cons.IH [of "m\<lparr>chans := cs\<rparr>"] obtain cs' where
    "send_all js chs (m\<lparr>chans := cs\<rparr>) = Inr (m\<lparr>chans := cs'\<rparr>)" "map closed cs' = map closed cs"
    "\<forall>c\<in>set cs'. length (buf c) \<le> chan_cap" by auto
  with cs show ?case by auto
qed

lemma subs_ok_same_closed:
  assumes "subs_ok m" and "map closed cs = map closed (chans m)" and "\<forall>c\<in>set cs. length (buf c) \<le> chan_cap"
  shows "subs_ok (m\<lparr>chans := cs\<rparr>)"
proof -
  from assms(2) have len: "length cs = length (chans m)" by (rule map_eq_imp_length_eq)
  have "closed (cs ! c) = closed (chans m ! c)" if "c < length (chans m)" for c
    using assms(2) len that by (metis nth_map)
  with assms(1,3) len show ?thesis by (simp add: subs_ok_def subscribed_def)
qed

lemma broadcast_ok:
  assumes "subs_ok m"
  shows "\<exists>cs. broadcast jid m = Inr (m\<lparr>chans := cs\<rparr>) \<and> subs_ok (m\<lparr>chans := cs\<rparr>)"
proof (cases "\<exists>chs r. gm_get (subs m) jid = Some chs \<and> mem_Get jid (store m) = Some r")
  case True
  then obtain chs r where 1: "gm_get (subs m) jid = Some chs" "mem_Get jid (store m) = Some r" by blast
  then have "subscribed m jid = set chs" by (simp add: subscribed_def)
  then have "\<forall>ch\<in>set chs. ch < length (chans m) \<and> \<not> closed (chans m ! ch)"
    using subs_okD(1) [OF assms, of _ jid] by simp
  from send_all_ok [OF this subs_okD(3) [OF assms], of "heap (store m) ! r"] obtain cs where
    "send_all (heap (store m) ! r) chs m = Inr (m\<lparr>chans := cs\<rparr>)" "map closed cs = map closed (chans m)"
    "\<forall>c\<in>set cs. length (buf c) \<le> chan_cap" by blast
  with 1 subs_ok_same_closed [OF assms] show ?thesis by (auto simp: broadcast_def)
next
  case False
  then have "broadcast jid m = Inr m" by (auto simp: broadcast_def split: option.splits)
  with assms show ?thesis by (intro exI [of _ "chans m"]) simp
qed

lemma subscribed_subscribe:
  "subscribed (snd (subscribe jid m)) j = (if j = jid then insert (length (chans m)) (subscribed m j) else subscribed m j)"
  by (auto simp: subscribed_def subscribe_def Let_def gm_get_set split: option.splits)

lemma subscribe_ok:
  assumes ok: "subs_ok m"
  shows "subs_ok (snd (subscribe jid m))"
proof -
  have c: "chans (snd (subscribe jid m)) = chans m @ [\<lparr>buf = [], closed = False\<rparr>]"
    by (simp add: subscribe_def Let_def)
  have old: "ch < length (chans m) \<and> \<not> closed (chans m ! ch)" if "ch \<in> subscribed m j" for j ch
    using subs_okD(1) [OF ok that] .
  have "ch < length (chans (snd (subscribe jid m))) \<and> \<not> closed (chans (snd (subscribe jid m)) ! ch)"
    if "ch \<in> subscribed (snd (subscribe jid m)) j" for j ch
    using that old [of ch j] by (auto simp: c subscribed_subscribe nth_append less_Suc_eq split: if_splits)
  moreover have "subscribed (snd (subscribe jid m)) j \<inter> subscribed (snd (subscribe jid m)) j' = {}" if "j \<noteq> j'" for j j'
  proof -
    have "length (chans m) \<notin> subscribed m j" "length (chans m) \<notin> subscribed m j'" using old by blast+
    moreover have "subscribed m j \<inter> subscribed m j' = {}" using subs_okD(2) [OF ok that] .
    ultimately show ?thesis using that by (auto simp: subscribed_subscribe)
  qed
  ultimately show ?thesis using subs_okD(3) [OF ok] by (intro subs_okI) (auto simp: c)
qed

lemma unsubscribe_ok:
  assumes ok: "subs_ok m" and s: "gm_get (subs m) jid = Some s" and ch: "ch \<in> set s"
  shows "\<exists>cs su. unsubscribe jid ch m = Inr (m\<lparr>chans := cs, subs := su\<rparr>) \<and> subs_ok (m\<lparr>chans := cs, subs := su\<rparr>)"
proof -
  let ?s = "removeAll ch s" and ?cs = "(chans m)[ch := (chans m ! ch)\<lparr>closed := True\<rparr>]"
  let ?su = "if ?s = [] then gm_del jid (subs m) else gm_set jid ?s (subs m)"
  let ?m = "m\<lparr>chans := ?cs, subs := ?su\<rparr>"
  have mem: "ch \<in> subscribed m jid" using s ch by (simp add: subscribed_def)
  from subs_okD(1) [OF ok this] have c: "ch < length (chans m)" "\<not> closed (chans m ! ch)" by auto
  have "unsubscribe jid ch m = Inr ?m"
    using s c by (simp add: unsubscribe_def close_chan_def Let_def)
  moreover have sub: "subscribed ?m j = (if j = jid then subscribed m j - {ch} else subscribed m j)" for j
  proof (cases "?s = []")
    case True
    then have "set s - {ch} = {}" by (metis set_empty set_removeAll)
    with True s show ?thesis by (auto simp: subscribed_def gm_get_del)
  next
    case False
    with s show ?thesis by (auto simp: subscribed_def gm_get_set)
  qed
  have "subs_ok ?m"
  proof (rule subs_okI)
    fix j c' assume "c' \<in> subscribed ?m j"
    then have c': "c' \<in> subscribed m j" "c' \<noteq> ch"
      using subs_okD(2) [OF ok, of j jid] mem by (auto simp: sub split: if_splits)
    then show "c' < length (chans ?m) \<and> \<not> closed (chans ?m ! c')" using subs_okD(1) [OF ok c'(1)] by simp
  next
    fix j j' :: string assume "j \<noteq> j'"
    from subs_okD(2) [OF ok this] show "subscribed ?m j \<inter> subscribed ?m j' = {}" by (auto simp: sub)
  next
    show "\<forall>c\<in>set (chans ?m). length (buf c) \<le> chan_cap"
      using subs_okD(3) [OF ok] c by (auto dest!: set_update_subset_insert [THEN subsetD])
  qed
  ultimately show ?thesis by blast
qed

text \<open>What a transition does not touch.\<close>

lemma subs_ok_frame [simp]:
  "subs_ok (m\<lparr>store := st\<rparr>) = subs_ok m" "subs_ok (m\<lparr>workers := ws\<rparr>) = subs_ok m"
  "subs_ok (m\<lparr>cancels := cs\<rparr>) = subs_ok m" "subs_ok (m\<lparr>sem_used := n\<rparr>) = subs_ok m"
  by (simp_all add: subs_ok_def subscribed_def)

lemma sem_ok_frame [simp]:
  "sem_ok (m\<lparr>store := st\<rparr>) = sem_ok m" "sem_ok (m\<lparr>cancels := cs\<rparr>) = sem_ok m"
  "sem_ok (m\<lparr>chans := c\<rparr>) = sem_ok m" "sem_ok (m\<lparr>subs := s\<rparr>) = sem_ok m"
  by (simp_all add: sem_ok_def running_def split: option.split)

lemma advance_frame [simp]:
  "subs_ok (advance i s m) = subs_ok m" "callback (advance i s m) = callback m" "sem_cap (advance i s m) = sem_cap m"
  by (simp_all add: advance_def)

lemma filter_length_update:
  assumes "i < length xs"
  shows "length (filter P (xs[i := y])) + (if P (xs ! i) then 1 else 0) = length (filter P xs) + (if P y then 1 else 0)"
proof -
  have "length (filter P xs) = length (filter P (take i xs)) + (if P (xs ! i) then 1 else 0) + length (filter P (drop (Suc i) xs))"
    by (subst id_take_nth_drop [OF assms]) simp
  moreover have "length (filter P (xs[i := y])) = length (filter P (take i xs)) + (if P y then 1 else 0) + length (filter P (drop (Suc i) xs))"
    by (subst upd_conv_take_nth_drop [OF assms]) simp
  ultimately show ?thesis by simp
qed

lemma filter_length_remove:
  assumes "i < length xs" and "P (xs ! i)"
  shows "Suc (length (filter P (take i xs @ drop (i + 1) xs))) = length (filter P xs)"
  using assms(2) by (subst (3) id_take_nth_drop [OF assms(1)]) simp

lemma running_advance:
  assumes "i < length (workers m)" and "s \<noteq> WBlocked"
  shows "running (advance i s m) = (if w_stage (workers m ! i) = WBlocked then running m + 1 else running m)"
  using filter_length_update [OF assms(1), of "\<lambda>w. w_stage w \<noteq> WBlocked" "(workers m ! i)\<lparr>w_stage := s\<rparr>"] assms(2)
  by (simp add: running_def advance_def split: if_splits)

lemma sem_ok_advance:
  assumes "sem_ok m" and "i < length (workers m)" and "w_stage (workers m ! i) \<noteq> WBlocked" and "s \<noteq> WBlocked"
  shows "sem_ok (advance i s m)"
  using assms running_advance [OF assms(2,4)] by (simp add: sem_ok_def advance_def split: option.splits)

lemma submit_frame:
  "subs_ok (snd (HandleSubmit J now jid path body m)) = subs_ok m"
  "sem_ok (snd (HandleSubmit J now jid path body m)) = sem_ok m"
  "callback (snd (HandleSubmit J now jid path body m)) = callback m"
  "sem_cap (snd (HandleSubmit J now jid path body m)) = sem_cap m"
  by (auto simp: HandleSubmit_def Let_def set_job_def case_prod_beta sem_ok_def running_def split: option.splits)

lemma subscribe_frame:
  "sem_ok (snd (subscribe jid m)) = sem_ok m" "callback (snd (subscribe jid m)) = callback m"
  "sem_cap (snd (subscribe jid m)) = sem_cap m"
  by (simp_all add: subscribe_def Let_def)

lemma notify_no_panic: "callback m \<noteq> None \<Longrightarrow> \<exists>r. notifyCallback marshal hmac resp jid m = Inr r"
  by (auto simp: notifyCallback_def Let_def split: option.splits)

lemma worker_step_ok:
  assumes ok: "subs_ok m" "sem_ok m" "callback m \<noteq> None" and st: "worker_step marshal hmac resp t1 t2 res i m = Some r"
  shows "\<exists>m'. r = Inr m' \<and> subs_ok m' \<and> sem_ok m' \<and> callback m' = callback m \<and> sem_cap m' = sem_cap m"
proof -
  let ?w = "workers m ! i"
  from st have i: "i < length (workers m)" by (auto simp: worker_step_def split: if_splits)
  note sem = sem_ok_advance [OF _ i]
  obtain cs where b: "broadcast (w_id ?w) m = Inr (m\<lparr>chans := cs\<rparr>)" "subs_ok (m\<lparr>chans := cs\<rparr>)"
    using broadcast_ok [OF ok(1)] by blast
  show ?thesis
  proof (cases "w_stage ?w")
    case WBlocked
    show ?thesis
    proof (cases "sem_cap m")
      case None
      with WBlocked st i ok show ?thesis by (auto simp: worker_step_def sem_ok_def)
    next
      case (Some cap)
      let ?m = "m\<lparr>sem_used := sem_used m + 1\<rparr>"
      from Some WBlocked st i have r: "r = Inr (advance i WSpawned ?m)" "sem_used m < cap"
        by (auto simp: worker_step_def split: if_splits)
      have "running (advance i WSpawned ?m) = running m + 1"
        using running_advance [of i ?m WSpawned] i WBlocked by (simp add: running_def)
      with r ok Some have "sem_ok (advance i WSpawned ?m)" by (simp add: sem_ok_def advance_def)
      with r ok show ?thesis by simp
    qed
  next
    case WSpawned
    with st i ok sem show ?thesis by (auto simp: worker_step_def Let_def sem_ok_advance)
  next
    case WMarked
    with st i ok b show ?thesis by (auto simp: worker_step_def Let_def sem_ok_advance)
  next
    case WRunning
    with st i ok show ?thesis by (auto simp: worker_step_def Let_def sem_ok_advance)
  next
    case WStored
    with st i ok b show ?thesis by (auto simp: worker_step_def Let_def sem_ok_advance)
  next
    case WTold
    from notify_no_panic [OF ok(3)] obtain x where x: "notifyCallback marshal hmac resp (w_id ?w) m = Inr x" by blast
    define m' where "m' = m\<lparr>workers := take i (workers m) @ drop (i + 1) (workers m),
        sem_used := (case sem_cap m of None \<Rightarrow> sem_used m | Some _ \<Rightarrow> sem_used m - 1)\<rparr>"
    from x WTold st i have r: "r = Inr m'" by (simp add: worker_step_def Let_def m'_def)
    have "sem_ok m'"
      using ok(2) filter_length_remove [OF i, of "\<lambda>w. w_stage w \<noteq> WBlocked"] WTold
      by (auto simp: sem_ok_def running_def m'_def split: option.splits)
    with r ok show ?thesis by (simp add: m'_def)
  qed
qed

lemma exec_ok:
  assumes ok: "subs_ok m" "sem_ok m" "callback m \<noteq> None" and st: "exec J marshal hmac t m = Some r"
  shows "\<exists>m'. r = Inr m' \<and> subs_ok m' \<and> sem_ok m' \<and> callback m' = callback m \<and> sem_cap m' = sem_cap m"
proof (cases t)
  case (TWorker resp t1 t2 res i)
  with st worker_step_ok [OF ok] show ?thesis by simp
next
  case (TUnsubscribe jid ch)
  with st obtain s where "gm_get (subs m) jid = Some s" "ch \<in> set s" "r = unsubscribe jid ch m"
    by (auto split: option.splits if_splits)
  with unsubscribe_ok [OF ok(1)] ok show ?thesis by fastforce
next
  case (TReceive ch)
  let ?c = "(chans m ! ch)\<lparr>buf := tl (buf (chans m ! ch))\<rparr>"
  from TReceive st have ch: "ch < length (chans m)" "r = Inr (m\<lparr>chans := (chans m)[ch := ?c]\<rparr>)"
    by (auto split: if_splits)
  have "length (buf (chans m ! ch)) \<le> chan_cap" using subs_okD(3) [OF ok(1)] ch(1) by simp
  then have "length (buf ?c) \<le> chan_cap" by simp
  with chan_update [OF ch(1) _ _ subs_okD(3) [OF ok(1)], of ?c] ch(2) ok show ?thesis
    by (simp add: subs_ok_same_closed)
qed (use st ok in \<open>auto simp: submit_frame cancel_check_def cancel_delete_def subscribe_ok subscribe_frame
      split: option.splits if_splits\<close>)

lemma reachable_ok:
  assumes "reachable J marshal hmac m0 m" and "subs_ok m0" "sem_ok m0" "callback m0 \<noteq> None"
  shows "subs_ok m \<and> sem_ok m \<and> callback m = callback m0 \<and> sem_cap m = sem_cap m0"
  using assms
proof (induction rule: reachable.induct)
  case (move m t m')
  then have IH: "subs_ok m" "sem_ok m" "callback m = callback m0" "sem_cap m = sem_cap m0" by auto
  with exec_ok [of m J marshal hmac t "Inr m'"] move show ?case by auto
qed simp

section \<open>Delivery of status changes\<close>

lemma try_send_last:
  "try_send js c m = Inr m' \<Longrightarrow> buf (chans m ! ch) \<noteq> [] \<Longrightarrow> last (buf (chans m ! ch)) = js \<Longrightarrow>
     buf (chans m' ! ch) \<noteq> [] \<and> last (buf (chans m' ! ch)) = js"
  by (cases "c < length (chans m)"; cases "c = ch") (auto simp: try_send_def list_update_beyond not_less split: if_splits)

lemma send_all_last:
  "send_all js chs m = Inr m' \<Longrightarrow> buf (chans m ! ch) \<noteq> [] \<Longrightarrow> last (buf (chans m ! ch)) = js \<Longrightarrow>
     buf (chans m' ! ch) \<noteq> [] \<and> last (buf (chans m' ! ch)) = js"
proof (induction chs arbitrary: m)
  case (Cons c chs)
  then obtain m1 where m1: "try_send js c m = Inr m1" "send_all js chs m1 = Inr m'" by (auto split: sum.splits)
  from try_send_last [OF m1(1) Cons.prems(2,3)] Cons.IH [OF m1(2)] show ?case by blast
qed simp

lemma send_all_delivers:
  assumes "send_all js chs m = Inr m'" and "ch \<in> set chs" and "ch < length (chans m)"
    and "length (buf (chans m ! ch)) < chan_cap"
  shows "buf (chans m' ! ch) \<noteq> [] \<and> last (buf (chans m' ! ch)) = js"
  using assms
proof (induction chs arbitrary: m)
  case (Cons c chs)
  then obtain m1 where m1: "try_send js c m = Inr m1" "send_all js chs m1 = Inr m'" by (auto split: sum.splits)
  show ?case
  proof (cases "c = ch")
    case True
    with m1 Cons.prems have "buf (chans m1 ! ch) \<noteq> [] \<and> last (buf (chans m1 ! ch)) = js"
      by (auto simp: try_send_def split: if_splits)
    with send_all_last [OF m1(2)] show ?thesis by blast
  next
    case False
    with m1(1) have "chans m1 ! ch = chans m ! ch" "length (chans m1) = length (chans m)"
      by (auto simp: try_send_def split: if_splits)
    with False Cons m1 show ?thesis by simp
  qed
qed simp

text \<open>No transition of an execution adds to a channel when no worker is left and nothing is submitted.\<close>

fun submits :: "'r transition \<Rightarrow> bool" where
  "submits (TSubmit now jid path body) = True"
| "submits _ = False"

lemma buf_close: "buf (cs[x := (cs ! x)\<lparr>closed := c\<rparr>] ! ch) = buf (cs ! ch)"
  by (cases "x < length cs"; cases "x = ch") (auto simp: not_less list_update_beyond)

lemma idle_step:
  assumes "exec J marshal hmac t m = Some (Inr m')" and "\<not> submits t" and "workers m = []"
    and "ch < length (chans m)" and "buf (chans m ! ch) = []"
  shows "workers m' = [] \<and> ch < length (chans m') \<and> buf (chans m' ! ch) = []"
  using assms
  by (cases t) (auto simp: worker_step_def cancel_check_def cancel_delete_def subscribe_def unsubscribe_def close_chan_def
      Let_def nth_append buf_close nth_list_update split: if_splits option.splits sum.splits)

fun run :: "'j json \<Rightarrow> ('r JobState \<Rightarrow> string) \<Rightarrow> (string \<Rightarrow> string \<Rightarrow> string) \<Rightarrow> 'r transition list \<Rightarrow> 'r manager \<Rightarrow> (panic + 'r manager) option" where
  "run J marshal hmac [] m = Some (Inr m)"
| "run J marshal hmac (t # ts) m =
     (case exec J marshal hmac t m of Some (Inr m') \<Rightarrow> run J marshal hmac ts m' | r \<Rightarrow> r)"

lemma run_reachable:
  "run J marshal hmac ts m = Some (Inr m') \<Longrightarrow> reachable J marshal hmac m0 m \<Longrightarrow> reachable J marshal hmac m0 m'"
  by (induction ts arbitrary: m) (auto intro: reachable.move split: option.splits sum.splits)

lemma idle_run:
  "run J marshal hmac ts m = Some (Inr m') \<Longrightarrow> list_all (\<lambda>t. \<not> submits t) ts \<Longrightarrow> workers m = [] \<Longrightarrow>
     ch < length (chans m) \<Longrightarrow> buf (chans m ! ch) = [] \<Longrightarrow> buf (chans m' ! ch) = []"
proof (induction ts arbitrary: m)
  case (Cons t ts)
  then obtain m1 where m1: "exec J marshal hmac t m = Some (Inr m1)" "run J marshal hmac ts m1 = Some (Inr m')"
    by (auto split: option.splits sum.splits)
  from idle_step [OF m1(1)] Cons.prems Cons.IH [OF m1(2)] show ?case by simp
qed simp

definition fails :: "response \<Rightarrow> bool" where
  "fails r = (case r of RequestFails \<Rightarrow> False | TransportError \<Rightarrow> True | HttpStatus c \<Rightarrow> \<not> (c \<ge> 200 \<and> c < 300))"

definition succeeds :: "response \<Rightarrow> bool" where
  "succeeds r = (case r of HttpStatus c \<Rightarrow> c \<ge> 200 \<and> c < 300 | _ \<Rightarrow> False)"

lemma callback_loop_count:
  assumes "\<forall>j<i. fails (resp (a + j))" and "i < n \<Longrightarrow> succeeds (resp (a + i))"
  shows "callback_loop msg resp a n = replicate (if i < n then i + 1 else n) msg"
  using assms
proof (induction n arbitrary: a i)
  case (Suc n)
  show ?case
  proof (cases i)
    case 0
    with Suc.prems(2) have "succeeds (resp a)" by simp
    with 0 show ?thesis by (auto simp: succeeds_def split: response.splits)
  next
    case (Suc i')
    with Suc.prems(1) have "fails (resp a)" by force
    moreover have "\<forall>j<i'. fails (resp (a + 1 + j))" using Suc.prems(1) Suc by auto
    ultimately show ?thesis
      using Suc.IH [of i' "a + 1"] Suc.prems(2) Suc by (auto simp: fails_def split: response.splits)
  qed
qed simp

section \<open>Properties\<close>

abbreviation example_json :: "string json" where
  "example_json \<equiv> \<lparr>unmarshal_map = (\<lambda>b. if b = ''{}'' then Some [] else Some [(''_callback_url'', b)]), as_string = Some, marshal_map = (\<lambda>_. ''{}'')\<rparr>"

definition example_manager :: "nat manager" where
  "example_manager = (NewAsyncJobManagerWithRetry newMemoryJobStore True 3)
     \<lparr>callback := Some \<lparr>cbURL = ''http://cb'', cbSecret = ''k'', cbRetry = 0, cbRetryDelay = ''''\<rparr>, sem_cap := Some 1\<rparr>"

text \<open>
  C1: In every execution of the job manager, whatever way submissions, workers, cancellations, status streams, the reaper and cleanup
  interleave, and provided a callback section is configured, no step panics (no send on, and no second close of, a
  closed channel), no more workers run than \<open>max_concurrent\<close> allows, and no stream buffers more than 8 states.
\<close>

theorem async_execution_safe:
  assumes "reachable J marshal hmac
      ((NewAsyncJobManagerWithRetry newMemoryJobStore processor k)\<lparr>callback := Some cb, sem_cap := cap\<rparr>) m"
    and "exec J marshal hmac t m = Some r"
  shows "\<exists>m'. r = Inr m' \<and> (\<forall>c\<in>set (chans m'). length (buf c) \<le> 8) \<and>
    (case cap of None \<Rightarrow> True | Some n \<Rightarrow> running m' \<le> n)"
proof -
  let ?m0 = "(NewAsyncJobManagerWithRetry newMemoryJobStore processor k)\<lparr>callback := Some cb, sem_cap := cap\<rparr>"
  have m0: "subs_ok ?m0" "sem_ok ?m0" "callback ?m0 \<noteq> None" "sem_cap ?m0 = cap"
    by (auto simp: NewAsyncJobManagerWithRetry_def subs_ok_def subscribed_def sem_ok_def running_def split: option.splits)
  from reachable_ok [OF assms(1) m0(1-3)] exec_ok [OF _ _ _ assms(2)] m0(3,4)
  obtain m' where "r = Inr m'" "subs_ok m'" "sem_ok m'" "sem_cap m' = cap" by auto
  then show ?thesis by (auto simp: subs_ok_def sem_ok_def chan_cap_def split: option.splits)
qed

theorem async_execution_safe_witness:
  "\<exists>m'. exec example_json (\<lambda>_. ''p'') (\<lambda>_ _. ''h'') (TWorker (\<lambda>_. TransportError) 1 1 (Inr None) 0)
       (snd (HandleSubmit example_json 0 ''j_1'' ''/jobs'' ''{}'' example_manager)) = Some (Inr m') \<and>
     (\<forall>c\<in>set (chans m'). length (buf c) \<le> 8) \<and> running m' \<le> 1"
proof -
  let ?m = "snd (HandleSubmit example_json 0 ''j_1'' ''/jobs'' ''{}'' example_manager)"
  let ?t = "TWorker (\<lambda>_. TransportError) 1 1 (Inr None) 0 :: nat transition"
  have "reachable example_json (\<lambda>_. ''p'') (\<lambda>_ _. ''h'') example_manager ?m"
    by (rule reachable.move [OF reachable.start, where t = "TSubmit 0 ''j_1'' ''/jobs'' ''{}''"]) simp
  moreover have "\<exists>r. exec example_json (\<lambda>_. ''p'') (\<lambda>_ _. ''h'') ?t ?m = Some r"
    by (simp add: HandleSubmit_def example_manager_def NewAsyncJobManagerWithRetry_def newMemoryJobStore_def mem_Create_def
        set_job_def worker_step_def)
  ultimately show ?thesis
    using async_execution_safe [where J = example_json and marshal = "\<lambda>_. ''p''" and hmac = "\<lambda>_ _. ''h''" and processor = True and k = 3
        and cb = "\<lparr>cbURL = ''http://cb'', cbSecret = ''k'', cbRetry = 0, cbRetryDelay = ''''\<rparr>" and cap = "Some 1" and m = ?m and t = ?t]
    by (auto simp: example_manager_def)
qed

text \<open>
  C22: When a worker broadcasts the outcome of its job, every status stream subscribed to the job at that moment whose
  buffer has room has the stored state of the job as the last state it will read.
\<close>

theorem subscribers_get_outcome:
  assumes "i < length (workers m)" and "w_stage (workers m ! i) = WStored" and "w_id (workers m ! i) = jid"
    and "mem_Snapshot jid (store m) = Some js" and "subs_ok m" and "ch \<in> subscribed m jid"
    and "length (buf (chans m ! ch)) < 8"
  shows "\<exists>m'. worker_step marshal hmac resp t1 t2 res i m = Some (Inr m') \<and>
    buf (chans m' ! ch) \<noteq> [] \<and> last (buf (chans m' ! ch)) = js"
proof -
  from assms(6) obtain chs where chs: "gm_get (subs m) jid = Some chs" "ch \<in> set chs"
    by (auto simp: subscribed_def split: option.splits)
  from assms(4) obtain r where r: "mem_Get jid (store m) = Some r" "heap (store m) ! r = js"
    by (auto simp: mem_Snapshot_def mem_Get_def split: option.splits)
  from broadcast_ok [OF assms(5), of jid] obtain cs where b: "broadcast jid m = Inr (m\<lparr>chans := cs\<rparr>)" by blast
  with chs r have send: "send_all js chs m = Inr (m\<lparr>chans := cs\<rparr>)" by (simp add: broadcast_def)
  have "ch < length (chans m)" using subs_okD(1) [OF assms(5,6)] by simp
  from send_all_delivers [OF send chs(2) this] assms(7) b assms(1-3) show ?thesis
    by (simp add: worker_step_def advance_def chan_cap_def)
qed

theorem subscribers_get_outcome_witness:
  "\<exists>m m' js. run example_json (\<lambda>_. ''p'') (\<lambda>_ _. ''h'') (TSubmit 0 ''j'' ''/jobs'' ''{}'' # TSubscribe ''j'' # replicate 4 (TWorker (\<lambda>_. HttpStatus 200) 1 1 (Inr (Some 5)) 0)) example_manager =
       Some (Inr m) \<and> worker_step (\<lambda>_. ''p'') (\<lambda>_ _. ''h'') (\<lambda>_. TransportError) 2 2 (Inr None) 0 m = Some (Inr m') \<and>
     Status js = JobCompleted \<and> last (buf (chans m' ! 0)) = js"
proof -
  let ?run = "run example_json (\<lambda>_. ''p'') (\<lambda>_ _. ''h'')"
  let ?ts = "TSubmit 0 ''j'' ''/jobs'' ''{}'' # TSubscribe ''j'' # replicate 4 (TWorker (\<lambda>_. HttpStatus 200) 1 1 (Inr (Some 5)) 0)"
  obtain m js where m: "?run ?ts example_manager = Some (Inr m)"
    and w: "0 < length (workers m)" "w_stage (workers m ! 0) = WStored" "w_id (workers m ! 0) = ''j''"
    and js: "mem_Snapshot ''j'' (store m) = Some js" "Status js = JobCompleted"
    and ch: "0 \<in> subscribed m ''j''" "length (buf (chans m ! 0)) < 8"
    by (simp add: numeral_eq_Suc HandleSubmit_def example_manager_def NewAsyncJobManagerWithRetry_def newMemoryJobStore_def
        mem_Create_def mem_Update_def mem_Get_def mem_Snapshot_def set_job_def worker_step_def advance_def broadcast_def
        subscribe_def subscribed_def try_send_def chan_cap_def update_job_def new_job_def Let_def)
  have "subs_ok example_manager" "sem_ok example_manager" "callback example_manager \<noteq> None"
    by (simp_all add: example_manager_def NewAsyncJobManagerWithRetry_def subs_ok_def subscribed_def sem_ok_def running_def)
  then have "subs_ok m" using reachable_ok [OF run_reachable [OF m reachable.start]] by blast
  from subscribers_get_outcome [OF w js(1) this ch] m js(2) show ?thesis by blast
qed

text \<open>
  A status stream that subscribes after the workers have finished waits in vain: in every continuation without a new submission
  its channel stays empty.  Since \<open>HandleStatusSSE\<close> takes its snapshot before it subscribes, a job that finishes
  in between leaves the stream open without a final state.
\<close>

theorem late_subscriber_gets_nothing:
  assumes "workers m = []" and "list_all (\<lambda>t. \<not> submits t) ts"
    and "run J marshal hmac ts (snd (subscribe jid m)) = Some (Inr m')"
  shows "buf (chans m' ! fst (subscribe jid m)) = []"
  using idle_run [OF assms(3,2)] assms(1) by (simp add: subscribe_def Let_def)

theorem late_subscriber_gets_nothing_witness:
  "\<exists>m m'. run example_json (\<lambda>_. ''p'') (\<lambda>_ _. ''h'') (TSubmit 0 ''j'' ''/jobs'' ''{}'' # replicate 6 (TWorker (\<lambda>_. HttpStatus 200) 1 1 (Inr (Some 5)) 0)) example_manager =
       Some (Inr m) \<and> map_option Status (mem_Snapshot ''j'' (store m)) = Some JobCompleted \<and>
     run example_json (\<lambda>_. ''p'') (\<lambda>_ _. ''h'') [TReap 9 3, TCleanup 9 1] (snd (subscribe ''j'' m)) = Some (Inr m') \<and>
     buf (chans m' ! fst (subscribe ''j'' m)) = []"
proof -
  let ?run = "run example_json (\<lambda>_. ''p'') (\<lambda>_ _. ''h'')"
  obtain m where m: "?run (TSubmit 0 ''j'' ''/jobs'' ''{}'' # replicate 6 (TWorker (\<lambda>_. HttpStatus 200) 1 1 (Inr (Some 5)) 0)) example_manager = Some (Inr m)"
    "workers m = []" "map_option Status (mem_Snapshot ''j'' (store m)) = Some JobCompleted"
    by (simp add: numeral_eq_Suc HandleSubmit_def example_manager_def NewAsyncJobManagerWithRetry_def newMemoryJobStore_def
        mem_Create_def mem_Update_def mem_Get_def mem_Snapshot_def set_job_def worker_step_def advance_def broadcast_def
        notifyCallback_def update_job_def new_job_def Let_def)
  obtain m' where m': "?run [TReap 9 3, TCleanup 9 1] (snd (subscribe ''j'' m)) = Some (Inr m')" by simp
  from late_subscriber_gets_nothing [OF m(2) _ m'] m m' show ?thesis by auto
qed

text \<open>
  A configured callback is delivered as promised.  If the endpoint fails \<open>i\<close> times and then answers with a 2xx status, it is
  called \<open>i + 1\<close> times, or as often as the retry limit (3 unless set) allows; every call carries the same
  encoding of the job and, when a secret is set, a signature that \<open>VerifyCallbackSignature\<close> accepts.
\<close>

theorem callback_delivery:
  assumes "mem_Snapshot jid (store m) = Some js" and "CallbackURL js = ''''" and "callback m = Some cb" and "cbURL cb \<noteq> ''''"
    and "\<forall>j<i. fails (resp j)" and "succeeds (resp i)"
  shows "\<exists>msg delay. notifyCallback marshal hmac resp jid m =
      Inr (replicate (min (i + 1) (nat (if cbRetry cb \<le> 0 then 3 else cbRetry cb) + 1)) msg, delay) \<and> 0 < delay \<and>
    to_url msg = cbURL cb \<and> payload msg = marshal js \<and>
    (case signature msg of None \<Rightarrow> cbSecret cb = '''' | Some sig \<Rightarrow> VerifyCallbackSignature hmac (payload msg) (cbSecret cb) sig)"
proof -
  from assms(1) obtain r where "mem_Get jid (store m) = Some r" "heap (store m) ! r = js"
    by (auto simp: mem_Snapshot_def mem_Get_def split: option.splits)
  moreover have "callback_loop msg resp 0 n = replicate (min (i + 1) n) msg" for msg n
    using callback_loop_count [of i resp 0 n msg] assms(5,6) by (simp add: min_def)
  moreover have "nat (k + 1) = nat k + 1" if "0 < k" for k :: int using that by simp
  ultimately show ?thesis
    using assms(2-4) by (auto simp: notifyCallback_def Let_def VerifyCallbackSignature_def)
qed

theorem callback_delivery_witness:
  "\<exists>m msg delay. notifyCallback (\<lambda>_. ''p'') (\<lambda>_ _. ''h'') (\<lambda>j. if j < 2 then HttpStatus 500 else HttpStatus 204) ''j''
       (m :: nat manager) = Inr (replicate 3 msg, delay) \<and> 0 < delay \<and> to_url msg = ''http://cb''"
proof -
  let ?m = "example_manager\<lparr>store := snd (mem_Create 0 ''j'' newMemoryJobStore)\<rparr>"
  let ?resp = "\<lambda>j::nat. if j < 2 then HttpStatus 500 else HttpStatus 204"
  have "mem_Snapshot ''j'' (store ?m) = Some (new_job 0 ''j'')"
    by (simp add: mem_Create_def mem_Snapshot_def newMemoryJobStore_def)
  from callback_delivery [OF this, of "\<lparr>cbURL = ''http://cb'', cbSecret = ''k'', cbRetry = 0, cbRetryDelay = ''''\<rparr>" 2 ?resp "\<lambda>_. ''p''" "\<lambda>_ _. ''h''"]
  show ?thesis
    by (auto simp: new_job_def example_manager_def NewAsyncJobManagerWithRetry_def fails_def succeeds_def)
qed

text \<open>
  Without a callback section, a job submitted with its own \<open>_callback_url\<close> makes the worker that finishes it
  dereference a nil pointer, which ends the process.
\<close>

theorem callback_url_without_config_panics:
  assumes "callback m = None" and "mem_Snapshot jid (store m) = Some js" and "CallbackURL js \<noteq> ''''"
    and "i < length (workers m)" and "w_stage (workers m ! i) = WTold" and "w_id (workers m ! i) = jid"
  shows "worker_step marshal hmac resp t1 t2 res i m = Some (Inl NilDereference)"
  using assms
  by (auto simp: worker_step_def notifyCallback_def mem_Snapshot_def mem_Get_def Let_def split: option.splits)

theorem callback_url_without_config_panics_witness:
  "run example_json (\<lambda>_. ''p'') (\<lambda>_ _. ''h'')
     (TSubmit 0 ''j'' ''/jobs'' ''http://me'' # replicate 6 (TWorker (\<lambda>_. HttpStatus 200) 1 1 (Inr (Some 5)) 0))
     (NewAsyncJobManagerWithRetry (newMemoryJobStore :: nat memoryJobStore) True 0) = Some (Inl NilDereference)"
proof -
  let ?run = "run example_json (\<lambda>_. ''p'') (\<lambda>_ _. ''h'')"
  let ?t = "TWorker (\<lambda>_. HttpStatus 200) 1 1 (Inr (Some 5)) 0 :: nat transition"
  obtain m js where m: "?run (TSubmit 0 ''j'' ''/jobs'' ''http://me'' # replicate 5 ?t) (NewAsyncJobManagerWithRetry newMemoryJobStore True 0) = Some (Inr m)"
    and cb: "callback m = None" "mem_Snapshot ''j'' (store m) = Some js" "CallbackURL js \<noteq> ''''"
    and w: "0 < length (workers m)" "w_stage (workers m ! 0) = WTold" "w_id (workers m ! 0) = ''j''"
    by (simp add: numeral_eq_Suc HandleSubmit_def NewAsyncJobManagerWithRetry_def newMemoryJobStore_def
        mem_Create_def mem_Update_def mem_Get_def mem_Snapshot_def set_job_def worker_step_def advance_def broadcast_def
        update_job_def new_job_def Let_def)
  have app: "?run (ts @ [t]) x = (case ?run ts x of Some (Inr y) \<Rightarrow> exec example_json (\<lambda>_. ''p'') (\<lambda>_ _. ''h'') t y | r \<Rightarrow> r)"
    for ts t and x :: "nat manager"
    by (induction ts arbitrary: x) (auto split: option.splits sum.splits)
  have "TSubmit 0 ''j'' ''/jobs'' ''http://me'' # replicate 6 ?t = (TSubmit 0 ''j'' ''/jobs'' ''http://me'' # replicate 5 ?t) @ [?t]"
    by (simp add: numeral_eq_Suc)
  then show ?thesis
    using callback_url_without_config_panics [OF cb w] m by (simp only: app) simp
qed

end
