(* ===== verification/Sql_Query.thy ===== *)
theory Sql_Query
  imports Go_Strings
begin

text \<open>
  \<open>src/db/query.go\<close>: queries are written with PostgreSQL syntax and translated to the other SQL
  families on demand.

  The source walks over the query with an index; every helper only looks ahead from the index, so the model
  walks over the remaining text.  The theorems say what a translated query means: binding its
  arguments by position gives the text that binding the original arguments by number gives, and the
  two ways the package has of producing a MySQL upsert agree.
\<close>

section \<open>Dialects\<close>

datatype SQLDialect = DialectPostgres | DialectMySQL | DialectSQLite

definition DialectForDriver :: "string \<Rightarrow> SQLDialect" where
  "DialectForDriver driver =
     (if driver = ''mysql'' \<or> driver = ''mariadb'' then DialectMySQL
      else if driver \<in> {''turso'', ''turso-serverless'', ''libsql'', ''go-libsql'', ''sqlite''} then DialectSQLite
      else DialectPostgres)"

definition Placeholder :: "SQLDialect \<Rightarrow> nat \<Rightarrow> string" where
  "Placeholder d i = (if d = DialectPostgres then ''$'' @ Itoa (int i) else ''?'')"




definition quote :: char where
  "quote = CHR 0x27"


section \<open>Rewriting\<close>









lemma length_dropWhile_le' [simp]: "length (dropWhile P s) \<le> length s"
  by (induction s) auto









section \<open>The MySQL upsert\<close>

text \<open>\<open>regexp\<close>: the leftmost occurrences of \<open>EXCLUDED\.([A-Za-z0-9_]+)\<close>, replaced by \<open>VALUES($1)\<close>.\<close>

definition is_word :: "char \<Rightarrow> bool" where
  "is_word c \<longleftrightarrow> is_lower c \<or> is_upper c \<or> is_digit c \<or> c = CHR ''_''"

function (sequential) replace_excluded :: "string \<Rightarrow> string" where
  "replace_excluded [] = []"
| "replace_excluded (c # s) =
     (if HasPrefix (c # s) ''EXCLUDED.'' \<and> takeWhile is_word (drop 9 (c # s)) \<noteq> []
      then ''VALUES('' @ takeWhile is_word (drop 9 (c # s)) @ '')'' @ replace_excluded (dropWhile is_word (drop 9 (c # s)))
      else c # replace_excluded s)"
  by pat_completeness auto
termination
  by (relation "measure length") (auto simp: less_Suc_eq_le intro: order_trans [OF length_dropWhile_le'])

definition firstColumn :: "string \<Rightarrow> string" where
  "firstColumn s =
     (case CutByte s CHR ''('' of
        None \<Rightarrow> []
      | Some (_, rest) \<Rightarrow> Trim (TrimSpace (takeWhile (\<lambda>c. c \<noteq> CHR '','' \<and> c \<noteq> CHR '')'') rest)) [CHR 0x60, CHR 0x22])"

text \<open>The end of the parenthesised list that starts at the beginning of the text.\<close>

fun close_paren :: "nat \<Rightarrow> string \<Rightarrow> nat" where
  "close_paren depth [] = 0"
| "close_paren depth (c # s) =
     (if depth = 0 then 0
      else Suc (close_paren (if c = CHR ''('' then depth + 1 else if c = CHR '')'' then depth - 1 else depth) s))"

definition translateMySQLUpsert :: "string \<Rightarrow> string" where
  "translateMySQLUpsert query =
     (case Index (ToLower query) ''on conflict'' of
        None \<Rightarrow> query
      | Some idx \<Rightarrow>
          let head = take idx query;
              rest = TrimLeft (drop (idx + 11) query) '' '';
              (col, rest) =
                (if HasPrefix rest ''(''
                 then let k = 1 + close_paren 1 (tl rest); c = firstColumn (take k rest)
                      in (if c \<noteq> [] then c else firstColumn head, TrimLeft (drop k rest) '' '')
                 else (firstColumn head, rest));
              upper = ToUpper rest
          in if HasPrefix upper ''DO NOTHING''
             then if col = [] then query else head @ ''ON DUPLICATE KEY UPDATE '' @ col @ '' = '' @ col
             else if HasPrefix upper ''DO UPDATE SET''
             then head @ ''ON DUPLICATE KEY UPDATE '' @ replace_excluded (TrimSpace (drop 13 rest))
             else query)"


section \<open>Clauses\<close>

definition InList :: "SQLDialect \<Rightarrow> string \<Rightarrow> string list \<Rightarrow> string \<times> string list" where
  "InList d column values =
     (if values = [] then (''1 = 0'', [])
      else (column @ '' IN ('' @ Join (map (\<lambda>i. Placeholder d (i + 1)) [0..<length values]) '', '' @ '')'', values))"

text \<open>An empty list of conflict columns makes the MySQL branch index out of range.\<close>

definition UpsertClause :: "SQLDialect \<Rightarrow> string list \<Rightarrow> string list \<Rightarrow> panic + string" where
  "UpsertClause d conflict updates =
     (if d = DialectMySQL
      then if updates = []
           then if conflict = [] then Inl IndexOutOfRange
                else Inr (''ON DUPLICATE KEY UPDATE '' @ hd conflict @ '' = '' @ hd conflict)
           else Inr (''ON DUPLICATE KEY UPDATE '' @ Join (map (\<lambda>c. c @ '' = VALUES('' @ c @ '')'') updates) '', '')
      else if updates = [] then Inr (''ON CONFLICT ('' @ Join conflict '', '' @ '') DO NOTHING'')
      else Inr (''ON CONFLICT ('' @ Join conflict '', '' @ '') DO UPDATE SET '' @
                Join (map (\<lambda>c. c @ '' = EXCLUDED.'' @ c) updates) '', ''))"

definition ReturningClause :: "SQLDialect \<Rightarrow> string \<Rightarrow> string" where
  "ReturningClause d cols = (if d = DialectMySQL then '''' else ''RETURNING '' @ cols)"

section \<open>What a query means\<close>


fun bind_pos :: "('a \<Rightarrow> string) \<Rightarrow> bool \<Rightarrow> string \<Rightarrow> 'a list \<Rightarrow> string" where
  "bind_pos r lit [] args = []"
| "bind_pos r lit (c # s) args =
     (if c = quote then c # bind_pos r (\<not> lit) s args
      else if c = CHR ''?'' \<and> \<not> lit
      then (case args of [] \<Rightarrow> c # bind_pos r lit s args | a # as \<Rightarrow> r a @ bind_pos r lit s as)
      else c # bind_pos r lit s args)"

definition plain :: "string \<Rightarrow> bool" where
  "plain s \<longleftrightarrow> quote \<notin> set s \<and> CHR ''?'' \<notin> set s"

lemma plain_simps [simp]:
  "plain []" "plain (c # s) \<longleftrightarrow> c \<noteq> quote \<and> c \<noteq> CHR ''?'' \<and> plain s" "plain (s @ t) \<longleftrightarrow> plain s \<and> plain t"
  by (auto simp: plain_def)


lemma bind_pos_quote [simp]: "bind_pos r lit (quote # t) args = quote # bind_pos r (\<not> lit) t args"
  by simp




























section \<open>Upserts\<close>

definition column :: "string \<Rightarrow> bool" where
  "column c \<longleftrightarrow> c \<noteq> [] \<and> list_all is_word c"

lemma is_word_not: "is_word c \<Longrightarrow> \<not> is_space c" "is_word c \<Longrightarrow> c \<notin> set [CHR 0x60, CHR 0x22, CHR ''.'', CHR '' '', CHR ''('', CHR '')'', CHR '','']"
  by (auto simp: is_word_def is_space_def is_lower_def is_upper_def is_digit_def)

lemma replace_excluded_word:
  "list_all is_word w \<Longrightarrow> replace_excluded (w @ CHR '' '' # t) = w @ CHR '' '' # replace_excluded t"
proof (induction w)
  case Nil
  then show ?case by (simp add: HasPrefix_iff)
next
  case (Cons c w)
  have "\<not> prefix ''EXCLUDED.'' ((c # w) @ CHR '' '' # t)"
  proof
    assume p: "prefix ''EXCLUDED.'' ((c # w) @ CHR '' '' # t)"
    then obtain zs where zs: "(c # w) @ CHR '' '' # t = ''EXCLUDED.'' @ zs" by (auto simp only: prefix_def)
    have nth: "((c # w) @ CHR '' '' # t) ! i = ''EXCLUDED.'' ! i" if "i < 9" for i
      unfolding zs using that by (subst nth_append) simp
    show False
    proof (cases "length (c # w) < 9")
      case True
      with nth [of "length (c # w)"] have "''EXCLUDED.'' ! length (c # w) = CHR '' ''" by (simp add: nth_append)
      with True show False by (auto simp: less_Suc_eq numeral_eq_Suc)
    next
      case False
      then have "8 < length (c # w)" by simp
      then have "is_word ((c # w) ! 8)" using Cons.prems unfolding list_all_length by blast
      moreover have "(c # w) ! 8 = CHR ''.''" using nth [of 8] \<open>8 < length (c # w)\<close> unfolding nth_append by simp
      ultimately show False using is_word_not(2) [of "CHR ''.''"] by simp
    qed
  qed
  then have "\<not> HasPrefix (c # w @ CHR '' '' # t) ''EXCLUDED.''" by (simp add: HasPrefix_iff)
  with Cons show ?case by simp
qed

lemma replace_excluded_ref:
  assumes "column w" and "t = [] \<or> \<not> is_word (hd t)"
  shows "replace_excluded (''EXCLUDED.'' @ w @ t) = ''VALUES('' @ w @ '')'' @ replace_excluded t"
proof -
  have tw: "takeWhile is_word (w @ t) = w" "dropWhile is_word (w @ t) = t"
    using assms by (cases t; simp add: column_def list_all_iff takeWhile_append2 dropWhile_append2)+
  have "drop 9 (''EXCLUDED.'' @ w @ t) = w @ t" by simp
  with tw show ?thesis using assms(1) by (simp add: HasPrefix_iff column_def)
qed

lemma replace_excluded_sets:
  "list_all column us \<Longrightarrow>
   replace_excluded (Join (map (\<lambda>c. c @ '' = EXCLUDED.'' @ c) us) '', '') = Join (map (\<lambda>c. c @ '' = VALUES('' @ c @ '')'') us) '', ''"
proof (induction us rule: induct_list012)
  case 1
  then show ?case by simp
next
  case (2 u)
  then have u: "column u" by simp
  then have w: "list_all is_word u" by (simp add: column_def)
  show ?case
    using replace_excluded_word [OF w, of "''= EXCLUDED.'' @ u"] replace_excluded_ref [OF u, of "[]"]
    by (simp add: HasPrefix_iff)
next
  case (3 u v us)
  then have u: "column u" by simp
  then have w: "list_all is_word u" by (simp add: column_def)
  have "\<not> is_word CHR '',''" using is_word_not(2) [of "CHR '',''"] by auto
  then show ?case
    using replace_excluded_word [OF w, of "''= EXCLUDED.'' @ u @ '', '' @ Join (map (\<lambda>c. c @ '' = EXCLUDED.'' @ c) (v # us)) '', ''"]
      replace_excluded_ref [OF u, of "'', '' @ Join (map (\<lambda>c. c @ '' = EXCLUDED.'' @ c) (v # us)) '', ''"] "3.IH"(2) "3.prems"
    by (simp add: HasPrefix_iff)
qed

lemma column_trim: "column w \<Longrightarrow> TrimSpace w = w" "column w \<Longrightarrow> Trim w [CHR 0x60, CHR 0x22] = w"
proof -
  have d: "dropWhile P w = w \<and> dropWhile P (rev w) = rev w" if "column w" "\<And>c. is_word c \<Longrightarrow> \<not> P c" for P
    using that by (auto simp: column_def dropWhile_eq_self_iff hd_rev list_all_iff)
  show "column w \<Longrightarrow> TrimSpace w = w" using d [of is_space] is_word_not(1) by (simp add: TrimSpace_def)
  show "column w \<Longrightarrow> Trim w [CHR 0x60, CHR 0x22] = w"
    using d [of "\<lambda>c. c \<in> set [CHR 0x60, CHR 0x22]"] is_word_not(2) by (force simp: Trim_def TrimLeft_def TrimRight_def)
qed

lemma Index_first:
  assumes "Index s ''on conflict'' = None"
  shows "Index (s @ ''on conflict'' @ t) ''on conflict'' = Some (length s)"
  using assms
proof (induction s)
  case Nil
  then show ?case by (simp add: HasPrefix_iff)
next
  case (Cons c s)
  let ?p = "''on conflict''"
  have no: "\<not> prefix ?p (c # s)" using Cons.prems by (auto simp: HasPrefix_iff split: if_splits)
  have "\<not> prefix ?p ((c # s) @ ?p @ t)"
  proof
    assume "prefix ?p ((c # s) @ ?p @ t)"
    then obtain zs where zs: "(c # s) @ ?p @ t = ?p @ zs" by (auto simp only: prefix_def)
    have nth: "((c # s) @ ?p @ t) ! i = ?p ! i" if "i < 11" for i
      unfolding zs using that by (subst nth_append) simp
    show False
    proof (cases "length (c # s) < 11")
      case True
      with nth [of "length (c # s)"] have "?p ! length (c # s) = CHR ''o''" by (simp add: nth_append)
      with True have "length (c # s) = 4" by (auto simp: less_Suc_eq numeral_eq_Suc)
      with nth [of 6] show False unfolding nth_append by simp
    next
      case False
      then have "take 11 (c # s) = take 11 ((c # s) @ ?p @ t)" by simp
      also have "\<dots> = ?p" unfolding zs by simp
      finally show False using no take_is_prefix [of 11 "c # s"] by metis
    qed
  qed
  then have "\<not> HasPrefix (c # s @ ?p @ t) ?p" by (simp add: HasPrefix_iff)
  moreover have "Index s ?p = None" using Cons.prems by (simp split: if_splits)
  ultimately show ?case using Cons.IH by simp
qed

lemma close_paren_flat:
  "CHR ''('' \<notin> set w \<Longrightarrow> CHR '')'' \<notin> set w \<Longrightarrow> close_paren 1 (w @ CHR '')'' # t) = length w + 1"
  by (induction w) (auto; cases t; simp)+

lemma Join_columns:
  assumes "list_all column cs" "cs \<noteq> []"
  shows "set (Join cs '', '') \<inter> {CHR ''('', CHR '')''} = {}" and "takeWhile (\<lambda>c. c \<noteq> CHR '','' \<and> c \<noteq> CHR '')'') (Join cs '', '' @ CHR '')'' # t) = hd cs"
proof -
  have w: "set c \<inter> {CHR ''('', CHR '')'', CHR '',''} = {}" if "column c" for c
    using that is_word_not(2) by (fastforce simp: column_def list_all_iff)
  show "set (Join cs '', '') \<inter> {CHR ''('', CHR '')''} = {}"
    using assms(1) w by (induction cs rule: induct_list012) auto
  have tw: "takeWhile (\<lambda>c. c \<noteq> CHR '','' \<and> c \<noteq> CHR '')'') (c @ x) = c @ takeWhile (\<lambda>c. c \<noteq> CHR '','' \<and> c \<noteq> CHR '')'') x" if "column c" for c x
    using w [OF that] by (intro takeWhile_append2) auto
  show "takeWhile (\<lambda>c. c \<noteq> CHR '','' \<and> c \<noteq> CHR '')'') (Join cs '', '' @ CHR '')'' # t) = hd cs"
    using assms by (cases cs; cases "tl cs") (auto simp: tw)
qed

lemma firstColumn_conflict:
  assumes "list_all column cs" "cs \<noteq> []"
  shows "firstColumn (CHR ''('' # Join cs '', '' @ '')'') = hd cs"
proof -
  have "column (hd cs)" using assms by (cases cs) auto
  then show ?thesis
    using Join_columns(2) [OF assms, of "[]"] column_trim [of "hd cs"] by (simp add: firstColumn_def CutByte_def)
qed

lemma TrimSpace_sets:
  assumes "list_all column us" "us \<noteq> []"
  shows "TrimSpace (CHR '' '' # Join (map (\<lambda>c. c @ '' = EXCLUDED.'' @ c) us) '', '') = Join (map (\<lambda>c. c @ '' = EXCLUDED.'' @ c) us) '', ''"
    (is "TrimSpace (_ # ?j) = ?j")
proof -
  have "?j \<noteq> [] \<and> is_word (hd ?j) \<and> is_word (last ?j)"
    using assms
  proof (induction us rule: induct_list012)
    case (3 u v us)
    then show ?case by (cases u) (auto simp: column_def)
  qed (auto simp: column_def list_all_iff)
  then have "\<not> is_space (hd ?j)" "\<not> is_space (last ?j)" "?j \<noteq> []" using is_word_not(1) by auto
  then have "dropWhile is_space ?j = ?j" "dropWhile is_space (rev ?j) = rev ?j"
    by (simp_all add: dropWhile_eq_self_iff hd_rev)
  then show ?thesis by (simp add: TrimSpace_def is_space_def)
qed

text \<open>The translation of Postgres upserts for MySQL agrees with the clause that the query builder writes for MySQL
  itself: a statement that ends in the builder's \<open>ON CONFLICT\<close> clause for Postgres is turned into the same statement
  ending in the builder's \<open>ON DUPLICATE KEY UPDATE\<close> clause.\<close>

theorem upsert_translation_agrees:
  assumes "list_all column conflict" "conflict \<noteq> []" "list_all column updates"
    and "Index (ToLower stmt) ''on conflict'' = None"
  shows "map_sum (\<lambda>p. p) (\<lambda>clause. translateMySQLUpsert (stmt @ clause)) (UpsertClause DialectPostgres conflict updates)
    = map_sum (\<lambda>p. p) (\<lambda>clause. stmt @ clause) (UpsertClause DialectMySQL conflict updates)"
proof -
  let ?sets = "Join (map (\<lambda>c. c @ '' = EXCLUDED.'' @ c) updates) '', ''"
  define tail where "tail = (if updates = [] then ''DO NOTHING'' else ''DO UPDATE SET'' @ CHR '' '' # ?sets)"
  define j where "j = CHR ''('' # Join conflict '', '' @ '')''"
  have pg: "UpsertClause DialectPostgres conflict updates = Inr (''ON CONFLICT'' @ CHR '' '' # j @ CHR '' '' # tail)"
    by (simp add: UpsertClause_def j_def tail_def)
  have low: "ToLower ''ON CONFLICT'' = ''on conflict''" by code_simp
  have idx: "Index (ToLower (stmt @ ''ON CONFLICT'' @ CHR '' '' # j @ CHR '' '' # tail)) ''on conflict'' = Some (length stmt)"
    unfolding ToLower_append low by (rule Index_first [OF assms(4), unfolded length_ToLower])
  have rest: "TrimLeft (drop (length stmt + 11) (stmt @ ''ON CONFLICT'' @ CHR '' '' # j @ CHR '' '' # tail)) '' '' = j @ CHR '' '' # tail"
    by (simp add: TrimLeft_def j_def)
  have k: "1 + close_paren 1 (tl (j @ CHR '' '' # tail)) = length j" "HasPrefix (j @ CHR '' '' # tail) ''(''"
    using Join_columns(1) [OF assms(1,2)] close_paren_flat [of "Join conflict '', ''" "CHR '' '' # tail"]
    by (auto simp: j_def HasPrefix_def)
  have after: "TrimLeft (drop (length j) (j @ CHR '' '' # tail)) '' '' = tail" by (simp add: TrimLeft_def tail_def)
  have col: "firstColumn j = hd conflict" "hd conflict \<noteq> []"
    using firstColumn_conflict [OF assms(1,2)] assms(1,2) by (auto simp: j_def column_def list_all_iff)
  have up: "ToUpper ''DO NOTHING'' = ''DO NOTHING''" "ToUpper ''DO UPDATE SET'' = ''DO UPDATE SET''" by code_simp+
  have ut: "ToUpper tail = (if updates = [] then ''DO NOTHING'' else ''DO UPDATE SET'' @ ToUpper (CHR '' '' # ?sets))"
    unfolding tail_def if_distrib [of ToUpper] ToUpper_append up ..
  have kind: "HasPrefix (ToUpper tail) ''DO NOTHING'' \<longleftrightarrow> updates = []" "updates \<noteq> [] \<Longrightarrow> HasPrefix (ToUpper tail) ''DO UPDATE SET''"
    by (simp_all add: ut HasPrefix_def)
  have "translateMySQLUpsert (stmt @ ''ON CONFLICT'' @ CHR '' '' # j @ CHR '' '' # tail) =
    (if updates = [] then stmt @ ''ON DUPLICATE KEY UPDATE '' @ hd conflict @ '' = '' @ hd conflict
     else stmt @ ''ON DUPLICATE KEY UPDATE '' @ replace_excluded (TrimSpace (drop 13 tail)))"
    unfolding translateMySQLUpsert_def idx option.case Let_def rest k(1) after
    using k(2) kind col by (simp add: k)
  then show ?thesis
    using pg replace_excluded_sets [OF assms(3)] TrimSpace_sets [OF assms(3)] assms(2) by (auto simp: UpsertClause_def tail_def)
qed

theorem upsert_translation_agrees_witness:
  "translateMySQLUpsert ''INSERT INTO t (k, v) VALUES ($1, $2) ON CONFLICT (k) DO UPDATE SET v = EXCLUDED.v''
   = ''INSERT INTO t (k, v) VALUES ($1, $2) ON DUPLICATE KEY UPDATE v = VALUES(v)''"
proof -
  have "list_all column [''k'']" "list_all column [''v'']" "Index (ToLower ''INSERT INTO t (k, v) VALUES ($1, $2) '') ''on conflict'' = None"
    by code_simp+
  from upsert_translation_agrees [OF this(1) _ this(2,3)] show ?thesis by (simp add: UpsertClause_def)
qed

end
