(* ===== verification/Single_Flight.thy ===== *)
theory Single_Flight
  imports Go_Prelude
begin

text \<open>
  Calls shared by key (\<open>src/infra/syncx/singleflight.go\<close>) and the resource manager built on them
  (\<open>resourcemanager.go\<close>). Callers are goroutines: the critical sections under the mutex are atomic steps, and the
  theorems hold for every interleaving. The function a caller passes is a parameter, a small program whose steps may
  read and write a shared state.
\<close>

section \<open>Shared calls\<close>

text \<open>
  A call in flight: the counter of its wait group, and its result, a value with an error; \<^const>\<open>None\<close> is the zero
  value of both fields.
\<close>

record 'v call =
  wg :: nat
  call_result :: "'v option"

text \<open>
  Where a caller is: waiting for the wait group of another call, running the function (with the function's own state),
  with the result stored and in the deferred function, out of the map and before \<open>wg.Done\<close>, or finished with a result that
  is fresh or shared. A function that panics stores nothing.
\<close>

datatype ('p, 'v) caller =
    Waiting string nat
  | Calling string nat 'p
  | Returned string nat "'v option"
  | Leaving string nat "'v option"
  | Finished string "'v option" bool

record ('p, 'v) flightGroup =
  calls :: "(string, nat) gomap"
  call_heap :: "'v call list"
  callers :: "('p, 'v) caller list"

definition NewSingleFlight :: "('p, 'v) flightGroup" where
  "NewSingleFlight = \<lparr>calls = [], call_heap = [], callers = []\<rparr>"

text \<open>\<open>createCall\<close>, up to the wait.\<close>

definition createCall :: "string \<Rightarrow> ('p, 'v) flightGroup \<Rightarrow> (nat \<times> bool) \<times> ('p, 'v) flightGroup" where
  "createCall key g = (case gm_get (calls g) key of
     Some c \<Rightarrow> ((c, True), g)
   | None \<Rightarrow> let c = length (call_heap g) in
       ((c, False), g\<lparr>call_heap := call_heap g @ [\<lparr>wg = 1, call_result = None\<rparr>], calls := gm_set key c (calls g)\<rparr>))"

definition put_caller :: "nat \<Rightarrow> ('p, 'v) caller \<Rightarrow> ('p, 'v) flightGroup \<Rightarrow> ('p, 'v) flightGroup" where
  "put_caller t x g = g\<lparr>callers := (callers g)[t := x]\<rparr>"

text \<open>The parts of \<open>Do\<close> and \<open>makeCall\<close>: entering, storing the result, the two halves of the deferred function, and waking up.\<close>

definition flight_enter :: "'p \<Rightarrow> string \<Rightarrow> ('p, 'v) flightGroup \<Rightarrow> ('p, 'v) flightGroup" where
  "flight_enter p0 key g = (case createCall key g of ((c, done), g') \<Rightarrow>
     g'\<lparr>callers := callers g' @ [if done then Waiting key c else Calling key c p0]\<rparr>)"

definition flight_store :: "nat \<Rightarrow> 'v option \<Rightarrow> ('p, 'v) flightGroup \<Rightarrow> ('p, 'v) flightGroup" where
  "flight_store c r g = g\<lparr>call_heap := (call_heap g)[c := (call_heap g ! c)\<lparr>call_result := r\<rparr>]\<rparr>"

definition flight_delete :: "string \<Rightarrow> ('p, 'v) flightGroup \<Rightarrow> ('p, 'v) flightGroup" where
  "flight_delete key g = g\<lparr>calls := gm_del key (calls g)\<rparr>"

definition flight_done :: "nat \<Rightarrow> ('p, 'v) flightGroup \<Rightarrow> ('p, 'v) flightGroup" where
  "flight_done c g = g\<lparr>call_heap := (call_heap g)[c := (call_heap g ! c)\<lparr>wg := wg (call_heap g ! c) - 1\<rparr>]\<rparr>"

text \<open>
  The function of the callers: its initial state, its steps on its own and the shared state, and when it returns with
  what (a panic returns \<^const>\<open>None\<close>); and the steps others take on the shared state.
\<close>

record ('p, 's, 'v) fn =
  fn_init :: 'p
  fn_step :: "string \<Rightarrow> 'p \<Rightarrow> 's \<Rightarrow> 'p \<Rightarrow> 's \<Rightarrow> bool"
  fn_ret :: "'p \<Rightarrow> 'v option \<Rightarrow> bool"
  fn_env :: "'s \<Rightarrow> 's \<Rightarrow> bool"

datatype 'v flight_event = EvCall nat string | EvReturn nat string "'v option" | EvLeave nat string | EvResult nat "'v option" bool | EvFn nat | EvEnv

inductive flight_step :: "('p, 's, 'v) fn \<Rightarrow> ('p, 'v) flightGroup \<times> 's \<Rightarrow> 'v flight_event \<Rightarrow> ('p, 'v) flightGroup \<times> 's \<Rightarrow> bool" for F where
  fl_call: "flight_step F (g, s) (EvCall (length (callers g)) key) (flight_enter (fn_init F) key g, s)"
| fl_fn: "t < length (callers g) \<Longrightarrow> callers g ! t = Calling key c p \<Longrightarrow> fn_step F key p s p' s' \<Longrightarrow>
    flight_step F (g, s) (EvFn t) (put_caller t (Calling key c p') g, s')"
| fl_return: "t < length (callers g) \<Longrightarrow> callers g ! t = Calling key c p \<Longrightarrow> fn_ret F p r \<Longrightarrow>
    flight_step F (g, s) (EvReturn t key r) (put_caller t (Returned key c r) (flight_store c r g), s)"
| fl_leave: "t < length (callers g) \<Longrightarrow> callers g ! t = Returned key c r \<Longrightarrow>
    flight_step F (g, s) (EvLeave t key) (put_caller t (Leaving key c r) (flight_delete key g), s)"
| fl_done: "t < length (callers g) \<Longrightarrow> callers g ! t = Leaving key c r \<Longrightarrow>
    flight_step F (g, s) (EvResult t r True) (put_caller t (Finished key r True) (flight_done c g), s)"
| fl_wake: "t < length (callers g) \<Longrightarrow> callers g ! t = Waiting key c \<Longrightarrow> wg (call_heap g ! c) = 0 \<Longrightarrow>
    flight_step F (g, s) (EvResult t (call_result (call_heap g ! c)) False) (put_caller t (Finished key (call_result (call_heap g ! c)) False) g, s)"
| fl_env: "fn_env F s s' \<Longrightarrow> flight_step F (g, s) EvEnv (g, s')"

inductive flight_run :: "('p, 's, 'v) fn \<Rightarrow> 's \<Rightarrow> 'v flight_event list \<Rightarrow> ('p, 'v) flightGroup \<times> 's \<Rightarrow> bool" for F s0 where
  flight_start: "flight_run F s0 [] (NewSingleFlight, s0)"
| flight_more: "flight_run F s0 tr gs \<Longrightarrow> flight_step F gs e gs' \<Longrightarrow> flight_run F s0 (tr @ [e]) gs'"

subsection \<open>The invariant\<close>

definition runs :: "('p, 'v) caller \<Rightarrow> string \<Rightarrow> nat \<Rightarrow> bool" where
  "runs x key c \<longleftrightarrow> (\<exists>p. x = Calling key c p) \<or> (\<exists>r. x = Returned key c r)"

definition leads :: "('p, 'v) caller \<Rightarrow> nat \<Rightarrow> bool" where
  "leads x c \<longleftrightarrow> (\<exists>key. runs x key c \<or> (\<exists>r. x = Leaving key c r))"

definition shared :: "'v flight_event list \<Rightarrow> nat \<Rightarrow> string \<Rightarrow> 'v option \<Rightarrow> bool" where
  "shared tr t key r \<longleftrightarrow> (\<exists>u xs ys. tr = xs @ EvLeave u key # ys \<and> EvCall t key \<in> set xs \<and> EvReturn u key r \<in> set xs)"

definition some_caller :: "(('p, 'v) caller \<Rightarrow> bool) \<Rightarrow> ('p, 'v) caller list \<Rightarrow> bool" where
  "some_caller P xs \<longleftrightarrow> (\<exists>t<length xs. P (xs ! t))"

text \<open>What the trace says of one caller.\<close>

fun caller_ok :: "'v flight_event list \<Rightarrow> ('p, 'v) flightGroup \<Rightarrow> nat \<Rightarrow> ('p, 'v) caller \<Rightarrow> bool" where
  "caller_ok tr g t (Waiting key c) \<longleftrightarrow> EvCall t key \<in> set tr \<and> c < length (call_heap g) \<and>
     (if some_caller (\<lambda>x. \<exists>k. runs x k c) (callers g) then some_caller (\<lambda>x. runs x key c) (callers g)
      else shared tr t key (call_result (call_heap g ! c)))"
| "caller_ok tr g t (Calling key c p) \<longleftrightarrow> EvCall t key \<in> set tr \<and> c < length (call_heap g)"
| "caller_ok tr g t (Returned key c r) \<longleftrightarrow> EvReturn t key r \<in> set tr \<and> c < length (call_heap g) \<and> call_result (call_heap g ! c) = r"
| "caller_ok tr g t (Leaving key c r) \<longleftrightarrow> EvReturn t key r \<in> set tr \<and> c < length (call_heap g)"
| "caller_ok tr g t (Finished key r fresh) \<longleftrightarrow> (if fresh then EvReturn t key r \<in> set tr else shared tr t key r)"

definition callers_ok :: "'v flight_event list \<Rightarrow> ('p, 'v) flightGroup \<Rightarrow> bool" where
  "callers_ok tr g \<longleftrightarrow> (\<forall>t<length (callers g). caller_ok tr g t (callers g ! t))"

definition one_leader :: "('p, 'v) caller list \<Rightarrow> bool" where
  "one_leader xs \<longleftrightarrow> (\<forall>t<length xs. \<forall>u<length xs. \<forall>c. leads (xs ! t) c \<longrightarrow> leads (xs ! u) c \<longrightarrow> t = u)"

definition counters_ok :: "'v call list \<Rightarrow> ('p, 'v) caller list \<Rightarrow> bool" where
  "counters_ok h xs \<longleftrightarrow> (\<forall>c<length h. wg (h ! c) = (if some_caller (\<lambda>x. leads x c) xs then 1 else 0))"

definition map_ok :: "(string, nat) gomap \<Rightarrow> ('p, 'v) caller list \<Rightarrow> bool" where
  "map_ok m xs \<longleftrightarrow> (\<forall>key c. gm_get m key = Some c \<longleftrightarrow> some_caller (\<lambda>x. runs x key c) xs)"

definition flight_ok :: "'v flight_event list \<Rightarrow> ('p, 'v) flightGroup \<Rightarrow> bool" where
  "flight_ok tr g \<longleftrightarrow> callers_ok tr g \<and> one_leader (callers g) \<and> counters_ok (call_heap g) (callers g) \<and> map_ok (calls g) (callers g)"

named_theorems flight_simps

lemma runs_simps [flight_simps]:
  "\<not> runs (Waiting k d) key c" "runs (Calling k d p) key c \<longleftrightarrow> k = key \<and> d = c" "runs (Returned k d r) key c \<longleftrightarrow> k = key \<and> d = c"
  "\<not> runs (Leaving k d r) key c" "\<not> runs (Finished k r b) key c"
  by (auto simp: runs_def)

lemma leads_simps [flight_simps]:
  "\<not> leads (Waiting k d) c" "leads (Calling k d p) c \<longleftrightarrow> d = c" "leads (Returned k d r) c \<longleftrightarrow> d = c" "leads (Leaving k d r) c \<longleftrightarrow> d = c"
  "\<not> leads (Finished k r b) c"
  by (auto simp: leads_def runs_simps)

lemma runs_leads: "runs x key c \<Longrightarrow> leads x c"
  by (auto simp: leads_def)

lemma some_caller_update:
  assumes "t < length xs"
  shows "some_caller P (xs[t := x]) \<longleftrightarrow> P x \<or> (\<exists>u<length xs. u \<noteq> t \<and> P (xs ! u))"
    "some_caller P xs \<longleftrightarrow> P (xs ! t) \<or> (\<exists>u<length xs. u \<noteq> t \<and> P (xs ! u))"
  using assms by (auto simp: some_caller_def nth_list_update)

lemma some_caller_same: "t < length xs \<Longrightarrow> P x \<longleftrightarrow> P (xs ! t) \<Longrightarrow> some_caller P (xs[t := x]) \<longleftrightarrow> some_caller P xs"
  using some_caller_update(1) [of t xs P x] some_caller_update(2) [of t xs P] by blast

lemma some_caller_snoc: "some_caller P (xs @ [x]) \<longleftrightarrow> P x \<or> some_caller P xs"
  unfolding some_caller_def length_append_singleton less_Suc_eq by (metis nth_append nth_append_length)

lemma some_callerI: "t < length xs \<Longrightarrow> P (xs ! t) \<Longrightarrow> some_caller P xs"
  by (auto simp: some_caller_def)

lemma one_leader_same:
  assumes "one_leader xs" "t < length xs" "\<And>c. leads x c \<Longrightarrow> leads (xs ! t) c"
  shows "one_leader (xs[t := x])"
  unfolding one_leader_def
proof (intro allI impI)
  fix u v c assume uv: "u < length (xs[t := x])" "v < length (xs[t := x])" "leads (xs[t := x] ! u) c" "leads (xs[t := x] ! v) c"
  have "leads (xs ! w) c" if "leads (xs[t := x] ! w) c" for w
    using that assms(2,3) by (cases "w = t") simp_all
  then have "leads (xs ! u) c" "leads (xs ! v) c" using uv(3,4) by blast+
  then show "u = v" using assms(1) uv(1,2) unfolding one_leader_def length_list_update by blast
qed

lemma one_leaderD: "one_leader xs \<Longrightarrow> t < length xs \<Longrightarrow> u < length xs \<Longrightarrow> leads (xs ! t) c \<Longrightarrow> leads (xs ! u) c \<Longrightarrow> t = u"
  unfolding one_leader_def by blast

lemma shared_snoc: "shared tr t key r \<Longrightarrow> shared (tr @ [e]) t key r"
  unfolding shared_def by (metis append.assoc append_Cons)

lemma shared_leave: "EvCall t key \<in> set tr \<Longrightarrow> EvReturn u key r \<in> set tr \<Longrightarrow> shared (tr @ [EvLeave u key]) t key r"
  unfolding shared_def by blast

text \<open>Nothing that a caller's record says is lost when others move.\<close>

lemma caller_ok_mono:
  assumes "caller_ok tr g t x" "length (call_heap g) \<le> length (call_heap g')"
    "\<And>c. c < length (call_heap g) \<Longrightarrow> some_caller (\<lambda>x. \<exists>k. runs x k c) (callers g') \<longleftrightarrow> some_caller (\<lambda>x. \<exists>k. runs x k c) (callers g)"
    "\<And>key c. c < length (call_heap g) \<Longrightarrow> some_caller (\<lambda>x. runs x key c) (callers g') \<longleftrightarrow> some_caller (\<lambda>x. runs x key c) (callers g)"
    "\<And>c. c < length (call_heap g) \<Longrightarrow> \<not> some_caller (\<lambda>x. \<exists>k. runs x k c) (callers g) \<or> (\<exists>k r. x = Returned k c r) \<Longrightarrow>
       call_result (call_heap g' ! c) = call_result (call_heap g ! c)"
  shows "caller_ok (tr @ [e]) g' t x"
proof (cases x)
  case (Waiting key c)
  have c: "c < length (call_heap g)" using assms(1) by (simp add: Waiting)
  show ?thesis
  proof (cases "some_caller (\<lambda>x. \<exists>k. runs x k c) (callers g)")
    case True
    then show ?thesis using assms(1,2) assms(3,4) [OF c] by (simp add: Waiting)
  next
    case False
    then show ?thesis using assms(1,2) assms(3) [OF c] assms(5) [OF c] by (simp add: Waiting shared_snoc)
  qed
next
  case (Returned key c r)
  then show ?thesis using assms(1,2) assms(5) [of c] by simp
qed (use assms(1,2) shared_snoc in auto)


lemma flight_okD:
  assumes "flight_ok tr g"
  shows "t < length (callers g) \<Longrightarrow> caller_ok tr g t (callers g ! t)" "one_leader (callers g)"
    "counters_ok (call_heap g) (callers g)" "map_ok (calls g) (callers g)"
  using assms unfolding flight_ok_def callers_ok_def by blast+

text \<open>A step of one caller that changes nothing others rely on.\<close>

lemma flight_ok_same:
  assumes ok: "flight_ok tr g" and t: "t < length (callers g)"
    and same: "\<And>key c. runs x key c \<longleftrightarrow> runs (callers g ! t) key c" "\<And>c. leads x c \<longleftrightarrow> leads (callers g ! t) c"
    and x: "caller_ok (tr @ [e]) g' t x"
    and g': "callers g' = (callers g)[t := x]" "calls g' = calls g" "length (call_heap g') = length (call_heap g)"
      "\<And>c. wg (call_heap g' ! c) = wg (call_heap g ! c)"
      "\<And>c. c < length (call_heap g) \<Longrightarrow> \<not> (\<exists>k. runs (callers g ! t) k c) \<Longrightarrow> call_result (call_heap g' ! c) = call_result (call_heap g ! c)"
  shows "flight_ok (tr @ [e]) g'"
proof -
  note r = some_caller_same [OF t]
  have runs: "some_caller (\<lambda>x. runs x key c) (callers g') = some_caller (\<lambda>x. runs x key c) (callers g)"
    "some_caller (\<lambda>x. \<exists>k. runs x k c) (callers g') = some_caller (\<lambda>x. \<exists>k. runs x k c) (callers g)"
    "some_caller (\<lambda>x. leads x c) (callers g') = some_caller (\<lambda>x. leads x c) (callers g)" for key c
    unfolding g'(1) by (rule r, simp add: same)+
  have "caller_ok (tr @ [e]) g' u (callers g' ! u)" if u: "u < length (callers g')" for u
  proof (cases "u = t")
    case True
    then show ?thesis using x t by (simp add: g'(1))
  next
    case False
    have u': "u < length (callers g)" using u by (simp add: g'(1))
    have "call_result (call_heap g' ! c) = call_result (call_heap g ! c)"
      if c: "c < length (call_heap g)" "\<not> some_caller (\<lambda>x. \<exists>k. runs x k c) (callers g) \<or> (\<exists>k r. callers g ! u = Returned k c r)" for c
    proof (rule g'(5) [OF c(1)], rule notI)
      assume "\<exists>k. runs (callers g ! t) k c"
      then have "leads (callers g ! t) c" "some_caller (\<lambda>x. \<exists>k. runs x k c) (callers g)"
        using runs_leads some_callerI [OF t, of "\<lambda>x. \<exists>k. runs x k c"] by blast+
      moreover from this(2) c(2) have "leads (callers g ! u) c" by (auto simp: leads_simps)
      ultimately show False using one_leaderD [OF flight_okD(2) [OF ok] t u'] False by simp
    qed
    then have "caller_ok (tr @ [e]) g' u (callers g ! u)"
      using caller_ok_mono [OF flight_okD(1) [OF ok u'], of g' e] runs g'(3) by simp
    then show ?thesis using False by (simp add: g'(1))
  qed
  moreover have "one_leader (callers g')" unfolding g'(1) by (rule one_leader_same [OF flight_okD(2) [OF ok] t]) (simp add: same)
  moreover have "counters_ok (call_heap g') (callers g')" using flight_okD(3) [OF ok] unfolding counters_ok_def runs g'(3,4) .
  moreover have "map_ok (calls g') (callers g')" using flight_okD(4) [OF ok] unfolding map_ok_def runs g'(2) .
  ultimately show ?thesis unfolding flight_ok_def callers_ok_def by blast
qed

lemma ok_fn:
  assumes "flight_ok tr g" "t < length (callers g)" "callers g ! t = Calling key c p"
  shows "flight_ok (tr @ [EvFn t]) (put_caller t (Calling key c p') g)"
  using flight_okD(1) [OF assms(1,2)]
  by (intro flight_ok_same [OF assms(1,2), where x = "Calling key c p'"]) (simp_all add: put_caller_def assms(3) flight_simps)

lemma ok_return:
  assumes "flight_ok tr g" "t < length (callers g)" "callers g ! t = Calling key c p"
  shows "flight_ok (tr @ [EvReturn t key r]) (put_caller t (Returned key c r) (flight_store c r g))"
  using flight_okD(1) [OF assms(1,2)]
  by (intro flight_ok_same [OF assms(1,2), where x = "Returned key c r"])
    (auto simp: put_caller_def flight_store_def assms(3) flight_simps nth_list_update)

lemma ok_wake:
  assumes "flight_ok tr g" "t < length (callers g)" "callers g ! t = Waiting key c" "wg (call_heap g ! c) = 0"
  shows "flight_ok (tr @ [EvResult t (call_result (call_heap g ! c)) False]) (put_caller t (Finished key (call_result (call_heap g ! c)) False) g)"
proof -
  have w: "caller_ok tr g t (Waiting key c)" using flight_okD(1) [OF assms(1,2)] assms(3) by simp
  then have c: "c < length (call_heap g)" by simp
  have "\<not> some_caller (\<lambda>x. leads x c) (callers g)"
    using flight_okD(3) [OF assms(1)] c assms(4) unfolding counters_ok_def by (auto split: if_splits)
  then have "\<not> some_caller (\<lambda>x. \<exists>k. runs x k c) (callers g)" unfolding some_caller_def using runs_leads by blast
  then have "shared tr t key (call_result (call_heap g ! c))" using w by simp
  then show ?thesis
    by (intro flight_ok_same [OF assms(1,2), where x = "Finished key (call_result (call_heap g ! c)) False"])
      (simp_all add: put_caller_def assms(3) flight_simps shared_snoc)
qed


lemma leads_bound: "flight_ok tr g \<Longrightarrow> t < length (callers g) \<Longrightarrow> leads (callers g ! t) c \<Longrightarrow> c < length (call_heap g)"
  by (drule (1) flight_okD(1)) (cases "callers g ! t"; auto simp: flight_simps)

lemma ok_done:
  assumes ok: "flight_ok tr g" and t: "t < length (callers g)" and l: "callers g ! t = Leaving key c r"
  shows "flight_ok (tr @ [EvResult t r True]) (put_caller t (Finished key r True) (flight_done c g))" (is "flight_ok _ ?g")
proof -
  have g: "callers ?g = (callers g)[t := Finished key r True]" "calls ?g = calls g" "length (call_heap ?g) = length (call_heap g)"
    by (simp_all add: put_caller_def flight_done_def)
  have runs: "some_caller (\<lambda>x. runs x k d) (callers ?g) = some_caller (\<lambda>x. runs x k d) (callers g)"
    "some_caller (\<lambda>x. \<exists>k. runs x k d) (callers ?g) = some_caller (\<lambda>x. \<exists>k. runs x k d) (callers g)" for k d
    unfolding g(1) by (rule some_caller_same [OF t], simp add: l flight_simps)+
  have c: "c < length (call_heap g)" using leads_bound [OF ok t] l by (simp add: flight_simps)
  have res: "call_result (call_heap ?g ! d) = call_result (call_heap g ! d)" for d
    using c by (cases "d = c") (simp_all add: put_caller_def flight_done_def)
  have "caller_ok (tr @ [EvResult t r True]) ?g u (callers ?g ! u)" if u: "u < length (callers ?g)" for u
  proof (cases "u = t")
    case True
    then show ?thesis using flight_okD(1) [OF ok t] t by (simp add: g(1) l)
  next
    case False
    have "caller_ok tr g u (callers g ! u)" using flight_okD(1) [OF ok] u by (simp add: g(1))
    then have "caller_ok (tr @ [EvResult t r True]) ?g u (callers g ! u)"
      by (rule caller_ok_mono) (simp_all only: runs g(3) res order_refl)
    then show ?thesis using False by (simp add: g(1))
  qed
  moreover have "one_leader (callers ?g)" unfolding g(1) by (rule one_leader_same [OF flight_okD(2) [OF ok] t]) (simp add: flight_simps)
  moreover have "wg (call_heap ?g ! d) = (if some_caller (\<lambda>x. leads x d) (callers ?g) then 1 else 0)" if d: "d < length (call_heap g)" for d
  proof (cases "d = c")
    case True
    have "\<not> some_caller (\<lambda>x. leads x c) (callers ?g)"
      unfolding g(1) some_caller_update(1) [OF t] using one_leaderD [OF flight_okD(2) [OF ok] t] l by (auto simp: flight_simps)
    moreover have "wg (call_heap g ! c) = 1"
      using flight_okD(3) [OF ok] c some_callerI [OF t, of "\<lambda>x. leads x c"] l by (simp add: counters_ok_def flight_simps)
    ultimately show ?thesis using True c by (simp add: put_caller_def flight_done_def)
  next
    case False
    then have "some_caller (\<lambda>x. leads x d) (callers ?g) = some_caller (\<lambda>x. leads x d) (callers g)"
      unfolding g(1) by (intro some_caller_same [OF t]) (simp add: l flight_simps)
    then show ?thesis using flight_okD(3) [OF ok] d False by (simp add: counters_ok_def put_caller_def flight_done_def)
  qed
  moreover have "map_ok (calls ?g) (callers ?g)" using flight_okD(4) [OF ok] unfolding map_ok_def runs g(2) .
  ultimately show ?thesis unfolding flight_ok_def callers_ok_def counters_ok_def g(3) by blast
qed

lemma ok_leave:
  assumes ok: "flight_ok tr g" and t: "t < length (callers g)" and l: "callers g ! t = Returned key c r"
  shows "flight_ok (tr @ [EvLeave t key]) (put_caller t (Leaving key c r) (flight_delete key g))" (is "flight_ok _ ?g")
proof -
  have g: "callers ?g = (callers g)[t := Leaving key c r]" "calls ?g = gm_del key (calls g)" "call_heap ?g = call_heap g"
    by (simp_all add: put_caller_def flight_delete_def)
  have c: "c < length (call_heap g)" "EvReturn t key r \<in> set tr" "call_result (call_heap g ! c) = r" using flight_okD(1) [OF ok t] l by simp_all
  have only: "u = t" if "u < length (callers g)" "runs (callers g ! u) k c" for u k
    using one_leaderD [OF flight_okD(2) [OF ok] t that(1), of c] runs_leads [OF that(2)] l by (simp add: flight_simps)
  have runs: "some_caller (\<lambda>x. runs x k d) (callers ?g) = (d \<noteq> c \<and> some_caller (\<lambda>x. runs x k d) (callers g))"
    "some_caller (\<lambda>x. \<exists>k. runs x k d) (callers ?g) = (d \<noteq> c \<and> some_caller (\<lambda>x. \<exists>k. runs x k d) (callers g))" for k d
    unfolding g(1) some_caller_update [OF t] by (cases "d = c"; auto simp: l flight_simps dest: only)+
  have "caller_ok (tr @ [EvLeave t key]) ?g u (callers ?g ! u)" if u: "u < length (callers ?g)" for u
  proof (cases "u = t")
    case True
    then show ?thesis using c t by (simp add: g)
  next
    case False
    have u': "u < length (callers g)" and ok': "caller_ok tr g u (callers g ! u)" using flight_okD(1) [OF ok] u by (simp_all add: g(1))
    have "caller_ok (tr @ [EvLeave t key]) ?g u (callers g ! u)"
    proof (cases "\<exists>k. callers g ! u = Waiting k c")
      case True
      then obtain k where k: "callers g ! u = Waiting k c" by blast
      have "some_caller (\<lambda>x. \<exists>k. runs x k c) (callers g)" using some_callerI [OF t, of "\<lambda>x. \<exists>k. runs x k c"] l by (simp add: flight_simps)
      then have "some_caller (\<lambda>x. runs x k c) (callers g)" "EvCall u k \<in> set tr" using ok' k by simp_all
      then have "k = key" using only l unfolding some_caller_def by (auto simp: flight_simps)
      then show ?thesis using k c \<open>EvCall u k \<in> set tr\<close> by (simp add: runs g(3) shared_leave)
    next
      case nw: False
      show ?thesis
      proof (cases "callers g ! u")
        case (Waiting k d)
        then have "d \<noteq> c" using nw by auto
        then show ?thesis using ok' Waiting by (auto simp: runs g(3) shared_snoc)
      qed (use ok' shared_snoc in \<open>auto simp: g(3)\<close>)
    qed
    then show ?thesis using False by (simp add: g(1))
  qed
  moreover have "one_leader (callers ?g)" unfolding g(1) by (rule one_leader_same [OF flight_okD(2) [OF ok] t]) (simp add: flight_simps l)
  moreover have "some_caller (\<lambda>x. leads x d) (callers ?g) = some_caller (\<lambda>x. leads x d) (callers g)" for d
    unfolding g(1) by (rule some_caller_same [OF t]) (simp add: l flight_simps)
  then have "counters_ok (call_heap ?g) (callers ?g)" using flight_okD(3) [OF ok] by (simp add: counters_ok_def g(3))
  moreover have "map_ok (calls ?g) (callers ?g)"
  proof -
    have m: "gm_get (calls g) k = Some d \<longleftrightarrow> some_caller (\<lambda>x. runs x k d) (callers g)" for k d
      using flight_okD(4) [OF ok] unfolding map_ok_def by blast
    have kc: "gm_get (calls g) key = Some c" unfolding m using some_callerI [OF t, of "\<lambda>x. runs x key c"] l by (simp add: flight_simps)
    have "k = key" if "some_caller (\<lambda>x. runs x k c) (callers g)" for k
      using that only l unfolding some_caller_def by (auto simp: flight_simps)
    then have ck: "k = key" if "gm_get (calls g) k = Some c" for k using that m by blast
    show ?thesis unfolding map_ok_def runs g(2) m [symmetric]
    proof (intro allI)
      fix k d show "gm_get (gm_del key (calls g)) k = Some d \<longleftrightarrow> d \<noteq> c \<and> gm_get (calls g) k = Some d"
        using kc ck [of k] by (cases "k = key") (auto simp: gomap_simps)
    qed
  qed
  ultimately show ?thesis unfolding flight_ok_def callers_ok_def by blast
qed


lemma flight_mapD: "flight_ok tr g \<Longrightarrow> gm_get (calls g) k = Some d \<longleftrightarrow> some_caller (\<lambda>x. runs x k d) (callers g)"
  using flight_okD(4) unfolding map_ok_def by blast

lemma callers_ok_snoc:
  assumes ok: "flight_ok tr g" and x: "caller_ok (tr @ [e]) g' (length (callers g)) x"
    and g': "callers g' = callers g @ [x]" "call_heap g' = call_heap g @ h" "\<And>k c. runs x k c \<Longrightarrow> length (call_heap g) \<le> c"
  shows "callers_ok (tr @ [e]) g'"
  unfolding callers_ok_def
proof (intro allI impI)
  fix t assume t: "t < length (callers g')"
  show "caller_ok (tr @ [e]) g' t (callers g' ! t)"
  proof (cases "t = length (callers g)")
    case True
    then show ?thesis using x by (simp add: g'(1))
  next
    case False
    then have t': "t < length (callers g)" using t by (simp add: g'(1))
    have old: "some_caller (\<lambda>x. runs x k c) (callers g') = some_caller (\<lambda>x. runs x k c) (callers g)"
      "some_caller (\<lambda>x. \<exists>k. runs x k c) (callers g') = some_caller (\<lambda>x. \<exists>k. runs x k c) (callers g)" if "c < length (call_heap g)" for k c
      using that g'(3) [of _ c] unfolding g'(1) some_caller_snoc by (auto simp: not_le [symmetric])
    have "caller_ok (tr @ [e]) g' t (callers g ! t)"
      by (rule caller_ok_mono [OF flight_okD(1) [OF ok t']]) (simp_all add: old g'(2) nth_append)
    then show ?thesis using t' by (simp add: g'(1) nth_append)
  qed
qed

lemma ok_join:
  assumes ok: "flight_ok tr g" and c: "gm_get (calls g) key = Some c"
  shows "flight_ok (tr @ [EvCall (length (callers g)) key]) (g\<lparr>callers := callers g @ [Waiting key c]\<rparr>)" (is "flight_ok _ ?g")
proof -
  have r: "some_caller (\<lambda>x. runs x key c) (callers g)" using c flight_mapD [OF ok] by blast
  then obtain t where t: "t < length (callers g)" "runs (callers g ! t) key c" unfolding some_caller_def by blast
  have b: "c < length (call_heap g)" using leads_bound [OF ok t(1) runs_leads [OF t(2)]] .
  have "some_caller (\<lambda>x. \<exists>k. runs x k c) (callers g)" using t unfolding some_caller_def by blast
  then have "callers_ok (tr @ [EvCall (length (callers g)) key]) ?g"
    by (intro callers_ok_snoc [OF ok, where h = "[]"]) (auto simp: b r some_caller_snoc flight_simps)
  moreover have "one_leader (callers ?g)"
    using flight_okD(2) [OF ok] unfolding one_leader_def by (auto simp: nth_append flight_simps less_Suc_eq)
  ultimately show ?thesis using flight_okD(3,4) [OF ok]
    unfolding flight_ok_def counters_ok_def map_ok_def by (simp add: some_caller_snoc flight_simps)
qed

lemma ok_first:
  assumes ok: "flight_ok tr g" and n: "gm_get (calls g) key = None"
  defines "c \<equiv> length (call_heap g)"
  shows "flight_ok (tr @ [EvCall (length (callers g)) key]) (g\<lparr>call_heap := call_heap g @ [\<lparr>wg = 1, call_result = None\<rparr>],
    calls := gm_set key c (calls g), callers := callers g @ [Calling key c p0]\<rparr>)" (is "flight_ok _ ?g")
proof -
  have new: "\<not> leads (callers g ! t) c" if "t < length (callers g)" for t using leads_bound [OF ok that] by (auto simp: c_def)
  have "callers_ok (tr @ [EvCall (length (callers g)) key]) ?g"
    by (intro callers_ok_snoc [OF ok, where h = "[\<lparr>wg = 1, call_result = None\<rparr>]"]) (auto simp: c_def flight_simps)
  moreover have "one_leader (callers ?g)"
    using flight_okD(2) [OF ok] new unfolding one_leader_def by (auto simp: nth_append flight_simps less_Suc_eq)
  moreover have "wg (call_heap ?g ! d) = (if some_caller (\<lambda>x. leads x d) (callers ?g) then 1 else 0)" if "d < length (call_heap ?g)" for d
  proof (cases "d = c")
    case False
    then have "d < length (call_heap g)" using that by (simp add: c_def)
    then show ?thesis using flight_okD(3) [OF ok] False by (simp add: counters_ok_def some_caller_snoc flight_simps nth_append)
  qed (simp add: some_caller_snoc flight_simps nth_append c_def)
  moreover have "gm_get (gm_set key c (calls g)) k = Some d \<longleftrightarrow> some_caller (\<lambda>x. runs x k d) (callers ?g)" for k d
    using n flight_mapD [OF ok, of k d] flight_mapD [OF ok, of key d] by (cases "k = key") (auto simp: gomap_simps some_caller_snoc flight_simps)
  ultimately show ?thesis unfolding flight_ok_def counters_ok_def map_ok_def by simp
qed

lemma ok_call: "flight_ok tr g \<Longrightarrow> flight_ok (tr @ [EvCall (length (callers g)) key]) (flight_enter p0 key g)"
  using ok_join [of tr g key] ok_first [of tr g key p0]
  by (cases "gm_get (calls g) key") (simp_all add: flight_enter_def createCall_def Let_def)

lemma ok_env: "flight_ok tr g \<Longrightarrow> flight_ok (tr @ [EvEnv]) g"
  unfolding flight_ok_def callers_ok_def by (blast intro: caller_ok_mono)

lemma flight_run_ok: "flight_run F s0 tr gs \<Longrightarrow> flight_ok tr (fst gs)"
proof (induction rule: flight_run.induct)
  case flight_start
  then show ?case by (simp add: NewSingleFlight_def flight_ok_def callers_ok_def one_leader_def counters_ok_def map_ok_def some_caller_def)
next
  case (flight_more tr gs e gs')
  from flight_more(2) show ?case
    by cases (use flight_more(3) in \<open>simp_all add: ok_call ok_fn ok_return ok_leave ok_done ok_wake ok_env\<close>)
qed


lemma one_running:
  assumes "flight_ok tr g" "t < length (callers g)" "u < length (callers g)" "runs (callers g ! t) key c" "runs (callers g ! u) key d"
  shows "t = u"
proof -
  have "gm_get (calls g) key = Some c" "gm_get (calls g) key = Some d"
    using flight_mapD [OF assms(1)] assms(2-5) unfolding some_caller_def by blast+
  then have "c = d" by simp
  then show ?thesis using one_leaderD [OF flight_okD(2) [OF assms(1)] assms(2,3)] assms(4,5) runs_leads by metis
qed

fun is_finished :: "('p, 'v) caller \<Rightarrow> bool" where
  "is_finished (Finished key r fresh) = True"
| "is_finished _ = False"

fun from_outside :: "'v flight_event \<Rightarrow> bool" where
  "from_outside (EvCall t key) = True"
| "from_outside EvEnv = True"
| "from_outside _ = False"

lemma flight_progress:
  assumes ok: "flight_ok tr g" and t: "t < length (callers g)" "\<not> is_finished (callers g ! t)"
    and live: "\<And>key p s. (\<exists>p' s'. fn_step F key p s p' s') \<or> (\<exists>r. fn_ret F p r)"
  shows "\<exists>e gs'. flight_step F (g, s) e gs' \<and> \<not> from_outside e"
proof -
  have run: "\<exists>e gs'. flight_step F (g, s) e gs' \<and> \<not> from_outside e" if u: "u < length (callers g)" "leads (callers g ! u) c" for u c
  proof (cases "callers g ! u")
    case (Calling key d p)
    then show ?thesis using live [of key p s] fl_fn [OF u(1) Calling, of F] fl_return [OF u(1) Calling, of F] by (metis from_outside.simps(3,6))
  next
    case (Returned key d r)
    show ?thesis using fl_leave [OF u(1) Returned, of F s] by (metis from_outside.simps(4))
  next
    case (Leaving key d r)
    show ?thesis using fl_done [OF u(1) Leaving, of F s] by (metis from_outside.simps(5))
  qed (use u(2) in \<open>auto simp: flight_simps\<close>)
  show ?thesis
  proof (cases "callers g ! t")
    case (Waiting key c)
    have c: "c < length (call_heap g)" using flight_okD(1) [OF ok t(1)] Waiting by simp
    show ?thesis
    proof (cases "some_caller (\<lambda>x. leads x c) (callers g)")
      case True
      then show ?thesis using run unfolding some_caller_def by blast
    next
      case False
      then have "wg (call_heap g ! c) = 0" using flight_okD(3) [OF ok] c by (simp add: counters_ok_def)
      then show ?thesis using fl_wake [OF t(1) Waiting, of F s] by (metis from_outside.simps(5))
    qed
  qed (use t run [OF t(1)] in \<open>auto simp: flight_simps\<close>)
qed

text \<open>C23: (Shared calls.) In every interleaving of callers: at most one function runs per key at any time; a caller that
  ran the function gets what it returned; a caller that shared gets what the function returned to another caller of the
  same key, whose call had not left the group when this caller came; and as long as functions can go on, callers never
  block each other for good.\<close>

theorem single_flight_correct:
  assumes "flight_run F s0 tr (g, s)" and "\<forall>key p s. (\<exists>p' s'. fn_step F key p s p' s') \<or> (\<exists>r. fn_ret F p r)"
    and "t < length (callers g)" and "u < length (callers g)"
  shows "(\<forall>key c d p q. callers g ! t = Calling key c p \<and> callers g ! u = Calling key d q \<longrightarrow> t = u) \<and>
    (\<forall>key r. callers g ! t = Finished key r True \<longrightarrow> EvReturn t key r \<in> set tr) \<and>
    (\<forall>key r. callers g ! t = Finished key r False \<longrightarrow>
      (\<exists>v xs ys. tr = xs @ EvLeave v key # ys \<and> EvCall t key \<in> set xs \<and> EvReturn v key r \<in> set xs)) \<and>
    (\<not> is_finished (callers g ! t) \<longrightarrow> (\<exists>e gs'. flight_step F (g, s) e gs' \<and> \<not> from_outside e))"
proof -
  have ok: "flight_ok tr g" using flight_run_ok [OF assms(1)] by simp
  note t = flight_okD(1) [OF ok assms(3)]
  show ?thesis using one_running [OF ok assms(3,4)] t flight_progress [OF ok assms(3), of F s] assms(2)
    by (auto simp: flight_simps shared_def)
qed

text \<open>A function that gives 7 at once, and two callers.\<close>

definition seven :: "(unit, unit, nat) fn" where
  "seven = \<lparr>fn_init = (), fn_step = (\<lambda>_ _ _ _ _. False), fn_ret = (\<lambda>_ r. r = Some 7), fn_env = (\<lambda>_ _. False)\<rparr>"

lemma seven_run: "flight_run seven () [EvCall 0 ''k'', EvCall 1 ''k'', EvReturn 0 ''k'' (Some 7), EvLeave 0 ''k'',
    EvResult 0 (Some 7) True, EvResult 1 (Some 7) False]
    (\<lparr>calls = [], call_heap = [\<lparr>wg = 0, call_result = Some 7\<rparr>], callers = [Finished ''k'' (Some 7) True, Finished ''k'' (Some 7) False]\<rparr>, ())"
proof -
  let ?g0 = "NewSingleFlight :: (unit, nat) flightGroup"
  let ?g1 = "flight_enter () ''k'' ?g0" let ?g2 = "flight_enter () ''k'' ?g1"
  let ?g3 = "put_caller 0 (Returned ''k'' 0 (Some 7)) (flight_store 0 (Some 7) ?g2)"
  let ?g4 = "put_caller 0 (Leaving ''k'' 0 (Some 7)) (flight_delete ''k'' ?g3)"
  let ?g5 = "put_caller 0 (Finished ''k'' (Some 7) True) (flight_done 0 ?g4)"
  let ?g6 = "put_caller 1 (Finished ''k'' (Some 7) False) ?g5"
  note defs = flight_enter_def createCall_def NewSingleFlight_def put_caller_def flight_store_def flight_delete_def flight_done_def
  have g: "callers ?g0 = []" "callers ?g1 = [Calling ''k'' 0 ()]" "callers ?g2 = [Calling ''k'' 0 (), Waiting ''k'' 0]"
    "callers ?g3 = [Returned ''k'' 0 (Some 7), Waiting ''k'' 0]" "callers ?g4 = [Leaving ''k'' 0 (Some 7), Waiting ''k'' 0]"
    "callers ?g5 = [Finished ''k'' (Some 7) True, Waiting ''k'' 0]" "call_heap ?g5 = [\<lparr>wg = 0, call_result = Some 7\<rparr>]"
    by (simp_all add: defs)
  have r1: "flight_run seven () [EvCall 0 ''k''] (?g1, ())"
    using flight_more [OF flight_start fl_call, of seven "()" "''k''"] by (simp add: g(1) seven_def)
  have r2: "flight_run seven () [EvCall 0 ''k'', EvCall 1 ''k''] (?g2, ())"
    using flight_more [OF r1 fl_call, of "''k''"] by (simp add: g(2) seven_def)
  have r3: "flight_run seven () [EvCall 0 ''k'', EvCall 1 ''k'', EvReturn 0 ''k'' (Some 7)] (?g3, ())"
    using flight_more [OF r2 fl_return [of 0 ?g2 "''k''" 0 "()" seven "Some 7"]] by (simp add: g(3) seven_def)
  have r4: "flight_run seven () [EvCall 0 ''k'', EvCall 1 ''k'', EvReturn 0 ''k'' (Some 7), EvLeave 0 ''k''] (?g4, ())"
    using flight_more [OF r3 fl_leave [of 0 ?g3 "''k''" 0 "Some 7" seven]] by (simp add: g(4))
  have r5: "flight_run seven () [EvCall 0 ''k'', EvCall 1 ''k'', EvReturn 0 ''k'' (Some 7), EvLeave 0 ''k'', EvResult 0 (Some 7) True] (?g5, ())"
    using flight_more [OF r4 fl_done [of 0 ?g4 "''k''" 0 "Some 7" seven]] by (simp add: g(5))
  have "flight_run seven () [EvCall 0 ''k'', EvCall 1 ''k'', EvReturn 0 ''k'' (Some 7), EvLeave 0 ''k'', EvResult 0 (Some 7) True, EvResult 1 (Some 7) False] (?g6, ())"
    using flight_more [OF r5 fl_wake [of 1 ?g5 "''k''" 0 seven]] by (simp add: g(6,7))
  moreover have "?g6 = \<lparr>calls = [], call_heap = [\<lparr>wg = 0, call_result = Some 7\<rparr>], callers = [Finished ''k'' (Some 7) True, Finished ''k'' (Some 7) False]\<rparr>"
    by (simp add: defs)
  ultimately show ?thesis by simp
qed

theorem single_flight_correct_witness:
  "\<exists>v xs ys. [EvCall 0 ''k'', EvCall 1 ''k'', EvReturn 0 ''k'' (Some 7), EvLeave 0 ''k'', EvResult 0 (Some 7) True, EvResult 1 (Some (7 :: nat)) False] =
     xs @ EvLeave v ''k'' # ys \<and> EvCall 1 ''k'' \<in> set xs \<and> EvReturn v ''k'' (Some 7) \<in> set xs"
  using single_flight_correct [OF seven_run, of 1 0] by (simp add: seven_def)


section \<open>Clients of the single flight\<close>

text \<open>
  What a client proves of its function once, and gets for every interleaving: an invariant of the shared state, what is known of
  a function at each of its own states, and what a result means. Steps of others may only add to what is known.
\<close>

locale flight_client =
  fixes F :: "('p, 's, 'v) fn" and inv_of :: "'s \<Rightarrow> bool" and known :: "'s \<Rightarrow> string \<Rightarrow> 'p \<Rightarrow> bool" and means :: "'s \<Rightarrow> string \<Rightarrow> 'v \<Rightarrow> bool"
  assumes known_init: "known s key (fn_init F)"
    and known_step: "inv_of s \<Longrightarrow> known s key p \<Longrightarrow> fn_step F key p s p' s' \<Longrightarrow> inv_of s' \<and> known s' key p'"
    and known_ret: "known s key p \<Longrightarrow> fn_ret F p (Some v) \<Longrightarrow> means s key v"
    and inv_env: "inv_of s \<Longrightarrow> fn_env F s s' \<Longrightarrow> inv_of s'"
    and keep_step: "inv_of s \<Longrightarrow> known s key p \<Longrightarrow> fn_step F key p s p' s' \<Longrightarrow> (known s k q \<longrightarrow> known s' k q) \<and> (means s k v \<longrightarrow> means s' k v)"
    and keep_env: "inv_of s \<Longrightarrow> fn_env F s s' \<Longrightarrow> (known s k q \<longrightarrow> known s' k q) \<and> (means s k v \<longrightarrow> means s' k v)"
begin

definition client_ok :: "'v flight_event list \<Rightarrow> ('p, 'v) flightGroup \<Rightarrow> 's \<Rightarrow> bool" where
  "client_ok tr g s \<longleftrightarrow> inv_of s \<and> (\<forall>key d p. Calling key d p \<in> set (callers g) \<longrightarrow> known s key p) \<and>
     (\<forall>u key v. EvReturn u key (Some v) \<in> set tr \<longrightarrow> means s key v)"

lemma client_okD:
  assumes "client_ok tr g s"
  shows "inv_of s" "Calling key d p \<in> set (callers g) \<Longrightarrow> known s key p" "EvReturn u key (Some v) \<in> set tr \<Longrightarrow> means s key v"
  using assms unfolding client_ok_def by blast+

lemma client_ok_put:
  assumes ok: "client_ok tr g s" and g': "callers g' = (callers g)[t := x]" and inv: "inv_of s'"
    and keep: "\<And>k q. known s k q \<Longrightarrow> known s' k q" "\<And>k v. means s k v \<Longrightarrow> means s' k v"
    and x: "\<And>key d p. x = Calling key d p \<Longrightarrow> known s' key p" and e: "\<And>u key v. e = EvReturn u key (Some v) \<Longrightarrow> means s' key v"
  shows "client_ok (tr @ [e]) g' s'"
  unfolding client_ok_def
proof (intro conjI allI impI)
  show "known s' key p" if "Calling key d p \<in> set (callers g')" for key d p
  proof (cases "Calling key d p \<in> set (callers g)")
    case True
    then show ?thesis using client_okD(2) [OF ok] keep(1) by blast
  next
    case False
    then have "x = Calling key d p" using that subsetD [OF set_update_subset_insert, of "Calling key d p" "callers g" t x] unfolding g' by auto
    then show ?thesis by (rule x)
  qed
  show "means s' key v" if "EvReturn u key (Some v) \<in> set (tr @ [e])" for u key v
    using that client_okD(3) [OF ok] keep(2) e [of u key v] by auto
qed (rule inv)

lemma client_ok_step:
  assumes ok: "client_ok tr g s" and st: "flight_step F (g, s) e (g', s')"
  shows "client_ok (tr @ [e]) g' s'"
  using st
proof cases
  case (fl_call key)
  then show ?thesis using ok known_init
    by (auto simp: client_ok_def flight_enter_def createCall_def Let_def split: option.splits)
next
  case (fl_fn t key c p p')
  have p: "known s key p" using fl_fn(3,4) client_okD(2) [OF ok] nth_mem by metis
  note k = known_step [OF client_okD(1) [OF ok] p fl_fn(5)] keep_step [OF client_okD(1) [OF ok] p fl_fn(5)]
  show ?thesis by (rule client_ok_put [OF ok, of _ t "Calling key c p'"]) (use k fl_fn(1,2) in \<open>auto simp: put_caller_def\<close>)
next
  case (fl_return t key c p r)
  have p: "known s key p" using fl_return(4,5) client_okD(2) [OF ok] nth_mem by metis
  show ?thesis by (rule client_ok_put [OF ok, of _ t "Returned key c r"])
      (use known_ret [OF p] client_okD(1) [OF ok] fl_return(1-3,6) in \<open>auto simp: put_caller_def flight_store_def\<close>)
next
  case (fl_leave t key c r)
  show ?thesis by (rule client_ok_put [OF ok, of _ t "Leaving key c r"])
      (use client_okD(1) [OF ok] fl_leave(1-3) in \<open>auto simp: put_caller_def flight_delete_def\<close>)
next
  case (fl_done t key c r)
  show ?thesis by (rule client_ok_put [OF ok, of _ t "Finished key r True"])
      (use client_okD(1) [OF ok] fl_done(1-3) in \<open>auto simp: put_caller_def flight_done_def\<close>)
next
  case (fl_wake t key c)
  show ?thesis by (rule client_ok_put [OF ok, of _ t "Finished key (call_result (call_heap g ! c)) False"])
      (use client_okD(1) [OF ok] fl_wake(1-3) in \<open>auto simp: put_caller_def\<close>)
next
  case fl_env
  have i: "inv_of s" by (rule client_okD(1) [OF ok])
  note k = inv_env [OF i fl_env(3)] keep_env [OF i fl_env(3)]
  show ?thesis unfolding fl_env(1,2) client_ok_def using ok k unfolding client_ok_def by auto
qed

lemma client_run:
  assumes "flight_run F s0 tr gs" "inv_of s0"
  shows "client_ok tr (fst gs) (snd gs)"
  using assms(1)
proof (induction rule: flight_run.induct)
  case flight_start
  then show ?case using assms(2) by (simp add: client_ok_def NewSingleFlight_def)
next
  case (flight_more tr gs e gs')
  then show ?case using client_ok_step [of tr "fst gs" "snd gs" e "fst gs'" "snd gs'"] by simp
qed

lemma client_result:
  assumes "flight_run F s0 tr (g, s)" "inv_of s0" "u < length (callers g)" "callers g ! u = Finished key (Some v) fresh"
  shows "means s key v"
proof -
  have "\<exists>u. EvReturn u key (Some v) \<in> set tr"
    using flight_okD(1) [OF flight_run_ok [OF assms(1)], of u] assms(3,4) by (cases fresh) (auto simp: shared_def)
  then show ?thesis using client_okD(3) client_run [OF assms(1,2)] by fastforce
qed

end

section \<open>The resource manager\<close>

text \<open>
  \<open>GetResource\<close> runs its function through a single flight: it looks the key up, creates the resource when it is missing
  (which may fail or panic), and stores it. The log of the resources created is not part of the program.
\<close>

record 'r ResourceManager =
  resources :: "(string, 'r) gomap"
  created :: "(string \<times> 'r) list"

definition NewResourceManager :: "'r ResourceManager" where
  "NewResourceManager = \<lparr>resources = [], created = []\<rparr>"

datatype ('e, 'r) getting = Looking | Creating | Storing 'r | Got "'e + 'r"

definition rm_look :: "string \<Rightarrow> 'r ResourceManager \<Rightarrow> ('e, 'r) getting" where
  "rm_look key m = (case gm_get (resources m) key of Some r \<Rightarrow> Got (Inr r) | None \<Rightarrow> Creating)"

definition rm_created :: "string \<Rightarrow> 'r \<Rightarrow> 'r ResourceManager \<Rightarrow> 'r ResourceManager" where
  "rm_created key r m = m\<lparr>created := created m @ [(key, r)]\<rparr>"

definition rm_store :: "string \<Rightarrow> 'r \<Rightarrow> 'r ResourceManager \<Rightarrow> 'r ResourceManager" where
  "rm_store key r m = m\<lparr>resources := gm_set key r (resources m)\<rparr>"

inductive getting_step :: "string \<Rightarrow> ('e, 'r) getting \<Rightarrow> 'r ResourceManager \<Rightarrow> ('e, 'r) getting \<Rightarrow> 'r ResourceManager \<Rightarrow> bool" where
  get_look: "getting_step key Looking m (rm_look key m) m"
| get_fail: "getting_step key Creating m (Got (Inl e)) m"
| get_create: "getting_step key Creating m (Storing r) (rm_created key r m)"
| get_store: "getting_step key (Storing r) m (Got (Inr r)) (rm_store key r m)"

inductive getting_ret :: "('e, 'r) getting \<Rightarrow> ('e + 'r) option \<Rightarrow> bool" where
  ret_got: "getting_ret (Got v) (Some v)"
| ret_panic: "getting_ret Creating None"

definition GetResource :: "(('e, 'r) getting, 'r ResourceManager, 'e + 'r) fn" where
  "GetResource = \<lparr>fn_init = Looking, fn_step = getting_step, fn_ret = getting_ret, fn_env = (\<lambda>_ _. False)\<rparr>"

text \<open>
  What holds while only \<open>GetResource\<close> is called: a created resource is stored or about to be, by the one caller that runs;
  and everything returned is stored.
\<close>

definition in_phase :: "('p, 'v) flightGroup \<Rightarrow> string \<Rightarrow> 'p \<Rightarrow> bool" where
  "in_phase g key p \<longleftrightarrow> some_caller (\<lambda>x. \<exists>c. x = Calling key c p) (callers g)"

definition key_ok :: "'r set \<Rightarrow> 'r option \<Rightarrow> (('e, 'r) getting \<Rightarrow> bool) \<Rightarrow> 'r set \<Rightarrow> bool" where
  "key_ok made stored ph returned \<longleftrightarrow>
     (\<forall>r. r \<in> made \<longleftrightarrow> stored = Some r \<or> ph (Storing r)) \<and>
     (ph Creating \<longrightarrow> stored = None) \<and>
     (\<forall>r. ph (Storing r) \<longrightarrow> stored = None) \<and>
     (\<forall>r. ph (Got (Inr r)) \<longrightarrow> stored = Some r) \<and>
     (\<forall>r\<in>returned. stored = Some r)"

definition made_for :: "string \<Rightarrow> 'r ResourceManager \<Rightarrow> 'r set" where
  "made_for key m = {r. (key, r) \<in> set (created m)}"

definition returned_for :: "string \<Rightarrow> ('e + 'r) flight_event list \<Rightarrow> 'r set" where
  "returned_for key tr = {r. \<exists>t. EvReturn t key (Some (Inr r)) \<in> set tr}"

definition rm_ok :: "('e + 'r) flight_event list \<Rightarrow> (('e, 'r) getting, 'e + 'r) flightGroup \<Rightarrow> 'r ResourceManager \<Rightarrow> bool" where
  "rm_ok tr g m \<longleftrightarrow> distinct (map fst (created m)) \<and>
     (\<forall>key. key_ok (made_for key m) (gm_get (resources m) key) (in_phase g key) (returned_for key tr))"

lemma rm_ok_cong:
  assumes "rm_ok tr g m" "in_phase g' = in_phase g" "\<And>key. returned_for key tr' = returned_for key tr"
  shows "rm_ok tr' g' m"
  using assms(1) unfolding rm_ok_def assms(2,3) .

lemma rm_ok_key:
  assumes "rm_ok tr g m" "distinct (map fst (created m'))"
    "\<And>k. k \<noteq> key \<Longrightarrow> made_for k m' = made_for k m \<and> gm_get (resources m') k = gm_get (resources m) k \<and> in_phase g' k = in_phase g k \<and>
       returned_for k tr' = returned_for k tr"
    "key_ok (made_for key m') (gm_get (resources m') key) (in_phase g' key) (returned_for key tr')"
  shows "rm_ok tr' g' m'"
  unfolding rm_ok_def
proof (intro conjI allI)
  show "distinct (map fst (created m'))" by fact
  fix k
  have "key_ok (made_for k m) (gm_get (resources m) k) (in_phase g k) (returned_for k tr)" using assms(1) unfolding rm_ok_def by blast
  then show "key_ok (made_for k m') (gm_get (resources m') k) (in_phase g' k) (returned_for k tr')"
    using assms(3) [of k] assms(4) by (cases "k = key") simp_all
qed

lemma disj_not: "\<not> R \<Longrightarrow> P \<or> R \<longleftrightarrow> P" "\<not> P \<Longrightarrow> \<not> Q \<Longrightarrow> P \<or> R \<longleftrightarrow> Q \<or> R"
  by blast+

lemma in_phase_put:
  assumes "flight_ok tr g" "t < length (callers g)" "callers g ! t = Calling key c p" "\<And>k d q. x = Calling k d q \<Longrightarrow> k = key"
    "callers g' = (callers g)[t := x]"
  shows "in_phase g' k q \<longleftrightarrow> (if k = key then \<exists>d. x = Calling key d q else in_phase g k q)"
proof -
  have "u = t" if "u < length (callers g)" "callers g ! u = Calling key d q" for u d q
    using one_running [OF assms(1) that(1) assms(2), of key d c] that(2) assms(3) by (simp add: flight_simps)
  note only = this
  let ?P = "\<lambda>x. \<exists>d. x = Calling k d q"
  let ?R = "\<exists>u<length (callers g). u \<noteq> t \<and> ?P (callers g ! u)"
  have a: "in_phase g' k q \<longleftrightarrow> ?P x \<or> ?R" "in_phase g k q \<longleftrightarrow> ?P (callers g ! t) \<or> ?R"
    unfolding in_phase_def assms(5) by (rule some_caller_update [OF assms(2)])+
  show ?thesis
  proof (cases "k = key")
    case True
    then have "\<not> ?R" using only by blast
    then have "in_phase g' k q \<longleftrightarrow> ?P x" unfolding a(1) by (rule disj_not(1))
    then show ?thesis using True by simp
  next
    case False
    then have "\<not> ?P x" "\<not> ?P (callers g ! t)" using assms(3,4) by auto
    then have "in_phase g' k q \<longleftrightarrow> in_phase g k q" unfolding a by (rule disj_not(2))
    then show ?thesis using False by simp
  qed
qed

lemma in_phase_unique:
  assumes "flight_ok tr g" "in_phase g key p" "in_phase g key q"
  shows "p = q"
proof -
  obtain t c where t: "t < length (callers g)" "callers g ! t = Calling key c p" using assms(2) by (auto simp: in_phase_def some_caller_def)
  obtain u d where u: "u < length (callers g)" "callers g ! u = Calling key d q" using assms(3) by (auto simp: in_phase_def some_caller_def)
  have "t = u" using one_running [OF assms(1) t(1) u(1)] t(2) u(2) by (simp add: flight_simps)
  then show ?thesis using t u by simp
qed

lemma in_phase_same:
  assumes "t < length (callers g)" "\<And>k c p. callers g ! t \<noteq> Calling k c p" "\<And>k c p. x \<noteq> Calling k c p" "callers g' = (callers g)[t := x]"
  shows "in_phase g' = in_phase g"
  unfolding in_phase_def assms(4) fun_eq_iff by (intro allI some_caller_same [OF assms(1)]) (simp add: assms(2,3))

lemma in_phase_enter: "in_phase (flight_enter p0 key g) k p \<longleftrightarrow> in_phase g k p \<or> (k = key \<and> p = p0 \<and> gm_get (calls g) key = None)"
  by (auto simp: in_phase_def flight_enter_def createCall_def Let_def some_caller_snoc split: option.splits)

lemma in_phase_running:
  assumes "flight_ok tr g" "t < length (callers g)" "callers g ! t = Calling key c p"
  shows "in_phase g key = (\<lambda>q. q = p)"
proof -
  have p: "in_phase g key p" unfolding in_phase_def using assms(2,3) by (intro some_callerI [of t]) simp_all
  show ?thesis using in_phase_unique [OF assms(1) _ p] p by (intro ext) blast
qed

lemma in_phase_moved:
  assumes "flight_ok tr g" "t < length (callers g)" "callers g ! t = Calling key c p"
  shows "in_phase (put_caller t (Calling key c p') g) = (in_phase g)(key := (\<lambda>q. q = p'))"
proof (intro ext)
  fix k q
  have "in_phase (put_caller t (Calling key c p') g) k q \<longleftrightarrow> (if k = key then \<exists>d. Calling key c p' = Calling key d q else in_phase g k q)"
    using in_phase_put [OF assms, where x = "Calling key c p'" and g' = "put_caller t (Calling key c p') g" and k = k and q = q]
    by (simp add: put_caller_def)
  then show "in_phase (put_caller t (Calling key c p') g) k q = ((in_phase g)(key := (\<lambda>q. q = p'))) k q" by auto
qed

lemma returned_for_snoc:
  "returned_for key (tr @ [e]) = returned_for key tr \<union> (case e of EvReturn t k (Some (Inr r)) \<Rightarrow> if k = key then {r} else {} | _ \<Rightarrow> {})"
  by (auto simp: returned_for_def split: flight_event.splits option.splits sum.splits)

lemma made_for_simps [simp]:
  "made_for k (rm_created key r m) = (if k = key then insert r (made_for k m) else made_for k m)"
  "made_for k (rm_store key r m) = made_for k m"
  "resources (rm_created key r m) = resources m"
  "gm_get (resources (rm_store key r m)) k = (if k = key then Some r else gm_get (resources m) k)"
  "created (rm_store key r m) = created m"
  "created (rm_created key r m) = created m @ [(key, r)]"
  by (auto simp: made_for_def rm_created_def rm_store_def gomap_simps)

lemma rm_ok_getting:
  assumes fl: "flight_ok tr g" and ok: "rm_ok tr g m" and t: "t < length (callers g)" "callers g ! t = Calling key c p"
    and st: "getting_step key p m p' m'"
  shows "rm_ok (tr @ [EvFn t]) (put_caller t (Calling key c p') g) m'"
proof -
  have d: "distinct (map fst (created m))"
    and k: "key_ok (made_for key m) (gm_get (resources m) key) (\<lambda>q. q = p) (returned_for key tr)"
    using ok in_phase_running [OF fl t] unfolding rm_ok_def by metis+
  note rules = rm_ok_key [OF ok, where key = key] in_phase_moved [OF fl t] returned_for_snoc
  from st show ?thesis
  proof cases
    case get_look
    then show ?thesis using d k
      by (intro rules(1)) (auto simp: rules(2,3) rm_look_def key_ok_def split: option.splits)
  next
    case (get_fail e)
    then show ?thesis using d k by (intro rules(1)) (auto simp: rules(2,3) key_ok_def)
  next
    case (get_create r)
    have "made_for key m = {}" using k get_create(1) by (auto simp: key_ok_def)
    then have "distinct (map fst (created m'))" using d get_create by (auto simp: made_for_def)
    then show ?thesis using k get_create by (intro rules(1)) (auto simp: rules(2,3) key_ok_def)
  next
    case (get_store r)
    then show ?thesis using d k by (intro rules(1)) (auto simp: rules(2,3) key_ok_def)
  qed
qed

lemma rm_ok_enter:
  assumes "rm_ok tr g m"
  shows "rm_ok (tr @ [EvCall t key]) (flight_enter Looking key g) m"
  using assms unfolding rm_ok_def key_ok_def in_phase_enter returned_for_snoc by simp

lemma rm_ok_return:
  assumes fl: "flight_ok tr g" and ok: "rm_ok tr g m" and t: "t < length (callers g)" "callers g ! t = Calling key c p"
    and ret: "getting_ret p r"
  shows "rm_ok (tr @ [EvReturn t key r]) (put_caller t (Returned key c r) (flight_store c r g)) m"
proof -
  let ?g = "put_caller t (Returned key c r) (flight_store c r g)"
  have ph: "in_phase ?g k q \<longleftrightarrow> k \<noteq> key \<and> in_phase g k q" for k q
    using in_phase_put [OF fl t, where x = "Returned key c r" and g' = ?g and k = k and q = q] by (simp add: put_caller_def flight_store_def)
  have pk: "in_phase ?g key = (\<lambda>q. False)" "\<And>k. k \<noteq> key \<Longrightarrow> in_phase ?g k = in_phase g k" by (simp_all add: ph fun_eq_iff)
  have d: "distinct (map fst (created m))"
    and k: "key_ok (made_for key m) (gm_get (resources m) key) (\<lambda>q. q = p) (returned_for key tr)"
    using ok in_phase_running [OF fl t] unfolding rm_ok_def by metis+
  have "key_ok (made_for key m) (gm_get (resources m) key) (in_phase ?g key) (returned_for key (tr @ [EvReturn t key r]))"
    unfolding pk(1) using ret k by cases (auto simp: key_ok_def returned_for_snoc split: sum.splits)
  then show ?thesis using d
    by (intro rm_ok_key [OF ok, where key = key]) (auto simp: pk(2) returned_for_snoc split: option.splits sum.splits)
qed

lemma rm_ok_step:
  assumes "flight_step GetResource (g, m) e (g', m')" and fl: "flight_ok tr g" and ok: "rm_ok tr g m"
  shows "rm_ok (tr @ [e]) g' m'"
  using assms(1)
proof cases
  case (fl_call key)
  then show ?thesis using rm_ok_enter [OF ok] by (simp add: GetResource_def)
next
  case (fl_fn t key c p p')
  then show ?thesis using rm_ok_getting [OF fl ok, of t key c p] by (simp add: GetResource_def)
next
  case (fl_return t key c p r)
  then show ?thesis using rm_ok_return [OF fl ok, of t key c p r] by (simp add: GetResource_def)
next
  case (fl_leave t key c r)
  then show ?thesis
    using rm_ok_cong [OF ok, of g' "tr @ [e]"] in_phase_same [of t g "Leaving key c r" g'] by (simp add: put_caller_def flight_delete_def returned_for_snoc)
next
  case (fl_done t key c r)
  then show ?thesis
    using rm_ok_cong [OF ok, of g' "tr @ [e]"] in_phase_same [of t g "Finished key r True" g'] by (simp add: put_caller_def flight_done_def returned_for_snoc)
next
  case (fl_wake t key c)
  then show ?thesis
    using rm_ok_cong [OF ok, of g' "tr @ [e]"] in_phase_same [of t g "Finished key (call_result (call_heap g ! c)) False" g']
    by (simp add: put_caller_def returned_for_snoc)
next
  case fl_env
  then show ?thesis by (simp add: GetResource_def)
qed

lemma rm_run_ok: "flight_run GetResource NewResourceManager tr gm \<Longrightarrow> rm_ok tr (fst gm) (snd gm)"
proof (induction rule: flight_run.induct)
  case flight_start
  then show ?case
    by (simp add: rm_ok_def key_ok_def made_for_def returned_for_def NewResourceManager_def NewSingleFlight_def in_phase_def some_caller_def)
next
  case (flight_more tr gs e gs')
  then show ?case using rm_ok_step [of "fst gs" "snd gs" e "fst gs'" "snd gs'" tr] flight_run_ok [OF flight_more(1)] by simp
qed

text \<open>C24: (The resource manager.) However calls of \<open>GetResource\<close> interleave and their create functions fail, panic or succeed:
  no key has its resource created twice, and a call that succeeds gets the resource created for its key, which is the
  one stored - so all the successful callers of a key share one resource.\<close>

theorem resource_created_once:
  assumes "flight_run GetResource NewResourceManager tr (g, m)"
    and "t < length (callers g)" and "callers g ! t = Finished key (Some (Inr r)) fresh"
  shows "distinct (map fst (created m)) \<and> (key, r) \<in> set (created m) \<and> gm_get (resources m) key = Some r"
proof -
  have fl: "flight_ok tr g" and ok: "rm_ok tr g m" using flight_run_ok [OF assms(1)] rm_run_ok [OF assms(1)] by simp_all
  have "\<exists>u. EvReturn u key (Some (Inr r)) \<in> set tr"
    using flight_okD(1) [OF fl assms(2)] assms(3) by (cases fresh) (auto simp: shared_def)
  then have "r \<in> returned_for key tr" by (simp add: returned_for_def)
  moreover have "key_ok (made_for key m) (gm_get (resources m) key) (in_phase g key) (returned_for key tr)"
    and d: "distinct (map fst (created m))" using ok unfolding rm_ok_def by blast+
  ultimately have "gm_get (resources m) key = Some r" "r \<in> made_for key m" unfolding key_ok_def by blast+
  then show ?thesis using d by (simp add: made_for_def)
qed

lemma one_get_run:
  "\<exists>(tr :: (string + nat) flight_event list) g m. flight_run GetResource NewResourceManager tr (g, m) \<and> callers g = [Finished ''db'' (Some (Inr (5 :: nat))) True] \<and>
     m = \<lparr>resources = [(''db'', 5)], created = [(''db'', 5)]\<rparr>"
proof -
  let ?F = "GetResource :: ((string, nat) getting, nat ResourceManager, string + nat) fn"
  let ?m0 = "NewResourceManager :: nat ResourceManager" let ?m2 = "rm_created ''db'' 5 ?m0" let ?m3 = "rm_store ''db'' 5 ?m2"
  let ?g0 = "flight_enter Looking ''db'' NewSingleFlight :: ((string, nat) getting, string + nat) flightGroup"
  let ?g1 = "put_caller 0 (Calling ''db'' 0 Creating) ?g0" let ?g2 = "put_caller 0 (Calling ''db'' 0 (Storing 5)) ?g1"
  let ?g3 = "put_caller 0 (Calling ''db'' 0 (Got (Inr 5))) ?g2"
  let ?g4 = "put_caller 0 (Returned ''db'' 0 (Some (Inr 5))) (flight_store 0 (Some (Inr 5)) ?g3)"
  let ?g5 = "put_caller 0 (Leaving ''db'' 0 (Some (Inr 5))) (flight_delete ''db'' ?g4)"
  let ?g6 = "put_caller 0 (Finished ''db'' (Some (Inr 5)) True) (flight_done 0 ?g5)"
  note defs = flight_enter_def createCall_def NewSingleFlight_def put_caller_def flight_store_def flight_delete_def flight_done_def
  have g: "callers ?g0 = [Calling ''db'' 0 Looking]" "callers ?g1 = [Calling ''db'' 0 Creating]" "callers ?g2 = [Calling ''db'' 0 (Storing 5)]"
    "callers ?g3 = [Calling ''db'' 0 (Got (Inr 5))]" "callers ?g4 = [Returned ''db'' 0 (Some (Inr 5))]"
    "callers ?g5 = [Leaving ''db'' 0 (Some (Inr 5))]" "callers ?g6 = [Finished ''db'' (Some (Inr 5)) True]" by (simp_all add: defs)
  have f: "fn_step ?F = getting_step" "fn_ret ?F = getting_ret" "fn_init ?F = Looking" by (simp_all add: GetResource_def)
  have look: "getting_step ''db'' Looking ?m0 (Creating :: (string, nat) getting) ?m0"
    using get_look [of "''db''" ?m0] by (simp add: rm_look_def NewResourceManager_def)
  note s1 = flight_more [OF flight_start fl_call [of ?F NewSingleFlight ?m0 "''db''"], unfolded f]
  note s2 = flight_more [OF s1 fl_fn [of 0 ?g0 "''db''" 0 Looking ?F ?m0 Creating ?m0]]
  note s3 = flight_more [OF s2 fl_fn [of 0 ?g1 "''db''" 0 Creating ?F ?m0 "Storing 5" ?m2]]
  note s4 = flight_more [OF s3 fl_fn [of 0 ?g2 "''db''" 0 "Storing 5" ?F ?m2 "Got (Inr 5)" ?m3]]
  note s5 = flight_more [OF s4 fl_return [of 0 ?g3 "''db''" 0 "Got (Inr 5)" ?F "Some (Inr 5)"]]
  note s6 = flight_more [OF s5 fl_leave [of 0 ?g4 "''db''" 0 "Some (Inr 5)" ?F]]
  note s7 = flight_more [OF s6 fl_done [of 0 ?g5 "''db''" 0 "Some (Inr 5)" ?F]]
  have "\<exists>tr. flight_run ?F ?m0 tr (?g6, ?m3)"
    by (rule exI, rule s7) (simp_all add: g f look getting_step.intros getting_ret.intros)
  moreover have "?m3 = \<lparr>resources = [(''db'', 5)], created = [(''db'', 5)]\<rparr>"
    by (simp add: rm_store_def rm_created_def NewResourceManager_def)
  ultimately show ?thesis using g(7) by blast
qed

theorem resource_created_once_witness:
  "\<exists>(tr :: (string + nat) flight_event list) g m. flight_run GetResource NewResourceManager tr (g, m) \<and> callers g = [Finished ''db'' (Some (Inr (5 :: nat))) True] \<and>
     distinct (map fst (created m)) \<and> (''db'', 5) \<in> set (created m) \<and> gm_get (resources m) ''db'' = Some 5"
proof -
  obtain tr :: "(string + nat) flight_event list" and g m where r: "flight_run GetResource NewResourceManager tr (g, m)"
    "callers g = [Finished ''db'' (Some (Inr (5 :: nat))) True]" using one_get_run by blast
  show ?thesis using r resource_created_once [OF r(1), where t = 0 and key = "''db''" and r = 5 and fresh = True] by (intro exI [of _ tr] exI [of _ g] exI [of _ m]) simp
qed

end
