(* ===== verification/Cache_Node.thy ===== *)
theory Cache_Node
  imports Single_Flight Jitter
begin

text \<open>
  The cache in front of a database (\<open>src/infra/stores/cache/cachenode.go\<close>): values are kept in Redis as JSON with a
  jittered time to live, absent records as a placeholder, and concurrent reads of a key share one call of a single
  flight. The theory shows how stale what \<open>Take\<close> returns can be, in every interleaving with writers, deletions, evictions
  and failures, and that a cached answer keeps the database from being asked.

  The Redis client, the JSON codec for the caller's type and the query of the caller are parameters. Statistics and logging
  are left out. An error is identified with the sentinel that \<open>errors.Is\<close> finds in it.
\<close>

section \<open>Options and nodes\<close>

definition defaultExpiry :: int where
  "defaultExpiry = 604800000000000"

definition defaultNotFoundExpiry :: int where
  "defaultNotFoundExpiry = 60000000000"

datatype cache_option = WithExpiry int | WithNotFoundExpiry int

record Options =
  o_Expiry :: int
  o_NotFoundExpiry :: int

fun apply_option :: "cache_option \<Rightarrow> Options \<Rightarrow> Options" where
  "apply_option (WithExpiry d) o1 = o1\<lparr>o_Expiry := d\<rparr>"
| "apply_option (WithNotFoundExpiry d) o1 = o1\<lparr>o_NotFoundExpiry := d\<rparr>"

definition newOptions :: "cache_option list \<Rightarrow> Options" where
  "newOptions opts = (let o1 = fold apply_option opts \<lparr>o_Expiry = 0, o_NotFoundExpiry = 0\<rparr>;
     o2 = (if o_Expiry o1 \<le> 0 then o1\<lparr>o_Expiry := defaultExpiry\<rparr> else o1) in
     if o_NotFoundExpiry o2 \<le> 0 then o2\<lparr>o_NotFoundExpiry := defaultNotFoundExpiry\<rparr> else o2)"

record 'e cacheNode =
  expiry :: int
  notFoundExpiry :: int
  errNotFound :: 'e
  is_cluster :: bool

definition NewNode :: "bool \<Rightarrow> 'e \<Rightarrow> cache_option list \<Rightarrow> 'e cacheNode" where
  "NewNode cluster err opts = (let o1 = newOptions opts in
     \<lparr>expiry = o_Expiry o1, notFoundExpiry = o_NotFoundExpiry o1, errNotFound = err, is_cluster = cluster\<rparr>)"

definition notFoundPlaceholder :: string where
  "notFoundPlaceholder = ''*''"

definition node_deviation :: rat where
  "node_deviation = 1 / 20"

definition aroundDuration :: "rat \<Rightarrow> int \<Rightarrow> int" where
  "aroundDuration draw d = AroundDuration (NewUnstable node_deviation) draw d"

section \<open>Redis and JSON\<close>

text \<open>
  The commands of the client on the state of the service, at a time in nanoseconds; each may fail. A missing key is
  \<^const>\<open>None\<close> (the error \<open>red.Nil\<close>).
\<close>

record ('s, 'e) conn =
  conn_Get :: "string \<Rightarrow> int \<Rightarrow> 's \<Rightarrow> ('e + string option) \<times> 's"
  conn_Set :: "string \<Rightarrow> string \<Rightarrow> int \<Rightarrow> int \<Rightarrow> 's \<Rightarrow> 'e option \<times> 's"
  conn_SetNX :: "string \<Rightarrow> string \<Rightarrow> int \<Rightarrow> int \<Rightarrow> 's \<Rightarrow> ('e + bool) \<times> 's"
  conn_Del :: "string list \<Rightarrow> int \<Rightarrow> 's \<Rightarrow> ('e + int) \<times> 's"

definition GetCtx :: "('s, 'e) conn \<Rightarrow> string \<Rightarrow> int \<Rightarrow> 's \<Rightarrow> ('e + string) \<times> 's" where
  "GetCtx cn key now s = (case conn_Get cn key now s of
     (Inr None, s') \<Rightarrow> (Inr [], s') | (Inl e, s') \<Rightarrow> (Inl e, s') | (Inr (Some val), s') \<Rightarrow> (Inr val, s'))"

definition SetexCtx :: "('s, 'e) conn \<Rightarrow> string \<Rightarrow> string \<Rightarrow> int \<Rightarrow> int \<Rightarrow> 's \<Rightarrow> 'e option \<times> 's" where
  "SetexCtx cn key val seconds now s = conn_Set cn key val (seconds * 1000000000) now s"

definition SetnxExCtx :: "('s, 'e) conn \<Rightarrow> string \<Rightarrow> string \<Rightarrow> int \<Rightarrow> int \<Rightarrow> 's \<Rightarrow> ('e + bool) \<times> 's" where
  "SetnxExCtx cn key val seconds now s = conn_SetNX cn key val (seconds * 1000000000) now s"

definition redis_DelCtx :: "('s, 'e) conn \<Rightarrow> string list \<Rightarrow> int \<Rightarrow> 's \<Rightarrow> ('e + int) \<times> 's" where
  "redis_DelCtx cn keys now s = (case conn_Del cn keys now s of (Inl e, s') \<Rightarrow> (Inl e, s') | (Inr v, s') \<Rightarrow> (Inr v, s'))"

text \<open>\<open>Unmarshal\<close> fills in a value it is given, also when it fails.\<close>

record ('v, 'e) json =
  js_Marshal :: "'v \<Rightarrow> 'e + string"
  js_Unmarshal :: "string \<Rightarrow> 'v \<Rightarrow> 'e option \<times> 'v"

section \<open>Operations\<close>

definition ceil_seconds :: "int \<Rightarrow> int" where
  "ceil_seconds d = \<lceil>of_int d / (1000000000 :: rat)\<rceil>"

definition SetWithExpireCtx :: "('s, 'e) conn \<Rightarrow> ('v, 'e) json \<Rightarrow> string \<Rightarrow> 'v \<Rightarrow> int \<Rightarrow> int \<Rightarrow> 's \<Rightarrow> 'e option \<times> 's" where
  "SetWithExpireCtx cn js key val expire now s = (case js_Marshal js val of
     Inl e \<Rightarrow> (Some e, s)
   | Inr data \<Rightarrow> SetexCtx cn key data (ceil_seconds expire) now s)"

definition SetCtx :: "('s, 'e) conn \<Rightarrow> ('v, 'e) json \<Rightarrow> 'e cacheNode \<Rightarrow> rat \<Rightarrow> string \<Rightarrow> 'v \<Rightarrow> int \<Rightarrow> 's \<Rightarrow> 'e option \<times> 's" where
  "SetCtx cn js c draw key val now s = SetWithExpireCtx cn js key val (aroundDuration draw (expiry c)) now s"

definition setCacheWithNotFound :: "('s, 'e) conn \<Rightarrow> 'e cacheNode \<Rightarrow> rat \<Rightarrow> string \<Rightarrow> int \<Rightarrow> 's \<Rightarrow> ('e + bool) \<times> 's" where
  "setCacheWithNotFound cn c draw key now s =
     SetnxExCtx cn key notFoundPlaceholder (ceil_seconds (aroundDuration draw (notFoundExpiry c))) now s"

text \<open>\<open>DelCtx\<close>; it also gives the lists of keys handed to \<open>asyncRetryDelCache\<close>.\<close>

fun del_each :: "('s, 'e) conn \<Rightarrow> string list \<Rightarrow> int \<Rightarrow> 's \<Rightarrow> string list list \<times> 's" where
  "del_each cn [] now s = ([], s)"
| "del_each cn (key # keys) now s = (case redis_DelCtx cn [key] now s of (r, s1) \<Rightarrow>
     case del_each cn keys now s1 of (retries, s2) \<Rightarrow>
       (case r of Inl _ \<Rightarrow> [key] # retries | Inr _ \<Rightarrow> retries, s2))"

definition node_DelCtx :: "('s, 'e) conn \<Rightarrow> 'e cacheNode \<Rightarrow> string list \<Rightarrow> int \<Rightarrow> 's \<Rightarrow> string list list \<times> 's" where
  "node_DelCtx cn c keys now s =
     (if keys = [] then ([], s)
      else if length keys > 1 \<and> is_cluster c then del_each cn keys now s
      else case redis_DelCtx cn keys now s of (Inl _, s') \<Rightarrow> ([keys], s') | (Inr _, s') \<Rightarrow> ([], s'))"

text \<open>
  \<open>doGetCache\<close> reads and decodes (\<open>cache_look\<close>); \<open>processCache\<close> deletes what cannot be decoded. Between the two others
  may act.
\<close>

datatype ('e, 'v) looked = LookErr 'e | LookEmpty | LookPlaceholder | LookOk 'v | LookBad 'v

definition processCache :: "('v, 'e) json \<Rightarrow> string \<Rightarrow> 'v \<Rightarrow> ('e, 'v) looked" where
  "processCache js data v = (case js_Unmarshal js data v of (None, v') \<Rightarrow> LookOk v' | (Some _, v') \<Rightarrow> LookBad v')"

definition cache_look :: "('s, 'e) conn \<Rightarrow> ('v, 'e) json \<Rightarrow> string \<Rightarrow> 'v \<Rightarrow> int \<Rightarrow> 's \<Rightarrow> ('e, 'v) looked \<times> 's" where
  "cache_look cn js key v now s = (case GetCtx cn key now s of
     (Inl e, s') \<Rightarrow> (LookErr e, s')
   | (Inr data, s') \<Rightarrow> (if data = [] then LookEmpty else if data = notFoundPlaceholder then LookPlaceholder
       else processCache js data v, s'))"

datatype 'e get_error = ErrPlaceholder | GetError 'e

definition doGetCache :: "('s, 'e) conn \<Rightarrow> ('v, 'e) json \<Rightarrow> 'e cacheNode \<Rightarrow> string \<Rightarrow> 'v \<Rightarrow> int \<Rightarrow> int \<Rightarrow> 's \<Rightarrow> ('e get_error option \<times> 'v) \<times> 's" where
  "doGetCache cn js c key v now1 now2 s = (case cache_look cn js key v now1 s of
     (LookErr e, s') \<Rightarrow> ((Some (GetError e), v), s')
   | (LookEmpty, s') \<Rightarrow> ((Some (GetError (errNotFound c)), v), s')
   | (LookPlaceholder, s') \<Rightarrow> ((Some ErrPlaceholder, v), s')
   | (LookOk v', s') \<Rightarrow> ((None, v'), s')
   | (LookBad v', s') \<Rightarrow> ((Some (GetError (errNotFound c)), v'), snd (redis_DelCtx cn [key] now2 s')))"

definition node_GetCtx :: "('s, 'e) conn \<Rightarrow> ('v, 'e) json \<Rightarrow> 'e cacheNode \<Rightarrow> string \<Rightarrow> 'v \<Rightarrow> int \<Rightarrow> int \<Rightarrow> 's \<Rightarrow> ('e option \<times> 'v) \<times> 's" where
  "node_GetCtx cn js c key v now1 now2 s = (case doGetCache cn js c key v now1 now2 s of
     ((None, v'), s') \<Rightarrow> ((None, v'), s')
   | ((Some ErrPlaceholder, v'), s') \<Rightarrow> ((Some (errNotFound c), v'), s')
   | ((Some (GetError e), v'), s') \<Rightarrow> ((Some e, v'), s'))"

section \<open>Taking a value\<close>

text \<open>
  The function \<open>doTake\<close> runs in the single flight, cut where others may act: reading the cache, deleting what cannot be
  decoded, asking the database, caching the answer or the placeholder. It ends with an error or with the encoded value, next
  to the value the caller itself holds. The time of the read or query that the answer rests on is carried along for the
  statements; the code has no such field.
\<close>

datatype ('e, 'v) taken = TakeErr 'e | TakeBytes string 'v

datatype ('e, 'v) taking = TkLook | TkClear 'v | TkQuery 'v | TkCache 'v int | TkMark int | TkDone "('e, 'v) taken" int

definition marshalled :: "('v, 'e) json \<Rightarrow> 'v \<Rightarrow> int \<Rightarrow> ('e, 'v) taking" where
  "marshalled js v t = TkDone (case js_Marshal js v of Inl e \<Rightarrow> TakeErr e | Inr b \<Rightarrow> TakeBytes b v) t"

fun take_step :: "('s, 'e) conn \<Rightarrow> ('v, 'e) json \<Rightarrow> 'e cacheNode \<Rightarrow> 'v \<Rightarrow> rat \<Rightarrow> 'e option \<times> 'v \<Rightarrow> string \<Rightarrow> int \<Rightarrow>
    ('e, 'v) taking \<Rightarrow> 's \<Rightarrow> ('e, 'v) taking \<times> 's" where
  "take_step cn js c v0 draw reply key now TkLook s = (case cache_look cn js key v0 now s of
     (LookErr e, s') \<Rightarrow> (if e = errNotFound c then TkQuery v0 else TkDone (TakeErr e) now, s')
   | (LookEmpty, s') \<Rightarrow> (TkQuery v0, s')
   | (LookPlaceholder, s') \<Rightarrow> (TkDone (TakeErr (errNotFound c)) now, s')
   | (LookOk v, s') \<Rightarrow> (marshalled js v now, s')
   | (LookBad v, s') \<Rightarrow> (TkClear v, s'))"
| "take_step cn js c v0 draw reply key now (TkClear v) s = (TkQuery v, snd (redis_DelCtx cn [key] now s))"
| "take_step cn js c v0 draw reply key now (TkQuery v) s = (case reply of
     (None, v') \<Rightarrow> (TkCache v' now, s)
   | (Some e, v') \<Rightarrow> (if e = errNotFound c then TkMark now else TkDone (TakeErr e) now, s))"
| "take_step cn js c v0 draw reply key now (TkCache v t) s = (marshalled js v t, snd (SetCtx cn js c draw key v now s))"
| "take_step cn js c v0 draw reply key now (TkMark t) s = (TkDone (TakeErr (errNotFound c)) t, snd (setCacheWithNotFound cn c draw key now s))"
| "take_step cn js c v0 draw reply key now (TkDone r t) s = (TkDone r t, s)"

text \<open>What the caller makes of the result of \<open>DoEx\<close>.\<close>

fun take_result :: "('v, 'e) json \<Rightarrow> 'v \<Rightarrow> bool \<Rightarrow> ('e, 'v) taken \<Rightarrow> 'e + 'v" where
  "take_result js v0 fresh (TakeErr e) = Inl e"
| "take_result js v0 fresh (TakeBytes b v) = (if fresh then Inr v
     else case js_Unmarshal js b v0 of (None, v') \<Rightarrow> Inr v' | (Some e, v') \<Rightarrow> Inl e)"

text \<open>A caller that is alone runs the steps one after the other.\<close>

fun rank :: "('e, 'v) taking \<Rightarrow> nat" where
  "rank TkLook = 4" | "rank (TkClear v) = 3" | "rank (TkQuery v) = 2" | "rank (TkCache v t) = 1" | "rank (TkMark t) = 1" | "rank (TkDone r t) = 0"

fun query_reply :: "('v \<Rightarrow> 'e option \<times> 'v) \<Rightarrow> 'v \<Rightarrow> ('e, 'v) taking \<Rightarrow> 'e option \<times> 'v" where
  "query_reply query v0 (TkQuery v) = query v"
| "query_reply query v0 _ = (None, v0)"

fun take_done :: "('e, 'v) taking \<Rightarrow> ('e, 'v) taken option" where
  "take_done (TkDone r t) = Some r"
| "take_done _ = None"

lemma take_step_rank: "take_done p = None \<Longrightarrow> rank (fst (take_step cn js c v0 draw reply key now p s)) < rank p"
  by (cases p) (auto simp: marshalled_def split: prod.splits looked.splits option.splits)

function take_loop :: "('s, 'e) conn \<Rightarrow> ('v, 'e) json \<Rightarrow> 'e cacheNode \<Rightarrow> 'v \<Rightarrow> rat \<Rightarrow> ('v \<Rightarrow> 'e option \<times> 'v) \<Rightarrow> string \<Rightarrow> int \<Rightarrow>
    ('e, 'v) taking \<Rightarrow> 's \<Rightarrow> ('e, 'v) taken \<times> 's" where
  "take_loop cn js c v0 draw query key now p s = (case take_done p of
     Some r \<Rightarrow> (r, s)
   | None \<Rightarrow> (case take_step cn js c v0 draw (query_reply query v0 p) key now p s of (p', s') \<Rightarrow>
       take_loop cn js c v0 draw query key now p' s'))"
  by pat_completeness auto
termination
proof (relation "measure (\<lambda>(_, _, _, _, _, _, _, _, p, _). rank p)", goal_cases)
  case (2 cn js c v0 draw query key now p s p' s')
  then show ?case using take_step_rank [OF 2(1), of cn js c v0 draw "query_reply query v0 p" key now s]
    unfolding 2(2) [symmetric] in_measure by simp
qed simp

declare take_loop.simps [simp del]

definition doTake :: "('s, 'e) conn \<Rightarrow> ('v, 'e) json \<Rightarrow> 'e cacheNode \<Rightarrow> rat \<Rightarrow> string \<Rightarrow> 'v \<Rightarrow> ('v \<Rightarrow> 'e option \<times> 'v) \<Rightarrow> int \<Rightarrow> 's \<Rightarrow>
    ('e + 'v) \<times> 's" where
  "doTake cn js c draw key v0 query now s =
     (case take_loop cn js c v0 draw query key now TkLook s of (r, s') \<Rightarrow> (take_result js v0 True r, s'))"

section \<open>The world around a node\<close>

text \<open>
  The clock, the state of Redis, the history of the database (the writes, newest first: a key, the time, and the new
  record or its absence), and the longest time that has passed between a query and the caching of its answer.
\<close>

record ('s, 'v) world =
  clock :: int
  store :: 's
  writes :: "(string \<times> int \<times> 'v option) list"
  lag :: int

definition db_val :: "(string \<times> int \<times> 'v option) list \<Rightarrow> string \<Rightarrow> 'v option" where
  "db_val ws key = (case map_of ws key of None \<Rightarrow> None | Some (t, v) \<Rightarrow> v)"

text \<open>The record of the key was \<open>v\<close>, and whatever replaced it was written at time \<open>T\<close> or later.\<close>

definition current_since :: "int \<Rightarrow> string \<Rightarrow> 'v option \<Rightarrow> (string \<times> int \<times> 'v option) list \<Rightarrow> bool" where
  "current_since T key v ws \<longleftrightarrow> (\<exists>n\<le>length ws. db_val (drop n ws) key = v \<and> list_all (\<lambda>(k, t, x). k = key \<longrightarrow> T \<le> t) (take n ws))"

text \<open>
  What the caller relies on. Of Redis: a key reads as what was last stored under it, until it expires or is lost, and no
  command stores anything else; \<open>ent\<close> is what a state of the service holds, with the time it expires. Of JSON: what is
  encoded decodes to the same value, and no encoding is empty or the placeholder. Of the query: it gives the record of the
  database.
\<close>

definition keeps :: "('s \<Rightarrow> string \<Rightarrow> (string \<times> int) option) \<Rightarrow> 's \<Rightarrow> 's \<Rightarrow> (string \<times> string \<times> int) option \<Rightarrow> bool" where
  "keeps ent s s' new \<longleftrightarrow> (\<forall>k d x. ent s' k = Some (d, x) \<longrightarrow> ent s k = Some (d, x) \<or> new = Some (k, d, x))"

definition conn_laws :: "('s, 'e) conn \<Rightarrow> ('s \<Rightarrow> string \<Rightarrow> (string \<times> int) option) \<Rightarrow> bool" where
  "conn_laws cn ent \<longleftrightarrow>
     (\<forall>key now s. keeps ent s (snd (conn_Get cn key now s)) None \<and>
        (\<forall>d. fst (conn_Get cn key now s) = Inr (Some d) \<longrightarrow> (\<exists>x. ent s key = Some (d, x) \<and> now < x))) \<and>
     (\<forall>key d dur now s. 0 < dur \<longrightarrow> keeps ent s (snd (conn_Set cn key d dur now s)) (Some (key, d, now + dur))) \<and>
     (\<forall>key d dur now s. 0 < dur \<longrightarrow> keeps ent s (snd (conn_SetNX cn key d dur now s)) (Some (key, d, now + dur))) \<and>
     (\<forall>keys now s. keeps ent s (snd (conn_Del cn keys now s)) None)"

definition json_laws :: "('v, 'e) json \<Rightarrow> 'e \<Rightarrow> 'v \<Rightarrow> bool" where
  "json_laws js err v0 \<longleftrightarrow> (\<forall>v d. js_Marshal js v = Inr d \<longrightarrow> js_Unmarshal js d v0 = (None, v) \<and> d \<noteq> [] \<and> d \<noteq> notFoundPlaceholder) \<and>
     (\<forall>v. js_Marshal js v \<noteq> Inl err)"

definition answers :: "'e cacheNode \<Rightarrow> 'v option \<Rightarrow> 'e option \<times> 'v \<Rightarrow> bool" where
  "answers c rec reply \<longleftrightarrow> (case reply of (None, v) \<Rightarrow> rec = Some v | (Some e, v) \<Rightarrow> e = errNotFound c \<longrightarrow> rec = None)"

text \<open>
  A step of a caller at the present time, with any draw and any answer of the database; and what others do: time passes, records
  are written, keys are deleted (by \<open>DelCtx\<close> and by the retries of the cleaner), entries are lost.
\<close>

fun step_lag :: "int \<Rightarrow> ('e, 'v) taking \<Rightarrow> int" where
  "step_lag now (TkCache v t) = now - t"
| "step_lag now (TkMark t) = now - t"
| "step_lag now _ = 0"

inductive taking_step :: "('s, 'e) conn \<Rightarrow> ('v, 'e) json \<Rightarrow> 'e cacheNode \<Rightarrow> 'v \<Rightarrow> string \<Rightarrow>
    ('e, 'v) taking \<Rightarrow> ('s, 'v) world \<Rightarrow> ('e, 'v) taking \<Rightarrow> ('s, 'v) world \<Rightarrow> bool" for cn js c v0 where
  take_move: "0 \<le> draw \<Longrightarrow> draw \<le> 1 \<Longrightarrow> answers c (db_val (writes w) key) reply \<Longrightarrow> take_done p = None \<Longrightarrow>
    take_step cn js c v0 draw reply key (clock w) p (store w) = (p', s') \<Longrightarrow>
    taking_step cn js c v0 key p w p' (w\<lparr>store := s', lag := max (lag w) (step_lag (clock w) p)\<rparr>)"

inductive world_step :: "('s, 'e) conn \<Rightarrow> ('s \<Rightarrow> string \<Rightarrow> (string \<times> int) option) \<Rightarrow> 'e cacheNode \<Rightarrow> ('s, 'v) world \<Rightarrow> ('s, 'v) world \<Rightarrow> bool" for cn ent c where
  world_tick: "clock w \<le> t \<Longrightarrow> world_step cn ent c w (w\<lparr>clock := t\<rparr>)"
| world_write: "world_step cn ent c w (w\<lparr>writes := (key, clock w, v) # writes w\<rparr>)"
| world_delete: "world_step cn ent c w (w\<lparr>store := snd (node_DelCtx cn c keys (clock w) (store w))\<rparr>)"
| world_retry: "world_step cn ent c w (w\<lparr>store := snd (redis_DelCtx cn keys (clock w) (store w))\<rparr>)"
| world_lose: "keeps ent (store w) s' None \<Longrightarrow> world_step cn ent c w (w\<lparr>store := s'\<rparr>)"

text \<open>The function ends when it is done; the caller's query may panic.\<close>

inductive taking_ret :: "('e, 'v) taking \<Rightarrow> (('e, 'v) taken \<times> int) option \<Rightarrow> bool" where
  taken_done: "taking_ret (TkDone r t) (Some (r, t))"
| taken_panic: "taking_ret (TkQuery v) None"

definition Take_fn :: "('s, 'e) conn \<Rightarrow> ('s \<Rightarrow> string \<Rightarrow> (string \<times> int) option) \<Rightarrow> ('v, 'e) json \<Rightarrow> 'e cacheNode \<Rightarrow> 'v \<Rightarrow>
    (('e, 'v) taking, ('s, 'v) world, ('e, 'v) taken \<times> int) fn" where
  "Take_fn cn ent js c v0 = \<lparr>fn_init = TkLook, fn_step = taking_step cn js c v0, fn_ret = taking_ret, fn_env = world_step cn ent c\<rparr>"

subsection \<open>What was current stays known\<close>

definition later :: "('s, 'v) world \<Rightarrow> ('s, 'v) world \<Rightarrow> bool" where
  "later w w' \<longleftrightarrow> clock w \<le> clock w' \<and> lag w \<le> lag w' \<and>
     (\<exists>new. writes w' = new @ writes w \<and> list_all (\<lambda>(k, t, x). clock w \<le> t) new)"

lemma current_now: "current_since T key (db_val ws key) ws"
  unfolding current_since_def by (intro exI [of _ 0]) simp

lemma current_weaken: "current_since T key v ws \<Longrightarrow> T' \<le> T \<Longrightarrow> current_since T' key v ws"
  unfolding current_since_def by (fastforce elim: list.pred_mono_strong)

lemma current_append:
  assumes "current_since T key v ws" "list_all (\<lambda>(k, t, x). T \<le> t) new"
  shows "current_since T key v (new @ ws)"
proof -
  obtain n where n: "n \<le> length ws" "db_val (drop n ws) key = v" "list_all (\<lambda>(k, t, x). k = key \<longrightarrow> T \<le> t) (take n ws)"
    using assms(1) unfolding current_since_def by blast
  have "list_all (\<lambda>(k, t, x). k = key \<longrightarrow> T \<le> t) new" using assms(2) by (rule list.pred_mono_strong) auto
  then show ?thesis unfolding current_since_def using n by (intro exI [of _ "length new + n"]) simp
qed

lemma current_later:
  assumes "current_since T key v (writes w)" "later w w'" "T \<le> clock w" "T' \<le> T"
  shows "current_since T' key v (writes w')"
proof -
  obtain new where new: "writes w' = new @ writes w" "list_all (\<lambda>(k, t, x). clock w \<le> t) new" using assms(2) unfolding later_def by blast
  have "list_all (\<lambda>(k, t, x). T \<le> t) new" using new(2) by (rule list.pred_mono_strong) (use assms(3) in auto)
  then have "current_since T key v (writes w')" unfolding new(1) by (rule current_append [OF assms(1)])
  then show ?thesis using assms(4) by (rule current_weaken)
qed

subsection \<open>The invariant\<close>

text \<open>The longest time to live of a jittered duration.\<close>

definition ttl :: "int \<Rightarrow> int" where
  "ttl d = \<lceil>21 / 20 * of_int d / (1000000000 :: rat)\<rceil> * 1000000000"

lemma ttl_bound:
  assumes "0 \<le> draw" "draw \<le> 1" "2 \<le> d"
  shows "0 < ceil_seconds (aroundDuration draw d)" "ceil_seconds (aroundDuration draw d) * 1000000000 \<le> ttl d"
proof -
  have u: "NewUnstable node_deviation = 1 / 20" by (simp add: NewUnstable_def node_deviation_def)
  have "of_int (aroundDuration draw d) \<le> (1 + 1 / 20) * (of_int d :: rat)"
    using jitter_bounds [OF assms(1,2), of d node_deviation] assms(3) by (simp add: aroundDuration_def u)
  then have "\<lceil>of_int (aroundDuration draw d) / (1000000000 :: rat)\<rceil> \<le> \<lceil>21 / 20 * of_int d / (1000000000 :: rat)\<rceil>"
    by (intro ceiling_mono divide_right_mono) simp_all
  then show "ceil_seconds (aroundDuration draw d) * 1000000000 \<le> ttl d" by (simp add: ceil_seconds_def ttl_def)
  have "1 \<le> aroundDuration draw d" using around_pos [OF assms] by (simp add: aroundDuration_def u)
  then show "0 < ceil_seconds (aroundDuration draw d)" by (simp add: ceil_seconds_def)
qed

lemma ttl_nonneg: "2 \<le> d \<Longrightarrow> 0 \<le> ttl d"
  using ttl_bound [of 0 d] by simp

definition entry_ok :: "('v, 'e) json \<Rightarrow> 'e cacheNode \<Rightarrow> 'v \<Rightarrow> ('s, 'v) world \<Rightarrow> string \<Rightarrow> string \<Rightarrow> int \<Rightarrow> bool" where
  "entry_ok js c v0 w key d x \<longleftrightarrow>
     (d = notFoundPlaceholder \<and> (\<exists>t\<le>clock w. x \<le> t + lag w + ttl (notFoundExpiry c) \<and> current_since t key None (writes w))) \<or>
     (\<exists>v. js_Marshal js v = Inr d \<and> (\<exists>t\<le>clock w. x \<le> t + lag w + ttl (expiry c) \<and> current_since t key (Some v) (writes w))) \<or>
     (d \<noteq> [] \<and> d \<noteq> notFoundPlaceholder \<and> fst (js_Unmarshal js d v0) \<noteq> None)"

definition entries_ok :: "('s \<Rightarrow> string \<Rightarrow> (string \<times> int) option) \<Rightarrow> ('v, 'e) json \<Rightarrow> 'e cacheNode \<Rightarrow> 'v \<Rightarrow> ('s, 'v) world \<Rightarrow> bool" where
  "entries_ok ent js c v0 w \<longleftrightarrow> 0 \<le> lag w \<and> (\<forall>key d x. ent (store w) key = Some (d, x) \<longrightarrow> entry_ok js c v0 w key d x)"

fun taken_ok :: "('v, 'e) json \<Rightarrow> 'e cacheNode \<Rightarrow> ('s, 'v) world \<Rightarrow> string \<Rightarrow> ('e, 'v) taken \<Rightarrow> int \<Rightarrow> bool" where
  "taken_ok js c w key (TakeErr e) t \<longleftrightarrow> t \<le> clock w \<and>
     (e = errNotFound c \<longrightarrow> current_since (t - lag w - ttl (notFoundExpiry c)) key None (writes w))"
| "taken_ok js c w key (TakeBytes b v) t \<longleftrightarrow> t \<le> clock w \<and> js_Marshal js v = Inr b \<and>
     current_since (t - lag w - ttl (expiry c)) key (Some v) (writes w)"

fun phase_ok :: "('v, 'e) json \<Rightarrow> 'e cacheNode \<Rightarrow> ('s, 'v) world \<Rightarrow> string \<Rightarrow> ('e, 'v) taking \<Rightarrow> bool" where
  "phase_ok js c w key (TkCache v t) \<longleftrightarrow> t \<le> clock w \<and> current_since t key (Some v) (writes w)"
| "phase_ok js c w key (TkMark t) \<longleftrightarrow> t \<le> clock w \<and> current_since t key None (writes w)"
| "phase_ok js c w key (TkDone r t) \<longleftrightarrow> taken_ok js c w key r t"
| "phase_ok js c w key _ \<longleftrightarrow> True"

definition node_ok :: "'e cacheNode \<Rightarrow> bool" where
  "node_ok c \<longleftrightarrow> 2 \<le> expiry c \<and> 2 \<le> notFoundExpiry c"

lemma ttl_node: "node_ok c \<Longrightarrow> 0 \<le> ttl (expiry c)" "node_ok c \<Longrightarrow> 0 \<le> ttl (notFoundExpiry c)"
  by (simp_all add: node_ok_def ttl_nonneg)

lemma later_le: "later w w' \<Longrightarrow> clock w \<le> clock w'" "later w w' \<Longrightarrow> lag w \<le> lag w'"
  by (simp_all add: later_def)

lemma entry_ok_later:
  assumes "entry_ok js c v0 w key d x" "later w w'"
  shows "entry_ok js c v0 w' key d x"
proof -
  have *: "\<exists>t\<le>clock w'. x \<le> t + lag w' + y \<and> current_since t key v (writes w')"
    if "\<exists>t\<le>clock w. x \<le> t + lag w + y \<and> current_since t key v (writes w)" for y v
  proof -
    from that obtain t where t: "t \<le> clock w" "x \<le> t + lag w + y" "current_since t key v (writes w)" by blast
    show ?thesis using t later_le [OF assms(2)] current_later [OF t(3) assms(2) t(1) order_refl] by (intro exI [of _ t]) linarith
  qed
  show ?thesis using assms(1) * unfolding entry_ok_def by blast
qed

lemma taken_ok_later:
  assumes "taken_ok js c w key r t" "later w w'" "0 \<le> lag w" "node_ok c"
  shows "taken_ok js c w' key r t"
proof -
  note le = later_le [OF assms(2)]
  note y = ttl_node [OF assms(4)]
  have "current_since (t - lag w' - y) key v (writes w')" if "current_since (t - lag w - y) key v (writes w)" "t \<le> clock w" "0 \<le> y" for y v
    by (rule current_later [OF that(1) assms(2)]) (use that(2,3) le assms(3) in linarith)+
  then show ?thesis using assms(1) le y by (cases r) auto
qed

lemma phase_ok_later:
  assumes "phase_ok js c w key p" "later w w'" "0 \<le> lag w" "node_ok c"
  shows "phase_ok js c w' key p"
  using assms later_le [OF assms(2)] taken_ok_later [OF _ assms(2-4)] current_later [OF _ assms(2) _ order_refl] by (cases p) auto

lemma entries_keep:
  assumes "entries_ok ent js c v0 w" "later w w'" "keeps ent (store w) (store w') new"
    "\<And>k d x. new = Some (k, d, x) \<Longrightarrow> entry_ok js c v0 w' k d x"
  shows "entries_ok ent js c v0 w'"
  using assms(1,3,4) later_le(2) [OF assms(2)] entry_ok_later [OF _ assms(2)] unfolding entries_ok_def keeps_def by fastforce

lemma keeps_trans: "keeps ent s s1 None \<Longrightarrow> keeps ent s1 s2 None \<Longrightarrow> keeps ent s s2 None"
  unfolding keeps_def by fastforce

lemma keeps_refl [simp]: "keeps ent s s new"
  by (simp add: keeps_def)

lemma conn_lawsD:
  assumes "conn_laws cn ent"
  shows "keeps ent s (snd (conn_Get cn key now s)) None"
    "fst (conn_Get cn key now s) = Inr (Some d) \<Longrightarrow> \<exists>x. ent s key = Some (d, x) \<and> now < x"
    "0 < dur \<Longrightarrow> keeps ent s (snd (conn_Set cn key d dur now s)) (Some (key, d, now + dur))"
    "0 < dur \<Longrightarrow> keeps ent s (snd (conn_SetNX cn key d dur now s)) (Some (key, d, now + dur))"
    "keeps ent s (snd (conn_Del cn keys now s)) None"
  using assms unfolding conn_laws_def by blast+

lemma keeps_DelCtx: "conn_laws cn ent \<Longrightarrow> keeps ent s (snd (redis_DelCtx cn keys now s)) None"
  using conn_lawsD(5) [of cn ent s keys now] by (auto simp: redis_DelCtx_def split: prod.splits sum.splits)

lemma keeps_del_each: "conn_laws cn ent \<Longrightarrow> keeps ent s (snd (del_each cn keys now s)) None"
proof (induction keys arbitrary: s)
  case (Cons key keys)
  show ?case using keeps_trans [OF keeps_DelCtx [OF Cons.prems, of s "[key]" now] Cons.IH [OF Cons.prems]] by (simp add: split_def)
qed simp

lemma keeps_node_DelCtx: "conn_laws cn ent \<Longrightarrow> keeps ent s (snd (node_DelCtx cn c keys now s)) None"
  using keeps_del_each [of cn ent s keys now] keeps_DelCtx [of cn ent s keys now] by (auto simp: node_DelCtx_def split: prod.splits sum.splits)

lemma keeps_look: "conn_laws cn ent \<Longrightarrow> keeps ent s (snd (cache_look cn js key v now s)) None"
  using conn_lawsD(1) [of cn ent s key now] by (auto simp: cache_look_def GetCtx_def split: prod.splits sum.splits option.splits)

lemma look_cases:
  "fst (cache_look cn js key v0 now s) = (case fst (conn_Get cn key now s) of
     Inl e \<Rightarrow> LookErr e | Inr None \<Rightarrow> LookEmpty
   | Inr (Some d) \<Rightarrow> if d = [] then LookEmpty else if d = notFoundPlaceholder then LookPlaceholder else processCache js d v0)"
  by (auto simp: cache_look_def GetCtx_def split: prod.splits sum.splits option.splits)

lemma look_placeholder:
  assumes "conn_laws cn ent" "fst (cache_look cn js key v0 now s) = LookPlaceholder"
  shows "\<exists>x. ent s key = Some (notFoundPlaceholder, x) \<and> now < x"
proof -
  have "fst (conn_Get cn key now s) = Inr (Some notFoundPlaceholder)"
    using assms(2) unfolding look_cases by (auto simp: processCache_def split: sum.splits option.splits if_splits prod.splits)
  then show ?thesis by (rule conn_lawsD(2) [OF assms(1)])
qed

lemma look_value:
  assumes "conn_laws cn ent" "fst (cache_look cn js key v0 now s) = LookOk v"
  shows "\<exists>d x. ent s key = Some (d, x) \<and> now < x \<and> d \<noteq> notFoundPlaceholder \<and> js_Unmarshal js d v0 = (None, v)"
proof -
  obtain d where d: "fst (conn_Get cn key now s) = Inr (Some d)" "d \<noteq> notFoundPlaceholder" "js_Unmarshal js d v0 = (None, v)"
    using assms(2) unfolding look_cases by (auto simp: processCache_def split: sum.splits option.splits if_splits prod.splits)
  then show ?thesis using conn_lawsD(2) [OF assms(1) d(1)] by blast
qed

lemma current_live:
  assumes "\<exists>t\<le>clock w. x \<le> t + lag w + y \<and> current_since t key u (writes w)" "clock w < x"
  shows "current_since (clock w - lag w - y) key u (writes w)"
proof -
  from assms(1) obtain t where t: "x \<le> t + lag w + y" "current_since t key u (writes w)" by blast
  show ?thesis by (rule current_weaken [OF t(2)]) (use t(1) assms(2) in linarith)
qed

text \<open>What a look finds was current not too long ago.\<close>

lemma look_ok:
  assumes laws: "conn_laws cn ent" "json_laws js (errNotFound c) v0" and e: "entries_ok ent js c v0 w"
  shows "fst (cache_look cn js key v0 (clock w) (store w)) = LookPlaceholder \<Longrightarrow> taken_ok js c w key (TakeErr (errNotFound c)) (clock w)"
    and "fst (cache_look cn js key v0 (clock w) (store w)) = LookOk v \<Longrightarrow> phase_ok js c w key (marshalled js v (clock w))"
proof -
  have ent: "entry_ok js c v0 w key d x" if "ent (store w) key = Some (d, x)" for d x
    using e that unfolding entries_ok_def by blast
  have no: "js_Marshal js v \<noteq> Inr notFoundPlaceholder" for v using laws(2) unfolding json_laws_def by blast
  show "taken_ok js c w key (TakeErr (errNotFound c)) (clock w)" if l: "fst (cache_look cn js key v0 (clock w) (store w)) = LookPlaceholder"
  proof -
    obtain x where x: "ent (store w) key = Some (notFoundPlaceholder, x)" "clock w < x" using look_placeholder [OF laws(1) l] by blast
    have "\<exists>t\<le>clock w. x \<le> t + lag w + ttl (notFoundExpiry c) \<and> current_since t key None (writes w)"
      using ent [OF x(1)] no unfolding entry_ok_def by blast
    then show ?thesis using current_live x(2) by simp
  qed
  show "phase_ok js c w key (marshalled js v (clock w))" if l: "fst (cache_look cn js key v0 (clock w) (store w)) = LookOk v"
  proof -
    obtain d x where d: "ent (store w) key = Some (d, x)" "clock w < x" "d \<noteq> notFoundPlaceholder" "js_Unmarshal js d v0 = (None, v)"
      using look_value [OF laws(1) l] by blast
    obtain v' where v': "js_Marshal js v' = Inr d" "\<exists>t\<le>clock w. x \<le> t + lag w + ttl (expiry c) \<and> current_since t key (Some v') (writes w)"
      using ent [OF d(1)] d(3,4) unfolding entry_ok_def by auto
    have "js_Unmarshal js d v0 = (None, v')" using laws(2) v'(1) unfolding json_laws_def by blast
    then have "v' = v" using d(4) by simp
    then show ?thesis using v'(1) current_live [OF v'(2) d(2)] by (simp add: marshalled_def)
  qed
qed

lemma later_move: "later w (w\<lparr>store := s', lag := max (lag w) l\<rparr>)"
  by (simp add: later_def)

lemma set_ok:
  assumes laws: "conn_laws cn ent" and c: "node_ok c" and d: "0 \<le> draw" "draw \<le> 1" and e: "entries_ok ent js c v0 w"
    and p: "t \<le> clock w" "current_since t key (Some v) (writes w)"
  shows "entries_ok ent js c v0 (w\<lparr>store := snd (SetCtx cn js c draw key v (clock w) (store w)), lag := max (lag w) (clock w - t)\<rparr>)"
    (is "entries_ok _ _ _ _ ?w")
proof (cases "js_Marshal js v")
  case (Inl err)
  then show ?thesis by (intro entries_keep [OF e later_move, of _ _ None]) (simp_all add: SetCtx_def SetWithExpireCtx_def)
next
  case (Inr b)
  let ?d = "ceil_seconds (aroundDuration draw (expiry c)) * 1000000000"
  have b: "0 < ?d" "?d \<le> ttl (expiry c)" using ttl_bound [OF d, of "expiry c"] c by (simp_all add: node_ok_def)
  have "keeps ent (store w) (store ?w) (Some (key, b, clock w + ?d))"
    using conn_lawsD(3) [OF laws b(1)] by (simp add: SetCtx_def SetWithExpireCtx_def Inr SetexCtx_def)
  moreover have "entry_ok js c v0 ?w key b (clock w + ?d)"
    unfolding entry_ok_def using Inr p b(2) by (intro disjI2 disjI1 exI [of _ v] conjI exI [of _ t]) auto
  ultimately show ?thesis by (intro entries_keep [OF e later_move]) auto
qed

lemma mark_ok:
  assumes laws: "conn_laws cn ent" and c: "node_ok c" and d: "0 \<le> draw" "draw \<le> 1" and e: "entries_ok ent js c v0 w"
    and p: "t \<le> clock w" "current_since t key None (writes w)"
  shows "entries_ok ent js c v0 (w\<lparr>store := snd (setCacheWithNotFound cn c draw key (clock w) (store w)), lag := max (lag w) (clock w - t)\<rparr>)"
    (is "entries_ok _ _ _ _ ?w")
proof -
  let ?d = "ceil_seconds (aroundDuration draw (notFoundExpiry c)) * 1000000000"
  have b: "0 < ?d" "?d \<le> ttl (notFoundExpiry c)" using ttl_bound [OF d, of "notFoundExpiry c"] c by (simp_all add: node_ok_def)
  have "keeps ent (store w) (store ?w) (Some (key, notFoundPlaceholder, clock w + ?d))"
    using conn_lawsD(4) [OF laws b(1)] by (simp add: setCacheWithNotFound_def SetnxExCtx_def)
  moreover have "entry_ok js c v0 ?w key notFoundPlaceholder (clock w + ?d)"
    unfolding entry_ok_def using p b(2) by (intro disjI1 conjI exI [of _ t]) auto
  ultimately show ?thesis by (intro entries_keep [OF e later_move]) auto
qed

text \<open>A query and what follows it: the answer is current when it is given.\<close>

lemma done_ok:
  assumes "json_laws js (errNotFound c) v0" "0 \<le> lag w" "node_ok c" "t \<le> clock w" "current_since t key (Some v) (writes w)"
  shows "phase_ok js c w key (marshalled js v t)"
proof -
  have "current_since (t - lag w - ttl (expiry c)) key (Some v) (writes w)"
    by (rule current_weaken [OF assms(5)]) (use assms(2) ttl_node(1) [OF assms(3)] in linarith)
  moreover have "js_Marshal js v \<noteq> Inl (errNotFound c)" using assms(1) unfolding json_laws_def by blast
  ultimately show ?thesis using assms(4) by (auto simp: marshalled_def split: sum.splits)
qed

lemma taking_ok:
  assumes laws: "conn_laws cn ent" "json_laws js (errNotFound c) v0" and c: "node_ok c" and e: "entries_ok ent js c v0 w"
    and p: "phase_ok js c w key p" and st: "taking_step cn js c v0 key p w p' w'"
  shows "later w w' \<and> entries_ok ent js c v0 w' \<and> phase_ok js c w' key p'"
  using st
proof cases
  case (take_move draw reply s')
  have l: "0 \<le> lag w" using e by (simp add: entries_ok_def)
  have later: "later w w'" unfolding take_move(1) by (rule later_move)
  have keep: "entries_ok ent js c v0 w'" if "keeps ent (store w) s' None"
    by (rule entries_keep [OF e later, of None]) (use that take_move(1) in simp_all)
  have "entries_ok ent js c v0 w' \<and> phase_ok js c w key p'"
  proof (cases p)
    case TkLook
    have s': "s' = snd (cache_look cn js key v0 (clock w) (store w))"
      and p': "phase_ok js c w key p'"
      using take_move(6) look_ok [OF laws e, of key] unfolding TkLook by (auto split: prod.splits looked.splits if_splits)
    show ?thesis using keep [unfolded s', OF keeps_look [OF laws(1)]] p' by blast
  next
    case (TkClear v)
    show ?thesis using take_move(6) keep keeps_DelCtx [OF laws(1)] unfolding TkClear by auto
  next
    case (TkQuery v)
    have "current_since (clock w) key (db_val (writes w) key) (writes w)" by (rule current_now)
    then show ?thesis using take_move(4,6) keep unfolding TkQuery answers_def by (auto split: prod.splits option.splits if_splits)
  next
    case (TkCache v t)
    have t: "t \<le> clock w" "current_since t key (Some v) (writes w)" using p by (simp_all add: TkCache)
    show ?thesis using take_move(1,6) done_ok [OF laws(2) l c t] set_ok [OF laws(1) c take_move(2,3) e t] by (simp add: TkCache)
  next
    case (TkMark t)
    have t: "t \<le> clock w" "current_since t key None (writes w)" using p by (simp_all add: TkMark)
    have "current_since (t - lag w - ttl (notFoundExpiry c)) key None (writes w)"
      by (rule current_weaken [OF t(2)]) (use l ttl_node(2) [OF c] in linarith)
    then show ?thesis using take_move(1,6) t(1) mark_ok [OF laws(1) c take_move(2,3) e t] by (auto simp: TkMark)
  qed (use take_move(5) in simp)
  then show ?thesis using later phase_ok_later [OF _ later l c] by blast
qed

lemma world_ok:
  assumes laws: "conn_laws cn ent" and e: "entries_ok ent js c v0 w" and st: "world_step cn ent c w w'"
  shows "later w w' \<and> entries_ok ent js c v0 w'"
proof -
  have "later w w' \<and> keeps ent (store w) (store w') None" using st
    by cases (auto simp: later_def keeps_node_DelCtx [OF laws] keeps_DelCtx [OF laws])
  then show ?thesis using entries_keep [OF e, of w' None] by blast
qed

text \<open>\<open>Take\<close> is a client of the single flight.\<close>

lemma take_client:
  assumes laws: "conn_laws cn ent" "json_laws js (errNotFound c) v0" and c: "node_ok c"
  shows "flight_client (Take_fn cn ent js c v0) (entries_ok ent js c v0) (phase_ok js c) (\<lambda>w key (r, t). taken_ok js c w key r t)"
proof
  note f = Take_fn_def fn.simps
  fix w w' :: "('a, 'c) world" and key k p p' q and v :: "('b, 'c) taken \<times> int"
  have keep: "(phase_ok js c w k q \<longrightarrow> phase_ok js c w' k q) \<and> ((case v of (r, t) \<Rightarrow> taken_ok js c w k r t) \<longrightarrow> (case v of (r, t) \<Rightarrow> taken_ok js c w' k r t))"
    if "later w w'" "entries_ok ent js c v0 w"
    using phase_ok_later [OF _ that(1) _ c] taken_ok_later [OF _ that(1) _ c] that(2) by (auto simp: entries_ok_def split: prod.splits)
  show "phase_ok js c w key (fn_init (Take_fn cn ent js c v0))" by (simp add: f)
  show "case v of (r, t) \<Rightarrow> taken_ok js c w key r t" if "phase_ok js c w key p" "fn_ret (Take_fn cn ent js c v0) p (Some v)"
    using that unfolding f by (auto elim: taking_ret.cases)
  {
    assume e: "entries_ok ent js c v0 w" and st: "fn_env (Take_fn cn ent js c v0) w w'"
    have ok: "later w w' \<and> entries_ok ent js c v0 w'" using world_ok [OF laws(1) e] st unfolding f by blast
    then show "entries_ok ent js c v0 w'" by blast
    show "(phase_ok js c w k q \<longrightarrow> phase_ok js c w' k q) \<and> ((case v of (r, t) \<Rightarrow> taken_ok js c w k r t) \<longrightarrow> (case v of (r, t) \<Rightarrow> taken_ok js c w' k r t))"
      using keep ok e by blast
  }
  assume e: "entries_ok ent js c v0 w" and p: "phase_ok js c w key p" and st: "fn_step (Take_fn cn ent js c v0) key p w p' w'"
  have ok: "later w w' \<and> entries_ok ent js c v0 w' \<and> phase_ok js c w' key p'" using taking_ok [OF laws c e p] st unfolding f by blast
  then show "entries_ok ent js c v0 w' \<and> phase_ok js c w' key p'" by blast
  show "(phase_ok js c w k q \<longrightarrow> phase_ok js c w' k q) \<and> ((case v of (r, t) \<Rightarrow> taken_ok js c w k r t) \<longrightarrow> (case v of (r, t) \<Rightarrow> taken_ok js c w' k r t))"
    using keep ok e by blast
qed

text \<open>C8: (Bounded staleness.) Whatever readers, writers, deletions, retries, evictions and failures of Redis interleave, what \<open>Take\<close>
  returns was right not too long ago: a value was the record of its key, and a not-found error its absence, and whatever
  replaced it was written no longer before the read it rests on than the jittered time to live plus the longest delay between
  a query and the caching of its answer. Entries that cannot be decoded never lead to an answer.\<close>

theorem take_staleness_bounded:
  assumes "flight_run (Take_fn cn ent js c v0) w0 tr (g, w)"
    and "conn_laws cn ent" and "json_laws js (errNotFound c) v0" and "2 \<le> expiry c" and "2 \<le> notFoundExpiry c" and "lag w0 = 0"
    and "\<forall>key d x. ent (store w0) key = Some (d, x) \<longrightarrow> d \<noteq> [] \<and> d \<noteq> notFoundPlaceholder \<and> fst (js_Unmarshal js d v0) \<noteq> None"
    and "u < length (callers g)" and "callers g ! u = Finished key (Some (r, t)) fresh"
  shows "t \<le> clock w \<and> (case take_result js v0 fresh r of
      Inr v \<Rightarrow> current_since (t - lag w - ttl (expiry c)) key (Some v) (writes w)
    | Inl e \<Rightarrow> e = errNotFound c \<longrightarrow> current_since (t - lag w - ttl (notFoundExpiry c)) key None (writes w))"
proof -
  have "entry_ok js c v0 w0 key d x" if "ent (store w0) key = Some (d, x)" for key d x using assms(7) that unfolding entry_ok_def by blast
  then have "entries_ok ent js c v0 w0" using assms(6) unfolding entries_ok_def by simp
  then have "taken_ok js c w key r t"
    using flight_client.client_result [OF take_client assms(1) _ assms(8,9)] assms(2-5) by (simp add: node_ok_def)
  moreover have "js_Unmarshal js b v0 = (None, v)" if "js_Marshal js v = Inr b" for v b using assms(3) that unfolding json_laws_def by blast
  ultimately show ?thesis by (cases r) (auto split: sum.splits)
qed

subsection \<open>A race, replayed\<close>

text \<open>Actions that drive callers and the world, and what they do; an action that is not possible gives \<^const>\<open>None\<close>.\<close>

datatype ('v, 'e) move = ActCall string | ActStep nat "'e option \<times> 'v" | ActReturn nat | ActLeave nat | ActDone nat | ActWake nat
  | ActTick int | ActWrite string "'v option" | ActDel "string list"

primrec act :: "('s, 'e) conn \<Rightarrow> ('v, 'e) json \<Rightarrow> 'e cacheNode \<Rightarrow> 'v \<Rightarrow> ('v, 'e) move \<Rightarrow>
    (('e, 'v) taking, ('e, 'v) taken \<times> int) flightGroup \<times> ('s, 'v) world \<Rightarrow>
    ((('e, 'v) taking, ('e, 'v) taken \<times> int) flightGroup \<times> ('s, 'v) world) option" where
  "act cn js c v0 (ActCall key) = (\<lambda>(g, w). Some (flight_enter TkLook key g, w))"
| "act cn js c v0 (ActStep t reply) = (\<lambda>(g, w). (if t < length (callers g) then (case callers g ! t of
     Calling key d p \<Rightarrow> if answers c (db_val (writes w) key) reply \<and> take_done p = None
       then (case take_step cn js c v0 1 reply key (clock w) p (store w) of (p', s') \<Rightarrow>
         Some (put_caller t (Calling key d p') g, w\<lparr>store := s', lag := max (lag w) (step_lag (clock w) p)\<rparr>)) else None
   | _ \<Rightarrow> None) else None))"
| "act cn js c v0 (ActReturn t) = (\<lambda>(g, w). (if t < length (callers g) then (case callers g ! t of
     Calling key d (TkDone r u) \<Rightarrow> Some (put_caller t (Returned key d (Some (r, u))) (flight_store d (Some (r, u)) g), w)
   | _ \<Rightarrow> None) else None))"
| "act cn js c v0 (ActLeave t) = (\<lambda>(g, w). (if t < length (callers g) then (case callers g ! t of
     Returned key d r \<Rightarrow> Some (put_caller t (Leaving key d r) (flight_delete key g), w) | _ \<Rightarrow> None) else None))"
| "act cn js c v0 (ActDone t) = (\<lambda>(g, w). (if t < length (callers g) then (case callers g ! t of
     Leaving key d r \<Rightarrow> Some (put_caller t (Finished key r True) (flight_done d g), w) | _ \<Rightarrow> None) else None))"
| "act cn js c v0 (ActWake t) = (\<lambda>(g, w). (if t < length (callers g) then (case callers g ! t of
     Waiting key d \<Rightarrow> if wg (call_heap g ! d) = 0 then Some (put_caller t (Finished key (call_result (call_heap g ! d)) False) g, w) else None
   | _ \<Rightarrow> None) else None))"
| "act cn js c v0 (ActTick t) = (\<lambda>(g, w). (if clock w \<le> t then Some (g, w\<lparr>clock := t\<rparr>) else None))"
| "act cn js c v0 (ActWrite key v) = (\<lambda>(g, w). Some (g, w\<lparr>writes := (key, clock w, v) # writes w\<rparr>))"
| "act cn js c v0 (ActDel keys) = (\<lambda>(g, w). Some (g, w\<lparr>store := snd (node_DelCtx cn c keys (clock w) (store w))\<rparr>))"

fun acts :: "('s, 'e) conn \<Rightarrow> ('v, 'e) json \<Rightarrow> 'e cacheNode \<Rightarrow> 'v \<Rightarrow> ('v, 'e) move list \<Rightarrow>
    (('e, 'v) taking, ('e, 'v) taken \<times> int) flightGroup \<times> ('s, 'v) world \<Rightarrow>
    ((('e, 'v) taking, ('e, 'v) taken \<times> int) flightGroup \<times> ('s, 'v) world) option" where
  "acts cn js c v0 [] gw = Some gw"
| "acts cn js c v0 (a # as) gw = (case act cn js c v0 a gw of None \<Rightarrow> None | Some gw' \<Rightarrow> acts cn js c v0 as gw')"

lemma act_step:
  assumes "act cn js c v0 a gw = Some gw'"
  shows "\<exists>e. flight_step (Take_fn cn ent js c v0) gw e gw'"
proof -
  let ?F = "Take_fn cn ent js c v0"
  obtain g w where gw: "gw = (g, w)" by (cases gw)
  have F: "fn_init ?F = TkLook" "fn_step ?F = taking_step cn js c v0" "fn_ret ?F = taking_ret" "fn_env ?F = world_step cn ent c"
    by (simp_all add: Take_fn_def)
  show ?thesis
  proof (cases a)
    case (ActCall key)
    then show ?thesis using assms fl_call [of ?F g w key] by (auto simp: gw F)
  next
    case (ActStep t reply)
    then obtain key d p p' s' where p: "t < length (callers g)" "callers g ! t = Calling key d p" "answers c (db_val (writes w) key) reply"
      "take_done p = None" "take_step cn js c v0 1 reply key (clock w) p (store w) = (p', s')"
      "gw' = (put_caller t (Calling key d p') g, w\<lparr>store := s', lag := max (lag w) (step_lag (clock w) p)\<rparr>)"
      using assms by (auto simp: gw split: if_splits caller.splits prod.splits)
    have "taking_step cn js c v0 key p w p' (w\<lparr>store := s', lag := max (lag w) (step_lag (clock w) p)\<rparr>)"
      by (rule take_move [OF _ _ p(3-5)]) simp_all
    then show ?thesis using fl_fn [OF p(1,2), of ?F w p'] by (auto simp: gw p(6) F)
  next
    case (ActReturn t)
    then obtain key d r u where p: "t < length (callers g)" "callers g ! t = Calling key d (TkDone r u)"
      "gw' = (put_caller t (Returned key d (Some (r, u))) (flight_store d (Some (r, u)) g), w)"
      using assms by (auto simp: gw split: if_splits caller.splits taking.splits)
    show ?thesis using fl_return [OF p(1,2), of ?F] taken_done [of r u] by (auto simp: gw p(3) F)
  next
    case (ActLeave t)
    then show ?thesis using assms fl_leave [of t g _ _ _ ?F w] by (fastforce simp: gw split: if_splits caller.splits)
  next
    case (ActDone t)
    then show ?thesis using assms fl_done [of t g _ _ _ ?F w] by (fastforce simp: gw split: if_splits caller.splits)
  next
    case (ActWake t)
    then show ?thesis using assms fl_wake [of t g _ _ ?F w] by (fastforce simp: gw split: if_splits caller.splits)
  next
    case (ActTick t)
    then show ?thesis using assms fl_env [of ?F w "w\<lparr>clock := t\<rparr>" g] world_tick [of w t cn ent c] by (auto simp: gw F split: if_splits)
  next
    case (ActWrite key v)
    then show ?thesis using assms fl_env [of ?F w _ g, unfolded F, OF world_write] by (auto simp: gw)
  next
    case (ActDel keys)
    then show ?thesis using assms fl_env [of ?F w _ g, unfolded F, OF world_delete] by (auto simp: gw)
  qed
qed

lemma acts_run:
  "acts cn js c v0 as gw = Some gw' \<Longrightarrow> flight_run (Take_fn cn ent js c v0) w0 tr gw \<Longrightarrow> \<exists>tr'. flight_run (Take_fn cn ent js c v0) w0 tr' gw'"
proof (induction as arbitrary: gw tr)
  case (Cons a as)
  then obtain gw1 where a: "act cn js c v0 a gw = Some gw1" "acts cn js c v0 as gw1 = Some gw'" by (auto split: option.splits)
  show ?case using act_step [OF a(1), of ent] Cons.IH [OF a(2)] flight_more [OF Cons.prems(2)] by blast
qed auto

text \<open>A Redis that never fails, and the encoding of plain strings.\<close>

definition map_conn :: "((string, string \<times> int) gomap, string) conn" where
  "map_conn = \<lparr>
     conn_Get = (\<lambda>key now s. (Inr (case gm_get s key of Some (d, x) \<Rightarrow> if now < x then Some d else None | None \<Rightarrow> None), s)),
     conn_Set = (\<lambda>key d dur now s. (None, gm_set key (d, now + dur) s)),
     conn_SetNX = (\<lambda>key d dur now s. case gm_get s key of
        Some (e, x) \<Rightarrow> if now < x then (Inr False, s) else (Inr True, gm_set key (d, now + dur) s)
      | None \<Rightarrow> (Inr True, gm_set key (d, now + dur) s)),
     conn_Del = (\<lambda>keys now s. (Inr (int (length (filter (\<lambda>k. gm_get s k \<noteq> None) (remdups keys)))), fold gm_del keys s))\<rparr>"

lemma fold_gm_del: "gm_get (fold gm_del keys s) k = (if k \<in> set keys then None else gm_get s k)"
  by (induction keys arbitrary: s) (auto simp: gomap_simps)

lemma map_conn_laws: "conn_laws map_conn gm_get"
  by (auto simp: conn_laws_def keeps_def map_conn_def gomap_simps fold_gm_del split: option.splits if_splits)

definition string_json :: "(string, string) json" where
  "string_json = \<lparr>js_Marshal = (\<lambda>v. Inr (CHR 0x22 # v @ [CHR 0x22])),
     js_Unmarshal = (\<lambda>d v. if length d \<ge> 2 \<and> hd d = CHR 0x22 \<and> last d = CHR 0x22 then (None, butlast (tl d)) else (Some ''syntax'', v))\<rparr>"

lemma string_json_laws: "json_laws string_json err v0"
  by (simp add: json_laws_def string_json_def notFoundPlaceholder_def)

definition week_node :: "string cacheNode" where
  "week_node = NewNode False ''no rows'' []"

definition race :: "(string, string) move list" where
  "race = [ActWrite ''a'' (Some ''old''), ActCall ''a'', ActStep 0 (Some ''-'', ''''), ActStep 0 (None, ''old''),
     ActTick 5, ActWrite ''a'' (Some ''new''), ActDel [''a''], ActStep 0 (Some ''-'', ''''), ActReturn 0, ActLeave 0, ActDone 0,
     ActTick 9, ActCall ''a'', ActStep 1 (Some ''-'', ''''), ActReturn 1, ActLeave 1, ActDone 1]"

lemma week_node_eq: "week_node = \<lparr>expiry = 604800000000000, notFoundExpiry = 60000000000, errNotFound = ''no rows'', is_cluster = False\<rparr>"
  by (simp add: week_node_def NewNode_def newOptions_def Let_def defaultExpiry_def defaultNotFoundExpiry_def)

interpretation week_cache: flight_client "Take_fn map_conn gm_get string_json week_node v0" "entries_ok gm_get string_json week_node v0"
  "phase_ok string_json week_node" "\<lambda>w key (r, t). taken_ok string_json week_node w key r t" for v0
  by (rule take_client [OF map_conn_laws string_json_laws]) (simp add: node_ok_def week_node_eq)

lemma race_result: "\<exists>g w. acts map_conn string_json week_node '''' race (NewSingleFlight, \<lparr>clock = 0, store = [], writes = [], lag = 0\<rparr>) = Some (g, w) \<and>
    callers g = [Finished ''a'' (Some (TakeBytes [CHR 0x22, CHR ''o'', CHR ''l'', CHR ''d'', CHR 0x22] ''old'', 0)) True,
      Finished ''a'' (Some (TakeBytes [CHR 0x22, CHR ''o'', CHR ''l'', CHR ''d'', CHR 0x22] ''old'', 9)) True] \<and>
    clock w = 9 \<and> lag w = 5 \<and> writes w = [(''a'', 5, Some ''new''), (''a'', 0, Some ''old'')]"
proof -
  have "ceil_seconds (aroundDuration 1 604800000000000) * 1000000000 = 574560000000000"
    by (simp add: ceil_seconds_def aroundDuration_def AroundDuration_def trunc_def NewUnstable_def node_deviation_def)
  then show ?thesis
    by (simp add: race_def week_node_eq flight_enter_def createCall_def NewSingleFlight_def Let_def db_val_def answers_def cache_look_def GetCtx_def
      map_conn_def put_caller_def SetCtx_def SetWithExpireCtx_def SetexCtx_def string_json_def marshalled_def node_DelCtx_def redis_DelCtx_def
      flight_store_def flight_delete_def flight_done_def processCache_def notFoundPlaceholder_def)
qed

text \<open>The bound is not idle: a caller that has asked before a write and caches after the deletion that follows the write leaves
  the old record in the cache, and a call that begins later still gets it.\<close>

theorem take_staleness_bounded_witness:
  "\<exists>tr g w. flight_run (Take_fn map_conn gm_get string_json week_node '''') \<lparr>clock = 0, store = [], writes = [], lag = 0\<rparr> tr (g, w) \<and>
     callers g ! 1 = Finished ''a'' (Some (TakeBytes [CHR 0x22, CHR ''o'', CHR ''l'', CHR ''d'', CHR 0x22] ''old'', 9)) True \<and>
     db_val (writes w) ''a'' = Some ''new'' \<and> current_since (9 - 5 - ttl (expiry week_node)) ''a'' (Some ''old'') (writes w)"
proof -
  let ?w0 = "\<lparr>clock = 0, store = [], writes = [], lag = 0\<rparr> :: ((string, string \<times> int) gomap, string) world"
  obtain g w where gw: "acts map_conn string_json week_node '''' race (NewSingleFlight, ?w0) = Some (g, w)"
    "callers g = [Finished ''a'' (Some (TakeBytes [CHR 0x22, CHR ''o'', CHR ''l'', CHR ''d'', CHR 0x22] ''old'', 0)) True,
      Finished ''a'' (Some (TakeBytes [CHR 0x22, CHR ''o'', CHR ''l'', CHR ''d'', CHR 0x22] ''old'', 9)) True]"
    "lag w = 5" "writes w = [(''a'', 5, Some ''new''), (''a'', 0, Some ''old'')]" using race_result by blast
  obtain tr where tr: "flight_run (Take_fn map_conn gm_get string_json week_node '''') ?w0 tr (g, w)"
    using acts_run [OF gw(1) flight_start] by blast
  have "current_since (9 - 5 - ttl (expiry week_node)) ''a'' (Some ''old'') (writes w)"
    using take_staleness_bounded [OF tr map_conn_laws string_json_laws, of 1 "''a''" _ 9 True] gw(2,3) by (simp add: week_node_eq)
  moreover have "db_val (writes w) ''a'' = Some ''new''" by (simp add: gw(4) db_val_def)
  ultimately show ?thesis using tr gw(2) by (intro exI [of _ tr] exI [of _ g] exI [of _ w]) simp
qed

section \<open>What the cache saves\<close>

text \<open>A Redis that does not fail: every command does what it is documented to do.\<close>

definition live_at :: "('s \<Rightarrow> string \<Rightarrow> (string \<times> int) option) \<Rightarrow> 's \<Rightarrow> int \<Rightarrow> string \<Rightarrow> string option" where
  "live_at ent s now key = (case ent s key of Some (d, x) \<Rightarrow> if now < x then Some d else None | None \<Rightarrow> None)"

definition conn_exact :: "('s, 'e) conn \<Rightarrow> ('s \<Rightarrow> string \<Rightarrow> (string \<times> int) option) \<Rightarrow> bool" where
  "conn_exact cn ent \<longleftrightarrow>
     (\<forall>key now s. fst (conn_Get cn key now s) = Inr (live_at ent s now key) \<and> ent (snd (conn_Get cn key now s)) = ent s) \<and>
     (\<forall>key d dur now s. 0 < dur \<longrightarrow> fst (conn_Set cn key d dur now s) = None \<and>
        ent (snd (conn_Set cn key d dur now s)) = (ent s)(key \<mapsto> (d, now + dur))) \<and>
     (\<forall>key d dur now s. 0 < dur \<longrightarrow> live_at ent s now key = None \<longrightarrow> fst (conn_SetNX cn key d dur now s) = Inr True \<and>
        ent (snd (conn_SetNX cn key d dur now s)) = (ent s)(key \<mapsto> (d, now + dur)))"

lemma conn_exactD:
  assumes "conn_exact cn ent"
  shows "fst (conn_Get cn key now s) = Inr (live_at ent s now key)" "ent (snd (conn_Get cn key now s)) = ent s"
    "0 < dur \<Longrightarrow> ent (snd (conn_Set cn key d dur now s)) = (ent s)(key \<mapsto> (d, now + dur))"
    "0 < dur \<Longrightarrow> live_at ent s now key = None \<Longrightarrow> ent (snd (conn_SetNX cn key d dur now s)) = (ent s)(key \<mapsto> (d, now + dur))"
  using assms unfolding conn_exact_def by blast+

lemma look_exact:
  assumes "conn_exact cn ent"
  shows "fst (cache_look cn js key v0 now s) = (case live_at ent s now key of None \<Rightarrow> LookEmpty
     | Some d \<Rightarrow> if d = [] then LookEmpty else if d = notFoundPlaceholder then LookPlaceholder else processCache js d v0)"
    "ent (snd (cache_look cn js key v0 now s)) = ent s"
  using conn_exactD(1,2) [OF assms, of key now s] unfolding look_cases
  by (auto simp: cache_look_def GetCtx_def split: option.splits prod.splits sum.splits)

lemma covers: "0 \<le> draw \<Longrightarrow> draw \<le> 1 \<Longrightarrow> 2 \<le> d \<Longrightarrow> aroundDuration draw d \<le> ceil_seconds (aroundDuration draw d) * 1000000000"
proof -
  have "of_int (aroundDuration draw d) / 1000000000 \<le> (of_int (ceil_seconds (aroundDuration draw d)) :: rat)" by (simp add: ceil_seconds_def)
  then have "(of_int (aroundDuration draw d) :: rat) \<le> of_int (ceil_seconds (aroundDuration draw d) * 1000000000)" by (simp add: field_simps)
  then show ?thesis by linarith
qed

text \<open>A live entry answers without the query.\<close>

lemma take_hit:
  assumes "conn_exact cn ent" "json_laws js (errNotFound c) v0" "live_at ent s now key = Some b" "js_Marshal js v = Inr b"
  shows "fst (doTake cn js c draw key v0 query now s) = Inr v"
proof -
  have b: "js_Unmarshal js b v0 = (None, v)" "b \<noteq> []" "b \<noteq> notFoundPlaceholder" using assms(2,4) unfolding json_laws_def by blast+
  then have "fst (cache_look cn js key v0 now s) = LookOk v" using look_exact(1) [OF assms(1), of js key v0 now s] assms(3) by (simp add: processCache_def)
  then show ?thesis using assms(4)
    by (cases "cache_look cn js key v0 now s") (simp add: doTake_def take_loop.simps [of _ _ _ _ _ _ _ _ TkLook] take_loop.simps [of _ _ _ _ _ _ _ _ "TkDone _ _"] marshalled_def)
qed

lemma take_absent:
  assumes "conn_exact cn ent" "live_at ent s now key = Some notFoundPlaceholder"
  shows "fst (doTake cn js c draw key v0 query now s) = Inl (errNotFound c)"
proof -
  have "fst (cache_look cn js key v0 now s) = LookPlaceholder"
    using look_exact(1) [OF assms(1), of js key v0 now s] assms(2) by (simp add: notFoundPlaceholder_def)
  then show ?thesis
    by (cases "cache_look cn js key v0 now s") (simp add: doTake_def take_loop.simps [of _ _ _ _ _ _ _ _ TkLook] take_loop.simps [of _ _ _ _ _ _ _ _ "TkDone _ _"])
qed

lemma take_miss:
  assumes "conn_exact cn ent" "live_at ent s now key = None"
  shows "\<exists>s1. ent s1 = ent s \<and> take_loop cn js c v0 draw query key now TkLook s = take_loop cn js c v0 draw query key now (TkQuery v0) s1"
proof -
  have "fst (cache_look cn js key v0 now s) = LookEmpty" using look_exact(1) [OF assms(1), of js key v0 now s] assms(2) by simp
  then show ?thesis using look_exact(2) [OF assms(1), of js key v0 now s]
    by (cases "cache_look cn js key v0 now s") (simp add: take_loop.simps [of _ _ _ _ _ _ _ _ TkLook] exI [of _ "snd (cache_look cn js key v0 now s)"])
qed

text \<open>C25: (Cached answers.) On a Redis that does not fail, a \<open>Take\<close> of a key that is not cached asks the query once and returns what it
  gives. A value, and the absence of a record, are then answered from the cache until the jittered expiration, whatever the
  query would say; another error is returned and nothing is cached.\<close>

theorem take_fills_cache:
  assumes "conn_exact cn ent" and "json_laws js (errNotFound c) v0" and "2 \<le> expiry c" and "2 \<le> notFoundExpiry c"
    and "0 \<le> draw" and "draw \<le> 1" and "live_at ent s now key = None"
  shows "case query v0 of
      (None, v) \<Rightarrow> (\<forall>b. js_Marshal js v = Inr b \<longrightarrow> (case doTake cn js c draw key v0 query now s of (r, s') \<Rightarrow> r = Inr v \<and>
        (\<forall>draw' query' now'. now' < now + aroundDuration draw (expiry c) \<longrightarrow> fst (doTake cn js c draw' key v0 query' now' s') = Inr v)))
    | (Some e, v) \<Rightarrow> (case doTake cn js c draw key v0 query now s of (r, s') \<Rightarrow> r = Inl e \<and>
        (if e = errNotFound c then (\<forall>draw' query' now'. now' < now + aroundDuration draw (notFoundExpiry c) \<longrightarrow>
           fst (doTake cn js c draw' key v0 query' now' s') = Inl e)
         else ent s' = ent s))"
proof -
  obtain s1 where s1: "ent s1 = ent s"
    "take_loop cn js c v0 draw query key now TkLook s = take_loop cn js c v0 draw query key now (TkQuery v0) s1" 
    using take_miss [OF assms(1,7), where js = js and c = c and ?v0.0 = v0 and draw = draw and query = query] by blast
  note loop = take_loop.simps [of _ _ _ _ _ _ _ _ "TkQuery _"] take_loop.simps [of _ _ _ _ _ _ _ _ "TkCache _ _"]
    take_loop.simps [of _ _ _ _ _ _ _ _ "TkMark _"] take_loop.simps [of _ _ _ _ _ _ _ _ "TkDone _ _"]
  have live: "live_at ent s1 now key = None" using assms(7) s1(1) by (simp add: live_at_def)
  show ?thesis
  proof (cases "query v0")
    case (Pair err v)
    let ?b = "ceil_seconds (aroundDuration draw (expiry c)) * 1000000000" and ?n = "ceil_seconds (aroundDuration draw (notFoundExpiry c)) * 1000000000"
    have pos: "0 < ?b" "0 < ?n" "aroundDuration draw (expiry c) \<le> ?b" "aroundDuration draw (notFoundExpiry c) \<le> ?n"
      using ttl_bound(1) [OF assms(5,6)] covers [OF assms(5,6)] assms(3,4) by simp_all
    show ?thesis
    proof (cases err)
      case None
      show ?thesis unfolding Pair None prod.case option.case
      proof (intro allI impI)
        fix b assume b: "js_Marshal js v = Inr b"
        let ?s = "snd (conn_Set cn key b ?b now s1)"
        have t: "doTake cn js c draw key v0 query now s = (Inr v, ?s)"
          by (simp add: doTake_def s1(2) loop Pair None marshalled_def b SetCtx_def SetWithExpireCtx_def SetexCtx_def)
        have "live_at ent ?s now' key = Some b" if "now' < now + aroundDuration draw (expiry c)" for now'
          using that pos(3) by (simp add: live_at_def conn_exactD(3) [OF assms(1) pos(1)])
        then show "case doTake cn js c draw key v0 query now s of (r, s') \<Rightarrow> r = Inr v \<and>
          (\<forall>draw' query' now'. now' < now + aroundDuration draw (expiry c) \<longrightarrow> fst (doTake cn js c draw' key v0 query' now' s') = Inr v)"
          unfolding t using take_hit [OF assms(1,2) _ b] by simp
      qed
    next
      case (Some e)
      let ?s = "snd (conn_SetNX cn key notFoundPlaceholder ?n now s1)"
      have t: "doTake cn js c draw key v0 query now s = (Inl e, if e = errNotFound c then ?s else s1)"
        by (simp add: doTake_def s1(2) loop Pair Some setCacheWithNotFound_def SetnxExCtx_def)
      have "fst (doTake cn js c draw' key v0 query' now' ?s) = Inl (errNotFound c)"
        if "now' < now + aroundDuration draw (notFoundExpiry c)" for draw' query' now'
        by (rule take_absent [OF assms(1)]) (use that pos(4) in \<open>simp add: live_at_def conn_exactD(4) [OF assms(1) pos(2) live]\<close>)
      then show ?thesis unfolding Pair Some prod.case option.case t using s1(1) by simp
    qed
  qed
qed

theorem take_fills_cache_witness:
  "fst (doTake map_conn string_json week_node 0 ''a'' '''' (\<lambda>_. (Some ''down'', '''')) 86400000000000
     (snd (doTake map_conn string_json week_node 0 ''a'' '''' (\<lambda>_. (None, ''x'')) 0 []))) = Inr ''x''"
proof -
  have exact: "conn_exact map_conn gm_get" by (simp add: conn_exact_def map_conn_def live_at_def update_conv' split: option.splits)
  have "aroundDuration 0 (expiry week_node) = 635040000000000"
    by (simp add: week_node_eq aroundDuration_def AroundDuration_def trunc_def NewUnstable_def node_deviation_def)
  then show ?thesis
    using take_fills_cache [OF exact string_json_laws, where c = week_node and draw = 0 and s = "[]" and now = 0 and key = "''a''" and query = "\<lambda>_. (None, ''x'')" and ?v0.0 = "[]"]
    by (simp add: week_node_eq live_at_def string_json_def split: prod.splits)
qed

section \<open>Retried deletions\<close>

text \<open>
  \<open>src/infra/stores/cache/cleaner.go\<close>: a deletion that failed is tried again by a timing wheel, with growing delays. The
  outcome of the \<open>n\<close>-th run of the task is an argument; the result is the delays before each run and whether the last one
  succeeded.
\<close>

definition nextDelay :: "int \<Rightarrow> int option" where
  "nextDelay delay = (if delay = 1000000000 then Some 5000000000 else if delay = 5000000000 then Some 60000000000
     else if delay = 60000000000 then Some 300000000000 else if delay = 300000000000 then Some 3600000000000 else None)"

lemma nextDelay_grows: "nextDelay d = Some d' \<Longrightarrow> d < d' \<and> d' \<le> 3600000000000"
  by (auto simp: nextDelay_def split: if_splits)

function clean :: "(nat \<Rightarrow> bool) \<Rightarrow> nat \<Rightarrow> int \<Rightarrow> int list \<times> bool" where
  "clean task n delay = (if task n then ([delay], True)
     else case nextDelay delay of
       Some d \<Rightarrow> (case clean task (Suc n) d of (ds, cleared) \<Rightarrow> (delay # ds, cleared))
     | None \<Rightarrow> ([delay], False))"
  by pat_completeness auto
termination
  by (relation "measure (\<lambda>(_, _, delay). nat (3600000000000 - delay))") (auto dest: nextDelay_grows)

declare clean.simps [simp del]

definition AddCleanTask :: "(nat \<Rightarrow> bool) \<Rightarrow> int list \<times> bool" where
  "AddCleanTask task = clean task 0 1000000000"

text \<open>C39: (Termination.) A failed deletion is retried after 1 second, 5 seconds, 1 minute, 5 minutes and 1 hour, and no further: it runs
  until it first succeeds, at most five times, and is given up exactly when all five runs fail.\<close>

theorem clean_retries:
  "AddCleanTask task = (take (Suc (length (takeWhile (\<lambda>n. \<not> task n) [0..<5]))) [1000000000, 5000000000, 60000000000, 300000000000, 3600000000000],
     \<exists>n<5. task n)"
proof -
  have five: "(\<exists>n<5. task n) \<longleftrightarrow> task 0 \<or> task 1 \<or> task 2 \<or> task 3 \<or> task 4" "[0..<5] = [0, 1, 2, 3, 4 :: nat]"
    by (auto simp: numeral_eq_Suc less_Suc_eq)
  show ?thesis unfolding five AddCleanTask_def by (simp add: clean.simps nextDelay_def numeral_eq_Suc)
qed

end
