(* ===== verification/Sharded_Store.thy ===== *)
theory Sharded_Store
  imports Consistent_Hash Cache_Node
begin

text \<open>
  Stores spread over several Redis nodes by the consistent hash of the key: the key-value store
  (\<open>src/infra/stores/kv/store.go\<close>) and the cache cluster (\<open>src/infra/stores/cache/cache.go\<close>). A node is its address, and the
  state of a cluster gives the state of each node. The theory shows that spreading is transparent: commands on a cluster do
  what they do on one store that holds everything.
\<close>

section \<open>The key-value store\<close>

type_synonym node_conf = "string \<times> int"

definition TotalWeights :: "node_conf list \<Rightarrow> int" where
  "TotalWeights c = sum_list (map (\<lambda>(_, weight). if weight < 0 then 0 else weight) c)"

text \<open>\<open>NewStore\<close>, and the dispatcher of \<open>New\<close>; \<^const>\<open>None\<close> is the fatal exit.\<close>

definition NewStore :: "(string \<Rightarrow> nat) \<Rightarrow> node_conf list \<Rightarrow> ConsistentHash option" where
  "NewStore hash c = (if c = [] \<or> TotalWeights c \<le> 0 then None
     else Some (fold (\<lambda>(node, weight). AddWithWeight hash node weight) c NewConsistentHash))"

datatype 'e store_error = ErrNoRedisNode | NodeError 'e

definition getRedis :: "(string \<Rightarrow> nat) \<Rightarrow> ConsistentHash \<Rightarrow> string \<Rightarrow> panic + ('e store_error + string)" where
  "getRedis hash dispatcher key = (case ConsistentHash_Get hash key dispatcher of
     Inl p \<Rightarrow> Inl p
   | Inr None \<Rightarrow> Inr (Inl ErrNoRedisNode)
   | Inr (Some node) \<Rightarrow> Inr (Inr node))"

text \<open>
  Every method for one key looks up the node of the key and runs the command of the same name on it; \<open>cmd\<close> is that command
  with its arguments.
\<close>

definition kv_command :: "(string \<Rightarrow> nat) \<Rightarrow> ConsistentHash \<Rightarrow> (string \<Rightarrow> 's \<Rightarrow> ('e + 'r) \<times> 's) \<Rightarrow> string \<Rightarrow> (string \<Rightarrow> 's) \<Rightarrow>
    panic + ('e store_error + 'r) \<times> (string \<Rightarrow> 's)" where
  "kv_command hash dispatcher cmd key st = (case getRedis hash dispatcher key of
     Inl p \<Rightarrow> Inl p
   | Inr (Inl err) \<Rightarrow> Inr (Inl err, st)
   | Inr (Inr node) \<Rightarrow> (case cmd key (st node) of
       (Inl e, s) \<Rightarrow> Inr (Inl (NodeError e), st(node := s))
     | (Inr r, s) \<Rightarrow> Inr (Inr r, st(node := s))))"

text \<open>\<open>DelCtx\<close> goes through the keys, adds up what was deleted and collects the errors.\<close>

fun kv_DelCtx :: "(string \<Rightarrow> nat) \<Rightarrow> ConsistentHash \<Rightarrow> (string \<Rightarrow> 's \<Rightarrow> ('e + int) \<times> 's) \<Rightarrow> string list \<Rightarrow> (string \<Rightarrow> 's) \<Rightarrow>
    panic + (int \<times> 'e store_error list) \<times> (string \<Rightarrow> 's)" where
  "kv_DelCtx hash dispatcher del [] st = Inr ((0, []), st)"
| "kv_DelCtx hash dispatcher del (key # keys) st = (case kv_command hash dispatcher del key st of
     Inl p \<Rightarrow> Inl p
   | Inr (r, st1) \<Rightarrow> (case kv_DelCtx hash dispatcher del keys st1 of
       Inl p \<Rightarrow> Inl p
     | Inr ((val, errs), st2) \<Rightarrow> Inr (case r of Inl e \<Rightarrow> (val, e # errs) | Inr v \<Rightarrow> (v + val, errs), st2)))"

subsection \<open>One store\<close>

text \<open>
  The contract: one map from keys to values. A command reads and replaces the value of its key (\<open>spec\<close>); deleting counts
  the keys that were there. \<open>view\<close> is the map that a node holds.
\<close>

datatype 'c kv_op = KvCmd 'c string | KvDel "string list"

datatype ('e, 'r) kv_reply = KvReply "'e store_error + 'r" | KvDeleted int "'e store_error list"

fun kv_step :: "(string \<Rightarrow> nat) \<Rightarrow> ConsistentHash \<Rightarrow> ('c \<Rightarrow> string \<Rightarrow> 's \<Rightarrow> ('e + 'r) \<times> 's) \<Rightarrow> (string \<Rightarrow> 's \<Rightarrow> ('e + int) \<times> 's) \<Rightarrow>
    'c kv_op \<Rightarrow> (string \<Rightarrow> 's) \<Rightarrow> panic + ('e, 'r) kv_reply \<times> (string \<Rightarrow> 's)" where
  "kv_step hash d cmd del (KvCmd c key) st = (case kv_command hash d (cmd c) key st of Inl p \<Rightarrow> Inl p | Inr (r, st') \<Rightarrow> Inr (KvReply r, st'))"
| "kv_step hash d cmd del (KvDel keys) st = (case kv_DelCtx hash d del keys st of
     Inl p \<Rightarrow> Inl p | Inr ((val, errs), st') \<Rightarrow> Inr (KvDeleted val errs, st'))"

fun kv_run :: "(string \<Rightarrow> nat) \<Rightarrow> ConsistentHash \<Rightarrow> ('c \<Rightarrow> string \<Rightarrow> 's \<Rightarrow> ('e + 'r) \<times> 's) \<Rightarrow> (string \<Rightarrow> 's \<Rightarrow> ('e + int) \<times> 's) \<Rightarrow>
    'c kv_op list \<Rightarrow> (string \<Rightarrow> 's) \<Rightarrow> panic + ('e, 'r) kv_reply list \<times> (string \<Rightarrow> 's)" where
  "kv_run hash d cmd del [] st = Inr ([], st)"
| "kv_run hash d cmd del (x # xs) st = (case kv_step hash d cmd del x st of
     Inl p \<Rightarrow> Inl p
   | Inr (r, st1) \<Rightarrow> (case kv_run hash d cmd del xs st1 of Inl p \<Rightarrow> Inl p | Inr (rs, st2) \<Rightarrow> Inr (r # rs, st2)))"

fun one_step :: "('c \<Rightarrow> 'd option \<Rightarrow> ('e + 'r) \<times> 'd option) \<Rightarrow> 'c kv_op \<Rightarrow> (string \<rightharpoonup> 'd) \<Rightarrow> ('e, 'r) kv_reply \<times> (string \<rightharpoonup> 'd)" where
  "one_step spec (KvCmd c key) m = (KvReply (map_sum NodeError id (fst (spec c (m key)))), m(key := snd (spec c (m key))))"
| "one_step spec (KvDel keys) m = (KvDeleted (int (card (set keys \<inter> dom m))) [], m |` (- set keys))"

fun one_run :: "('c \<Rightarrow> 'd option \<Rightarrow> ('e + 'r) \<times> 'd option) \<Rightarrow> 'c kv_op list \<Rightarrow> (string \<rightharpoonup> 'd) \<Rightarrow> ('e, 'r) kv_reply list \<times> (string \<rightharpoonup> 'd)" where
  "one_run spec [] m = ([], m)"
| "one_run spec (x # xs) m = (case one_step spec x m of (r, m1) \<Rightarrow> case one_run spec xs m1 of (rs, m2) \<Rightarrow> (r # rs, m2))"

definition implements :: "('s \<Rightarrow> string \<Rightarrow> 'd option) \<Rightarrow> (string \<Rightarrow> 's \<Rightarrow> ('e + 'r) \<times> 's) \<Rightarrow> ('d option \<Rightarrow> ('e + 'r) \<times> 'd option) \<Rightarrow> bool" where
  "implements view cmd spec \<longleftrightarrow> (\<forall>key s. fst (cmd key s) = fst (spec (view s key)) \<and> view (snd (cmd key s)) = (view s)(key := snd (spec (view s key))))"

definition del_spec :: "'d option \<Rightarrow> ('e + int) \<times> 'd option" where
  "del_spec x = (Inr (if x = None then 0 else 1), None)"

text \<open>The map that a cluster holds: each key as its own node has it.\<close>

definition cluster_view :: "(string \<Rightarrow> nat) \<Rightarrow> ConsistentHash \<Rightarrow> ('s \<Rightarrow> string \<Rightarrow> 'd option) \<Rightarrow> (string \<Rightarrow> 's) \<Rightarrow> string \<rightharpoonup> 'd" where
  "cluster_view hash d view st key = (case ConsistentHash_Get hash key d of Inr (Some node) \<Rightarrow> view (st node) key | _ \<Rightarrow> None)"

definition serves :: "(string \<Rightarrow> nat) \<Rightarrow> ConsistentHash \<Rightarrow> bool" where
  "serves hash d \<longleftrightarrow> (\<forall>key. \<exists>node. ConsistentHash_Get hash key d = Inr (Some node))"

lemma kv_command_view:
  assumes "serves hash d" "implements view cmd spec"
  shows "\<exists>st'. kv_command hash d cmd key st = Inr (map_sum NodeError id (fst (spec (cluster_view hash d view st key))), st') \<and>
    cluster_view hash d view st' = (cluster_view hash d view st)(key := snd (spec (cluster_view hash d view st key)))"
proof -
  obtain node where n: "ConsistentHash_Get hash key d = Inr (Some node)" using assms(1) unfolding serves_def by blast
  have c: "fst (cmd key (st node)) = fst (spec (view (st node) key))" "view (snd (cmd key (st node))) = (view (st node))(key := snd (spec (view (st node) key)))"
    using assms(2) unfolding implements_def by blast+
  have v: "cluster_view hash d view st key = view (st node) key" by (simp add: cluster_view_def n)
  have "kv_command hash d cmd key st = Inr (map_sum NodeError id (fst (spec (cluster_view hash d view st key))), st(node := snd (cmd key (st node))))"
    unfolding v c(1) [symmetric] by (simp add: kv_command_def getRedis_def n split: prod.splits sum.splits)
  moreover have "cluster_view hash d view (st(node := snd (cmd key (st node)))) = (cluster_view hash d view st)(key := snd (spec (cluster_view hash d view st key)))"
    unfolding v by (rule ext) (auto simp: cluster_view_def n c(2) split: sum.splits option.splits)
  ultimately show ?thesis by blast
qed

lemma kv_DelCtx_view:
  assumes "serves hash d" "implements view del del_spec"
  shows "\<exists>st'. kv_DelCtx hash d del keys st = Inr ((int (card (set keys \<inter> dom (cluster_view hash d view st))), []), st') \<and>
    cluster_view hash d view st' = cluster_view hash d view st |` (- set keys)"
proof (induction keys arbitrary: st)
  case (Cons key keys)
  let ?m = "cluster_view hash d view st"
  obtain st1 where s1: "kv_command hash d del key st = Inr (Inr (if ?m key = None then 0 else 1), st1)" "cluster_view hash d view st1 = ?m(key := None)"
    using kv_command_view [OF assms, of key st] by (auto simp: del_spec_def)
  obtain st2 where s2: "kv_DelCtx hash d del keys st1 = Inr ((int (card (set keys \<inter> dom (?m(key := None)))), []), st2)"
    "cluster_view hash d view st2 = ?m(key := None) |` (- set keys)" using Cons.IH [of st1] unfolding s1(2) by blast
  have "int (card (set (key # keys) \<inter> dom ?m)) = (if ?m key = None then 0 else 1) + int (card (set keys \<inter> dom (?m(key := None))))"
  proof -
    have "set (key # keys) \<inter> dom ?m = (if ?m key = None then {} else {key}) \<union> (set keys \<inter> dom (?m(key := None)))" by auto
    then show ?thesis by (simp add: card_insert_if)
  qed
  moreover have "?m(key := None) |` (- set keys) = ?m |` (- set (key # keys))" by (auto simp: restrict_map_def fun_eq_iff)
  ultimately show ?case using s1(1) s2 by simp
qed (simp add: restrict_map_def)

lemma kv_step_view:
  assumes "serves hash d" "\<And>c. implements view (cmd c) (spec c)" "implements view del del_spec"
  shows "\<exists>st'. kv_step hash d cmd del x st = Inr (fst (one_step spec x (cluster_view hash d view st)), st') \<and>
    cluster_view hash d view st' = snd (one_step spec x (cluster_view hash d view st))"
proof (cases x)
  case (KvCmd c key)
  then show ?thesis using kv_command_view [OF assms(1) assms(2) [of c], of key st] by auto
next
  case (KvDel keys)
  then show ?thesis using kv_DelCtx_view [OF assms(1,3), of keys st] by auto
qed

lemma kv_run_view:
  assumes "serves hash d" "\<And>c. implements view (cmd c) (spec c)" "implements view del del_spec"
  shows "\<exists>st'. kv_run hash d cmd del xs st = Inr (fst (one_run spec xs (cluster_view hash d view st)), st') \<and>
    cluster_view hash d view st' = snd (one_run spec xs (cluster_view hash d view st))"
proof (induction xs arbitrary: st)
  case (Cons x xs)
  obtain st1 where s1: "kv_step hash d cmd del x st = Inr (fst (one_step spec x (cluster_view hash d view st)), st1)"
    "cluster_view hash d view st1 = snd (one_step spec x (cluster_view hash d view st))" 
    using kv_step_view [where cmd = cmd and spec = spec, OF assms] by blast
  show ?case using s1 Cons.IH [of st1] by (auto simp: split_def)
qed simp


text \<open>A store of nodes with distinct addresses, some of which has a positive weight, finds a node for every key.\<close>

lemma NewStore_run: "NewStore hash c = Some d \<Longrightarrow> d = ch_run hash 100 (map (\<lambda>(node, weight). CAddWeight node weight) c)"
  by (auto simp: NewStore_def ch_run_def NewConsistentHash_def minReplicas_def fold_map comp_def split_def split: if_splits
    intro!: fold_cong ext)

lemma table_weights:
  "distinct (map fst c) \<Longrightarrow> (node, weight) \<in> set c \<Longrightarrow>
     fold (table_apply 100) (map (\<lambda>(node, weight). CAddWeight node weight) c) T node = Some (nat (min weight 100))"
proof (induction c arbitrary: T)
  case (Cons x c)
  obtain n w where x: "x = (n, w)" by (cases x)
  have other: "fold (table_apply 100) (map (\<lambda>(node, weight). CAddWeight node weight) c) T' n = T' n" if "n \<notin> fst ` set c" for T'
    using that by (induction c arbitrary: T') auto
  have q: "go_quot (100 * w) 100 = w" by (simp add: go_quot_def abs_mult sgn_mult mult_sgn_abs)
  show ?case
  proof (cases "(node, weight) = x")
    case True
    then show ?thesis using Cons.prems(1) other q by (auto simp: x)
  next
    case False
    then show ?thesis using Cons by (auto simp: x)
  qed
qed simp

lemma NewStore_serves:
  assumes "NewStore hash c = Some d" "distinct (map fst c)" "no_clash hash 100 (fst ` set c)"
  shows "serves hash d"
  unfolding serves_def
proof
  fix key
  let ?ops = "map (\<lambda>(node, weight). CAddWeight node weight) c"
  have "0 < TotalWeights c" using assms(1) by (auto simp: NewStore_def split: if_splits)
  then have "\<exists>x \<in> set c. 0 < snd x"
    unfolding TotalWeights_def by (induction c) (force split: if_splits)+
  then obtain node weight where w: "(node, weight) \<in> set c" "0 < weight" by auto
  have "table_run 100 ?ops node = Some (nat (min weight 100))" using table_weights [OF assms(2) w(1)] by (simp add: table_run_def)
  then have "(vhash hash node 0, node) \<in> points hash (table_run 100 ?ops)" using w(2) 
    unfolding mem_points by (intro exI [of _ 0] exI [of _ "nat (min weight 100)"]) simp
  then have p: "points hash (table_run 100 ?ops) \<noteq> {}" by blast
  have c: "no_clash hash (max 100 100) (ch_node ` set ?ops)" using assms(3) by (simp add: image_image split_def)
  note g = ch_lookup [OF c ch_run_ok [OF c order_refl], of key, folded NewStore_run [OF assms(1)]]
  show "\<exists>node. ConsistentHash_Get hash key d = Inr (Some node)"
    using g p by (cases "ConsistentHash_Get hash key d" rule: sum.exhaust [case_product option.exhaust]) (metis option.exhaust)+
qed

text \<open>C26: (Transparent sharding.) A store over nodes with distinct addresses and hashes that do not clash, built by \<open>NewStore\<close>,
  never panics and never misses a node: any sequence of commands and deletions gives the replies, the counts and the final
  contents that one store holding all the data gives, whatever Redis commands are used, as long as each acts on its own key.\<close>

theorem sharding_is_transparent:
  assumes "NewStore hash c = Some d" and "distinct (map fst c)" and "no_clash hash 100 (fst ` set c)"
    and "\<forall>x. implements view (cmd x) (spec x)" and "implements view del del_spec"
  shows "\<exists>st'. kv_run hash d cmd del xs st = Inr (fst (one_run spec xs (cluster_view hash d view st)), st') \<and>
    cluster_view hash d view st' = snd (one_run spec xs (cluster_view hash d view st))"
  by (rule kv_run_view [OF NewStore_serves [OF assms(1-3)] spec [OF assms(4)] assms(5)])

text \<open>Counters on two nodes.\<close>

definition incrby :: "nat \<Rightarrow> nat option \<Rightarrow> (string + nat) \<times> nat option" where
  "incrby n x = (let y = n + (case x of None \<Rightarrow> 0 | Some v \<Rightarrow> v) in (Inr y, Some y))"

definition on_map :: "(nat option \<Rightarrow> ('e + 'r) \<times> nat option) \<Rightarrow> string \<Rightarrow> (string \<rightharpoonup> nat) \<Rightarrow> ('e + 'r) \<times> (string \<rightharpoonup> nat)" where
  "on_map f key s = (fst (f (s key)), s(key := snd (f (s key))))"

theorem sharding_is_transparent_witness:
  "\<exists>d st'. NewStore enc [(''a'', 50), (''b'', 100)] = Some d \<and>
     kv_run enc d (\<lambda>n. on_map (incrby n)) (on_map del_spec) [KvCmd 2 ''x'', KvCmd 3 ''x'', KvDel [''x'', ''y'', ''x'']] (\<lambda>_. Map.empty) =
       Inr ([KvReply (Inr 2), KvReply (Inr 5), KvDeleted 1 []], st')"
proof -
  let ?c = "[(''a'', 50), (''b'', 100)] :: node_conf list"
  let ?xs = "[KvCmd 2 ''x'', KvCmd 3 ''x'', KvDel [''x'', ''y'', ''x'']]" and ?st = "\<lambda>_ :: string. Map.empty :: string \<rightharpoonup> nat"
  obtain d where d: "NewStore enc ?c = Some d" by (simp add: NewStore_def TotalWeights_def)
  have n: "no_clash enc 100 (fst ` set ?c)" using enc_no_clash by (simp add: insert_commute)
  have i: "\<forall>x. implements (\<lambda>s. s) (on_map (incrby x)) (incrby x)" "implements (\<lambda>s. s) (on_map (del_spec :: nat option \<Rightarrow> (string + int) \<times> nat option)) del_spec"
    by (simp_all add: implements_def on_map_def)
  have m: "cluster_view enc d (\<lambda>s. s) ?st = Map.empty" by (auto simp: cluster_view_def fun_eq_iff split: sum.splits option.splits)
  have r: "fst (one_run incrby ?xs Map.empty) = [KvReply (Inr 2), KvReply (Inr 5), KvDeleted 1 []]" by (simp add: incrby_def Let_def)
  show ?thesis using sharding_is_transparent [OF d _ n i, of ?xs ?st] d unfolding m r by auto
qed

section \<open>The cache cluster\<close>

text \<open>The methods for one key run on the node of the key; without a node they return \<open>errNotFound\<close>.\<close>

definition cluster_dispatch :: "(string \<Rightarrow> nat) \<Rightarrow> ConsistentHash \<Rightarrow> 'r \<Rightarrow> string \<Rightarrow> ('s \<Rightarrow> 'r \<times> 's) \<Rightarrow> (string \<Rightarrow> 's) \<Rightarrow> panic + 'r \<times> (string \<Rightarrow> 's)" where
  "cluster_dispatch hash d missing key method st = (case ConsistentHash_Get hash key d of
     Inl p \<Rightarrow> Inl p
   | Inr None \<Rightarrow> Inr (missing, st)
   | Inr (Some node) \<Rightarrow> (case method (st node) of (r, s) \<Rightarrow> Inr (r, st(node := s))))"

definition cluster_GetCtx :: "(string \<Rightarrow> nat) \<Rightarrow> ConsistentHash \<Rightarrow> ('s, 'e) conn \<Rightarrow> ('v, 'e) json \<Rightarrow> 'e cacheNode \<Rightarrow> string \<Rightarrow> 'v \<Rightarrow> int \<Rightarrow> int \<Rightarrow>
    (string \<Rightarrow> 's) \<Rightarrow> panic + ('e option \<times> 'v) \<times> (string \<Rightarrow> 's)" where
  "cluster_GetCtx hash d cn js c key v now1 now2 = cluster_dispatch hash d (Some (errNotFound c), v) key (node_GetCtx cn js c key v now1 now2)"

definition cluster_SetCtx :: "(string \<Rightarrow> nat) \<Rightarrow> ConsistentHash \<Rightarrow> ('s, 'e) conn \<Rightarrow> ('v, 'e) json \<Rightarrow> 'e cacheNode \<Rightarrow> rat \<Rightarrow> string \<Rightarrow> 'v \<Rightarrow> int \<Rightarrow>
    (string \<Rightarrow> 's) \<Rightarrow> panic + 'e option \<times> (string \<Rightarrow> 's)" where
  "cluster_SetCtx hash d cn js c draw key v now = cluster_dispatch hash d (Some (errNotFound c)) key (SetCtx cn js c draw key v now)"

definition cluster_SetWithExpireCtx :: "(string \<Rightarrow> nat) \<Rightarrow> ConsistentHash \<Rightarrow> ('s, 'e) conn \<Rightarrow> ('v, 'e) json \<Rightarrow> 'e cacheNode \<Rightarrow> string \<Rightarrow> 'v \<Rightarrow> int \<Rightarrow> int \<Rightarrow>
    (string \<Rightarrow> 's) \<Rightarrow> panic + 'e option \<times> (string \<Rightarrow> 's)" where
  "cluster_SetWithExpireCtx hash d cn js c key v expire now =
     cluster_dispatch hash d (Some (errNotFound c)) key (SetWithExpireCtx cn js key v expire now)"

definition cluster_TakeCtx :: "(string \<Rightarrow> nat) \<Rightarrow> ConsistentHash \<Rightarrow> ('s, 'e) conn \<Rightarrow> ('v, 'e) json \<Rightarrow> 'e cacheNode \<Rightarrow> rat \<Rightarrow> string \<Rightarrow> 'v \<Rightarrow>
    ('v \<Rightarrow> 'e option \<times> 'v) \<Rightarrow> int \<Rightarrow> (string \<Rightarrow> 's) \<Rightarrow> panic + ('e + 'v) \<times> (string \<Rightarrow> 's)" where
  "cluster_TakeCtx hash d cn js c draw key v query now = cluster_dispatch hash d (Inl (errNotFound c)) key (doTake cn js c draw key v query now)"

text \<open>
  \<open>DelCtx\<close> groups several keys by node and deletes each group on its node. Its result is the errors (\<open>KeyNotFound\<close> for a key
  without a node) and, for each node, the deletions to be retried.
\<close>

datatype 'e del_error = DelError 'e | KeyNotFound string

fun group_keys :: "(string \<Rightarrow> nat) \<Rightarrow> ConsistentHash \<Rightarrow> string list \<Rightarrow> (string, string list) gomap \<Rightarrow> 'e del_error list \<Rightarrow>
    panic + (string, string list) gomap \<times> 'e del_error list" where
  "group_keys hash d [] nodes errs = Inr (nodes, errs)"
| "group_keys hash d (key # keys) nodes errs = (case ConsistentHash_Get hash key d of
     Inl p \<Rightarrow> Inl p
   | Inr None \<Rightarrow> group_keys hash d keys nodes (errs @ [KeyNotFound key])
   | Inr (Some node) \<Rightarrow> group_keys hash d keys (gm_set node (gm_get_or [] nodes node @ [key]) nodes) errs)"

fun del_groups :: "('s, 'e) conn \<Rightarrow> 'e cacheNode \<Rightarrow> int \<Rightarrow> (string, string list) gomap \<Rightarrow> (string \<Rightarrow> 's) \<Rightarrow>
    (string \<times> string list list) list \<times> (string \<Rightarrow> 's)" where
  "del_groups cn c now [] st = ([], st)"
| "del_groups cn c now ((node, ks) # nodes) st = (case node_DelCtx cn c ks now (st node) of (retries, s) \<Rightarrow>
     case del_groups cn c now nodes (st(node := s)) of (rest, st') \<Rightarrow> ((node, retries) # rest, st'))"

definition cluster_DelCtx :: "(string \<Rightarrow> nat) \<Rightarrow> ConsistentHash \<Rightarrow> ('s, 'e) conn \<Rightarrow> 'e cacheNode \<Rightarrow> string list \<Rightarrow> int \<Rightarrow> (string \<Rightarrow> 's) \<Rightarrow>
    panic + ('e del_error list \<times> (string \<times> string list list) list) \<times> (string \<Rightarrow> 's)" where
  "cluster_DelCtx hash d cn c keys now st = (case keys of
     [] \<Rightarrow> Inr (([], []), st)
   | [key] \<Rightarrow> (case ConsistentHash_Get hash key d of
       Inl p \<Rightarrow> Inl p
     | Inr None \<Rightarrow> Inr (([DelError (errNotFound c)], []), st)
     | Inr (Some node) \<Rightarrow> (case node_DelCtx cn c [key] now (st node) of (retries, s) \<Rightarrow> Inr (([], [(node, retries)]), st(node := s))))
   | _ \<Rightarrow> (case group_keys hash d keys [] [] of
       Inl p \<Rightarrow> Inl p
     | Inr (nodes, errs) \<Rightarrow> (case del_groups cn c now nodes st of (retries, st') \<Rightarrow> Inr ((errs, retries), st'))))"

subsection \<open>Every key is deleted where it is kept\<close>

definition keys_of :: "(string \<Rightarrow> nat) \<Rightarrow> ConsistentHash \<Rightarrow> string \<Rightarrow> string list \<Rightarrow> string list" where
  "keys_of hash d node keys = filter (\<lambda>key. ConsistentHash_Get hash key d = Inr (Some node)) keys"

lemma group_keys_ok:
  assumes "serves hash d" "gm_wf nodes"
  shows "\<exists>nodes'. group_keys hash d keys nodes errs = Inr (nodes', errs) \<and> gm_wf nodes' \<and>
    (\<forall>node. gm_get_or [] nodes' node = gm_get_or [] nodes node @ keys_of hash d node keys)"
  using assms(2)
proof (induction keys arbitrary: nodes)
  case (Cons key keys)
  obtain n where n: "ConsistentHash_Get hash key d = Inr (Some n)" using assms(1) unfolding serves_def by blast
  let ?m = "gm_set n (gm_get_or [] nodes n @ [key]) nodes"
  have "gm_wf ?m" using Cons.prems by (simp add: gm_wf_def distinct_update)
  then show ?case using Cons.IH [of ?m] by (auto simp: n keys_of_def gm_get_or_def gomap_simps)
qed (auto simp: keys_of_def)

lemma node_DelCtx_Nil [simp]: "node_DelCtx cn c [] now s = ([], s)"
  by (simp add: node_DelCtx_def)

lemma del_groups_ok: "gm_wf nodes \<Longrightarrow> snd (del_groups cn c now nodes st) node = snd (node_DelCtx cn c (gm_get_or [] nodes node) now (st node))"
proof (induction nodes arbitrary: st)
  case (Cons x nodes)
  obtain n ks where x: "x = (n, ks)" by (cases x)
  have "gm_get nodes n = None" "gm_wf nodes" using Cons.prems by (auto simp: x gm_wf_def map_of_eq_None_iff)
  moreover define st1 where "st1 = st(n := snd (node_DelCtx cn c ks now (st n)))"
  then have "st1 node = (if node = n then snd (node_DelCtx cn c ks now (st n)) else st node)" by simp
  ultimately show ?case using Cons.IH [of st1] by (cases "node = n") (simp_all add: x split_def gm_get_or_def st1_def [symmetric])
qed (simp add: gm_get_or_def)

lemma cluster_deletes:
  assumes "serves hash d"
  shows "\<exists>retries st'. cluster_DelCtx hash d cn c keys now st = Inr (([], retries), st') \<and>
    (\<forall>node. st' node = snd (node_DelCtx cn c (keys_of hash d node keys) now (st node)))"
proof -
  obtain nodes where g: "group_keys hash d keys [] ([] :: 'b del_error list) = Inr (nodes, [])" "gm_wf nodes" "\<And>node. gm_get_or [] nodes node = keys_of hash d node keys"
    using group_keys_ok [OF assms, of "[]" keys "[]"] by (auto simp: gm_wf_def gm_get_or_def)
  show ?thesis
  proof (cases keys rule: remdups_adj.cases)
    case 1
    then show ?thesis by (simp add: cluster_DelCtx_def keys_of_def)
  next
    case (2 key)
    obtain n where "ConsistentHash_Get hash key d = Inr (Some n)" using assms unfolding serves_def by blast
    then show ?thesis by (simp add: 2 cluster_DelCtx_def keys_of_def split_def)
  next
    case (3 k1 k2 ks)
    have "cluster_DelCtx hash d cn c keys now st = Inr (([], fst (del_groups cn c now nodes st)), snd (del_groups cn c now nodes st))"
      using g(1) by (simp add: cluster_DelCtx_def 3 split_def del: group_keys.simps)
    then show ?thesis using del_groups_ok [OF g(2), of cn c now st] g(3) by simp
  qed
qed

definition del_exact :: "('s, 'e) conn \<Rightarrow> ('s \<Rightarrow> string \<Rightarrow> (string \<times> int) option) \<Rightarrow> bool" where
  "del_exact cn ent \<longleftrightarrow> (\<forall>keys now s. ent (snd (conn_Del cn keys now s)) = ent s |` (- set keys))"

lemma node_DelCtx_exact:
  assumes "del_exact cn ent"
  shows "ent (snd (node_DelCtx cn c keys now s)) = ent s |` (- set keys)"
proof -
  have r: "ent (snd (redis_DelCtx cn ks now s)) = ent s |` (- set ks)" for ks s
    using assms unfolding del_exact_def redis_DelCtx_def by (metis (no_types, lifting) old.sum.simps(5,6) prod.collapse snd_conv split_def sum.exhaust_sel)
  have e: "ent (snd (del_each cn ks now s)) = ent s |` (- set ks)" for ks
    by (induction ks arbitrary: s) (simp_all add: split_def r restrict_map_def fun_eq_iff)
  show ?thesis using r [of keys s] e [of keys]
    by (simp add: node_DelCtx_def split_def restrict_map_def split: sum.splits)
qed

text \<open>(Cluster deletion.) \<open>DelCtx\<close> of a cache cluster removes exactly the given keys from what the cluster serves: each is deleted on
  the one node where the other methods look for it, and no other entry is touched. This holds for any number of keys,
  repetitions included, and for plain and clustered nodes.\<close>

theorem cluster_deletion_exact:
  assumes "NewStore hash conf = Some d" and "distinct (map fst conf)" and "no_clash hash 100 (fst ` set conf)" and "del_exact cn ent"
  shows "\<exists>retries st'. cluster_DelCtx hash d cn c keys now st = Inr (([], retries), st') \<and>
    cluster_view hash d ent st' = cluster_view hash d ent st |` (- set keys)"
proof -
  obtain retries st' where d: "cluster_DelCtx hash d cn c keys now st = Inr (([], retries), st')"
    "\<And>node. st' node = snd (node_DelCtx cn c (keys_of hash d node keys) now (st node))"
    using cluster_deletes [OF NewStore_serves [OF assms(1-3)]] by blast
  have "cluster_view hash d ent st' = cluster_view hash d ent st |` (- set keys)"
    by (rule ext) (auto simp: cluster_view_def d(2) node_DelCtx_exact [OF assms(4)] restrict_map_def keys_of_def split: sum.splits option.splits)
  then show ?thesis using d(1) by blast
qed

theorem cluster_deletion_exact_witness:
  "\<exists>d retries st'. NewStore enc [(''a'', 50), (''b'', 100)] = Some d \<and>
     cluster_DelCtx enc d map_conn week_node [''x'', ''y'', ''x''] 7 (\<lambda>_. [(''x'', (''1'', 9)), (''z'', (''2'', 9))]) = Inr (([], retries), st') \<and>
     cluster_view enc d gm_get st' ''x'' = None \<and> cluster_view enc d gm_get st' ''z'' = Some (''2'', 9)"
proof -
  let ?c = "[(''a'', 50), (''b'', 100)] :: node_conf list" and ?st = "\<lambda>_ :: string. [(''x'', (''1'', 9 :: int)), (''z'', (''2'', 9))]"
  obtain d where d: "NewStore enc ?c = Some d" by (simp add: NewStore_def TotalWeights_def)
  have n: "no_clash enc 100 (fst ` set ?c)" using enc_no_clash by (simp add: insert_commute)
  have e: "del_exact map_conn gm_get" by (auto simp: del_exact_def map_conn_def fold_gm_del restrict_map_def fun_eq_iff)
  obtain node where "ConsistentHash_Get enc ''z'' d = Inr (Some node)" using NewStore_serves [OF d _ n] unfolding serves_def by auto
  then have "cluster_view enc d gm_get ?st ''z'' = Some (''2'', 9)" by (simp add: cluster_view_def)
  then show ?thesis using cluster_deletion_exact [OF d _ n e, of week_node "[''x'', ''y'', ''x'']" 7 ?st] d by (auto simp: restrict_map_def)
qed

end
