(* ===== verification/Http_Rate_Limit.thy ===== *)
theory Http_Rate_Limit
  imports Rate_Limit
begin

text \<open>
  The rate limiters of the HTTP server (\<open>src/server/middleware/limiter_sliding.go\<close> and \<open>rate_limit.go\<close>): the sliding window, the
  store of limiters by address, user and key, and the middleware before and after authentication. The theory shows that
  the sliding window is a fixed one, that clients are limited apart by address, and that the limits of a server and of an
  entry for a user share one limiter.

  A limiter is a reference into a heap. The token bucket of \<open>golang.org/x/time/rate\<close> is a parameter; the Redis limiter is that of
  theory \<open>Rate_Limit\<close>. Every reading of the clock is an argument.
\<close>

section \<open>The sliding window\<close>

record slidingWindowLimiter =
  prevHits :: int
  currHits :: int
  windowExp :: int
  sl_max :: int
  expiration :: int

definition newSlidingWindowLimiter :: "int \<Rightarrow> int \<Rightarrow> slidingWindowLimiter" where
  "newSlidingWindowLimiter mx burst = (let b = (if burst \<le> 0 then mx else burst) in
     \<lparr>prevHits = 0, currHits = 0, windowExp = 0, sl_max = mx, expiration = b\<rparr>)"

definition sl_rate :: "int \<Rightarrow> slidingWindowLimiter \<Rightarrow> rat" where
  "sl_rate now l = (let elapsed = windowExp l - now; weight = of_int elapsed / of_int (expiration l)
     in of_int (prevHits l) * (1 - weight) + of_int (currHits l))"

definition sl_rotate :: "int \<Rightarrow> slidingWindowLimiter \<Rightarrow> slidingWindowLimiter" where
  "sl_rotate now l = (if now \<ge> windowExp l
     then let elapsed = now - (windowExp l - expiration l) in
       if elapsed \<ge> expiration l then l\<lparr>prevHits := 0, currHits := 0, windowExp := now + expiration l\<rparr>
       else l\<lparr>prevHits := currHits l, currHits := 0, windowExp := windowExp l + expiration l\<rparr>
     else l)"

definition sl_Allow :: "int \<Rightarrow> slidingWindowLimiter \<Rightarrow> bool \<times> slidingWindowLimiter" where
  "sl_Allow now l = (if windowExp l = 0 then (True, l\<lparr>windowExp := now + expiration l, currHits := 1\<rparr>)
     else let l1 = sl_rotate now l in
       if sl_rate now l1 \<ge> of_int (sl_max l1) then (False, l1) else (True, l1\<lparr>currHits := currHits l1 + 1\<rparr>))"


definition sl_Cancel :: "slidingWindowLimiter \<Rightarrow> slidingWindowLimiter" where
  "sl_Cancel l = (if currHits l > 0 then l\<lparr>currHits := currHits l - 1\<rparr> else l)"

fun sl_run :: "slidingWindowLimiter \<Rightarrow> int list \<Rightarrow> bool list" where
  "sl_run l [] = []"
| "sl_run l (t # ts) = (case sl_Allow t l of (ok, l') \<Rightarrow> ok # sl_run l' ts)"

subsection \<open>A fixed window\<close>

text \<open>
  The reference: a window opens with the first request after the previous one has closed, lasts \<open>e\<close> seconds and admits \<open>m\<close>
  requests. The result has the start of the window of each admitted request.
\<close>

fun fixed_run :: "int \<Rightarrow> int \<Rightarrow> (int \<times> int) option \<Rightarrow> int list \<Rightarrow> int option list" where
  "fixed_run m e st [] = []"
| "fixed_run m e st (t # ts) = (case st of
     Some (start, n) \<Rightarrow> if t < start + e then (if n < m then Some start # fixed_run m e (Some (start, n + 1)) ts else None # fixed_run m e st ts)
       else Some t # fixed_run m e (Some (t, 1)) ts
   | None \<Rightarrow> Some t # fixed_run m e (Some (t, 1)) ts)"

fun fixed_ok :: "int \<Rightarrow> int \<Rightarrow> slidingWindowLimiter \<Rightarrow> (int \<times> int) option \<Rightarrow> bool" where
  "fixed_ok m e l None \<longleftrightarrow> prevHits l = 0 \<and> windowExp l = 0 \<and> sl_max l = m \<and> expiration l = e"
| "fixed_ok m e l (Some (start, n)) \<longleftrightarrow> prevHits l = 0 \<and> windowExp l = start + e \<and> windowExp l \<noteq> 0 \<and> currHits l = n \<and> sl_max l = m \<and> expiration l = e"

lemma sl_run_fixed:
  assumes "1 \<le> m" "1 \<le> e"
  shows "fixed_ok m e l st \<Longrightarrow> \<forall>t\<in>set ts. 0 \<le> t \<Longrightarrow> sl_run l ts = map (\<lambda>w. w \<noteq> None) (fixed_run m e st ts)"
proof (induction ts arbitrary: l st)
  case (Cons t ts)
  show ?case
  proof (cases st)
    case None
    then have "sl_Allow t l = (True, l\<lparr>windowExp := t + e, currHits := 1\<rparr>)" "fixed_ok m e (l\<lparr>windowExp := t + e, currHits := 1\<rparr>) (Some (t, 1))"
      using Cons.prems assms by (auto simp: sl_Allow_def)
    then show ?thesis using Cons.IH Cons.prems(2) None by simp
  next
    case (Some p)
    obtain start n where p: "p = (start, n)" by (cases p)
    then have l: "prevHits l = 0" "windowExp l = start + e" "windowExp l \<noteq> 0" "currHits l = n" "sl_max l = m" "expiration l = e"
      using Cons.prems(1) Some by simp_all
    consider (new) "start + e \<le> t" | (room) "t < start + e" "n < m" | (full) "t < start + e" "\<not> n < m" by linarith
    then show ?thesis
    proof cases
      case new
      let ?l = "l\<lparr>prevHits := 0, currHits := 1, windowExp := t + e\<rparr>"
      have "sl_Allow t l = (True, ?l)" using new l assms by (simp add: sl_Allow_def sl_rotate_def sl_rate_def Let_def)
      moreover have "fixed_ok m e ?l (Some (t, 1))" using l assms Cons.prems(2) by simp
      ultimately show ?thesis using Cons.IH Cons.prems(2) new by (simp add: Some p)
    next
      case room
      have "sl_Allow t l = (True, l\<lparr>currHits := n + 1\<rparr>)" using room l by (simp add: sl_Allow_def sl_rotate_def sl_rate_def)
      moreover have "fixed_ok m e (l\<lparr>currHits := n + 1\<rparr>) (Some (start, n + 1))" using l by simp
      ultimately show ?thesis using Cons.IH Cons.prems(2) room by (simp add: Some p)
    next
      case full
      have "sl_Allow t l = (False, l)" using full l by (simp add: sl_Allow_def sl_rotate_def sl_rate_def)
      then show ?thesis using Cons.IH [OF Cons.prems(1)] Cons.prems(2) full by (simp add: Some p)
    qed
  qed
qed simp

lemma fixed_labels:
  "sorted ts \<Longrightarrow> \<forall>t\<in>set ts. start \<le> t \<Longrightarrow> (t, Some w) \<in> set (zip ts (fixed_run m e (Some (start, n)) ts)) \<Longrightarrow>
     w \<le> t \<and> t < w + e \<and> (w = start \<or> start + e \<le> w)" if "1 \<le> e"
proof (induction ts arbitrary: start n)
  case (Cons u ts)
  show ?case
  proof (cases "u < start + e")
    case True
    then show ?thesis using Cons by (auto split: if_splits)
  next
    case False
    then show ?thesis using Cons.prems Cons.IH [of u 1] that by auto
  qed
qed simp

lemma fixed_length [simp]: "length (fixed_run m e st ts) = length ts"
  by (induction m e st ts rule: fixed_run.induct) (auto split: option.splits)

lemma fixed_label_in:
  assumes "Some w \<in> set (fixed_run m e st ts)"
  obtains t where "(t, Some w) \<in> set (zip ts (fixed_run m e st ts))"
  using assms by (auto simp: in_set_conv_nth set_zip) (metis fixed_length)

lemma fixed_later:
  assumes "1 \<le> e" "sorted ts" "\<forall>t\<in>set ts. start \<le> t" "Some w \<in> set (fixed_run m e (Some (start, n)) ts)"
  shows "w = start \<or> start + e \<le> w"
  using fixed_label_in [OF assms(4)] fixed_labels [OF assms(1-3)] by metis

fun opened :: "(int \<times> int) option \<Rightarrow> int list \<Rightarrow> bool" where
  "opened None ts = True"
| "opened (Some (start, n)) ts = (\<forall>t\<in>set ts. start \<le> t)"

lemma fixed_separated:
  assumes "1 \<le> e"
  shows "sorted ts \<Longrightarrow> opened st ts \<Longrightarrow> Some w \<in> set (fixed_run m e st ts) \<Longrightarrow> Some w' \<in> set (fixed_run m e st ts) \<Longrightarrow>
    w = w' \<or> w + e \<le> w' \<or> w' + e \<le> w"
proof (induction ts arbitrary: st)
  case (Cons u ts)
  have more: "w = w' \<or> w + e \<le> w' \<or> w' + e \<le> w"
    if "\<forall>t\<in>set ts. s \<le> t" "Some w \<in> set (Some s # fixed_run m e (Some (s, k)) ts)" "Some w' \<in> set (Some s # fixed_run m e (Some (s, k)) ts)" for s k
    using that Cons.IH [of "Some (s, k)"] fixed_later [OF assms _ that(1), of _ m k] Cons.prems(1) by auto
  have u: "\<forall>t\<in>set ts. u \<le> t" using Cons.prems(1) by simp
  show ?case
  proof (cases st)
    case None
    then show ?thesis using more [OF u] Cons.prems(3,4) by simp
  next
    case (Some p)
    obtain start n where p: "p = (start, n)" by (cases p)
    have s: "\<forall>t\<in>set ts. start \<le> t" using Cons.prems(2) Some p by simp
    show ?thesis using more [OF u] more [OF s] Cons.IH [of st] Cons.prems s Some p by (auto split: if_splits)
  qed
qed simp

fun room :: "int \<Rightarrow> (int \<times> int) option \<Rightarrow> int \<Rightarrow> int" where
  "room m None w = m"
| "room m (Some (start, n)) w = (if w = start then m - n else m)"

lemma fixed_count:
  assumes "1 \<le> e" "1 \<le> m"
  shows "sorted ts \<Longrightarrow> opened st ts \<Longrightarrow> 0 \<le> room m st w \<Longrightarrow> int (count_list (fixed_run m e st ts) (Some w)) \<le> room m st w"
proof (induction ts arbitrary: st)
  case (Cons u ts)
  have u: "sorted ts" "opened (Some (u, 1)) ts" using Cons.prems(1) by simp_all
  have new: "int (count_list (Some u # fixed_run m e (Some (u, 1)) ts) (Some w)) \<le> m" using Cons.IH [OF u] assms(2) by (auto split: if_splits)
  show ?case
  proof (cases st)
    case None
    then show ?thesis using new by simp
  next
    case (Some p)
    obtain start n where p: "p = (start, n)" by (cases p)
    have s: "opened (Some (start, k)) ts" for k using Cons.prems(2) Some p by simp
    consider (later) "start + e \<le> u" "w = start" | (other) "start + e \<le> u" "w \<noteq> start" | (same) "u < start + e" by linarith
    then show ?thesis
    proof cases
      case later
      have "Some w \<notin> set (fixed_run m e (Some (u, 1)) ts)"
        using fixed_later [OF assms(1) u(1), of u w m 1] u(2) later assms(1) by auto
      then show ?thesis using later assms(1) Cons.prems(3) by (auto simp: Some p count_list_0_iff)
    next
      case other
      then show ?thesis using new by (simp add: Some p)
    next
      case same
      then show ?thesis using Cons.IH [OF u(1) s, of n] Cons.IH [OF u(1) s, of "n + 1"] Cons.prems(3) by (auto simp: Some p)
    qed
  qed
qed simp

lemma three_apart:
  assumes "finite W" "\<forall>w\<in>W. a - e < w \<and> w < a + (e :: int)" "\<forall>w\<in>W. \<forall>w'\<in>W. w = w' \<or> w + e \<le> w' \<or> w' + e \<le> w"
  shows "card W \<le> 2"
proof (rule ccontr)
  assume "\<not> card W \<le> 2"
  then obtain V where "V \<subseteq> W" "card V = 3" using obtain_subset_with_card_n [of 3 W] by auto
  then obtain x y z where xyz: "x \<in> W" "y \<in> W" "z \<in> W" "x \<noteq> y" "y \<noteq> z" "x \<noteq> z" unfolding card_3_iff by auto
  have "x + e \<le> y \<or> y + e \<le> x" "y + e \<le> z \<or> z + e \<le> y" "x + e \<le> z \<or> z + e \<le> x" using assms(3) xyz by blast+
  moreover have "a - e < x" "x < a + e" "a - e < y" "y < a + e" "a - e < z" "z < a + e" using assms(2) xyz(1-3) by blast+
  ultimately show False by linarith
qed

lemma count_filter_zip:
  "length xs = length ys \<Longrightarrow> count_list (map snd (filter P (zip xs ys))) y \<le> count_list ys y"
  by (induction xs ys rule: list_induct2) auto

lemma length_by_counts:
  assumes "\<And>x. int (count_list xs x) \<le> m"
  shows "int (length xs) \<le> int (card (set xs)) * m"
proof -
  have "int (length xs) = int (\<Sum>x\<in>set xs. count_list xs x)" by (subst sum_count_set [OF order_refl finite_set]) (rule refl)
  also have "\<dots> = (\<Sum>x\<in>set xs. int (count_list xs x))" by (rule of_nat_sum)
  also have "\<dots> \<le> int (card (set xs)) * m" by (rule sum_bounded_above) (rule assms)
  finally show ?thesis .
qed

lemma fixed_interval:
  assumes "1 \<le> e" "1 \<le> m" "sorted ts"
  shows "int (length (filter (\<lambda>(t, w). w \<noteq> None \<and> a \<le> t \<and> t < a + e) (zip ts (fixed_run m e None ts)))) \<le> 2 * m"
proof -
  let ?R = "fixed_run m e None ts" and ?P = "\<lambda>(t, w). w \<noteq> None \<and> a \<le> t \<and> t < a + e"
  define F where "F = map snd (filter ?P (zip ts ?R))"
  define W where "W = {w. Some w \<in> set F}"
  have none: "None \<notin> set F" by (auto simp: F_def)
  have S: "set F = Some ` W"
  proof (rule set_eqI)
    show "x \<in> set F \<longleftrightarrow> x \<in> Some ` W" for x using none by (cases x) (auto simp: W_def)
  qed
  have fin: "finite W" by (rule finite_imageD [of Some]) (simp_all add: S [symmetric])
  have in_run: "Some w \<in> set ?R" if "w \<in> W" for w using that by (auto simp: W_def F_def dest: set_zip_rightD)
  have lab: "a - e < w \<and> w < a + e" if l: "w \<in> W" for w
  proof -
    obtain t where t: "(t, Some w) \<in> set (zip ts ?R)" "a \<le> t" "t < a + e" using l by (auto simp: W_def F_def)
    have "w \<le> t \<and> t < w + e"
    proof (cases ts)
      case (Cons u us)
      have "w \<le> t \<and> t < w + e \<and> (w = u \<or> u + e \<le> w)" if "(t, Some w) \<in> set (zip us (fixed_run m e (Some (u, 1)) us))"
        using fixed_labels [OF assms(1) _ _ that] assms(3) Cons by simp
      then show ?thesis using t(1) assms(1) Cons by auto
    qed (use t in simp)
    then show ?thesis using t(2,3) by linarith
  qed
  have sep: "w = w' \<or> w + e \<le> w' \<or> w' + e \<le> w" if "w \<in> W" "w' \<in> W" for w w'
    by (rule fixed_separated [OF assms(1,3) _ in_run [OF that(1)] in_run [OF that(2)]]) simp
  have "card W \<le> 2" using three_apart [OF fin] lab sep by blast
  then have two: "card (set F) \<le> 2" by (simp add: S card_image)
  have c: "int (count_list F x) \<le> m" for x
  proof (cases x)
    case None
    then show ?thesis using none assms(2) by (simp add: count_list_0_iff [THEN iffD2])
  next
    case (Some w)
    have "count_list F x \<le> count_list ?R x" unfolding F_def by (rule count_filter_zip) simp
    moreover have "int (count_list ?R x) \<le> m" using fixed_count [OF assms, of None w] assms(2) Some by simp
    ultimately show ?thesis by linarith
  qed
  have "int (length F) \<le> int (card (set F)) * m" by (rule length_by_counts) (rule c)
  also have "\<dots> \<le> 2 * m" by (rule mult_right_mono) (use two assms(2) in simp_all)
  finally show ?thesis by (simp add: F_def)
qed

text \<open>C28: (The sliding window.) The limiter behaves as a fixed window: a window of as many seconds as the configured burst opens with a
  request and admits the configured number of requests per second, in total; the weighted count of the previous window is
  always zero. So an interval as long as a window admits up to twice the limit, and never more.\<close>

theorem sliding_window_is_fixed:
  assumes "1 \<le> mx" and "sorted ts" and "\<forall>t\<in>set ts. 0 \<le> t" and "e = (if burst \<le> 0 then mx else burst)"
  shows "sl_run (newSlidingWindowLimiter mx burst) ts = map (\<lambda>w. w \<noteq> None) (fixed_run mx e None ts) \<and>
    int (length (filter (\<lambda>(t, ok). ok \<and> a \<le> t \<and> t < a + e) (zip ts (sl_run (newSlidingWindowLimiter mx burst) ts)))) \<le> 2 * mx"
proof -
  have e: "1 \<le> e" using assms(1,4) by auto
  have "fixed_ok mx e (newSlidingWindowLimiter mx burst) None" using assms(4) by (simp add: newSlidingWindowLimiter_def)
  then have run: "sl_run (newSlidingWindowLimiter mx burst) ts = map (\<lambda>w. w \<noteq> None) (fixed_run mx e None ts)"
    by (rule sl_run_fixed [OF assms(1) e _ assms(3)])
  have "length (filter (\<lambda>(t, ok). ok \<and> a \<le> t \<and> t < a + e) (zip xs (map (\<lambda>w. w \<noteq> None) ws))) =
      length (filter (\<lambda>(t, w). w \<noteq> None \<and> a \<le> t \<and> t < a + e) (zip xs ws))" for xs :: "int list" and ws :: "int option list"
    by (simp add: zip_map2 filter_map o_def split_def)
  then show ?thesis using fixed_interval [OF e assms(1,2), of a] unfolding run by simp
qed

text \<open>Three requests in ten seconds, and five of them within two seconds at the end of a window.\<close>

theorem sliding_window_is_fixed_witness:
  "sl_run (newSlidingWindowLimiter 3 10) [1, 10, 10, 10, 11, 11, 11, 11] = [True, True, True, False, True, True, True, False]"
  using sliding_window_is_fixed [of 3 "[1, 10, 10, 10, 11, 11, 11, 11]" 10 10 10] by simp

section \<open>The store of limiters\<close>

text \<open>The token bucket of \<open>golang.org/x/time/rate\<close>, from requests per second or from an interval.\<close>

record 'x xrate =
  xr_NewLimiter :: "int \<Rightarrow> int \<Rightarrow> 'x"
  xr_Every :: "int \<Rightarrow> int \<Rightarrow> 'x"
  xr_AllowN :: "'x \<Rightarrow> int \<Rightarrow> int \<Rightarrow> bool \<times> 'x"
  xr_Tokens :: "'x \<Rightarrow> int \<Rightarrow> rat"

datatype 'x limiter = Sliding slidingWindowLimiter | XRate 'x int | RedisLim "'x TokenLimiter"

text \<open>What one operation reads: the clock in nanoseconds, the time of the Redis server and the fate of the command.\<close>

record rl_env =
  rl_now :: int
  rl_server :: int
  rl_fate :: fate

definition Unix :: "int \<Rightarrow> int" where
  "Unix now = now div 1000000000"

fun lim_Allow :: "'r redis_ops \<Rightarrow> 'x xrate \<Rightarrow> rl_env \<Rightarrow> 'x limiter \<Rightarrow> 'r \<Rightarrow> bool \<times> 'x limiter \<times> 'r" where
  "lim_Allow ops x env (Sliding l) r = (case sl_Allow (Unix (rl_now env)) l of (ok, l') \<Rightarrow> (ok, Sliding l', r))"
| "lim_Allow ops x env (XRate l owed) r = (if owed > 0 then (True, XRate l (owed - 1), r)
     else case xr_AllowN x l (rl_now env) 1 of (ok, l') \<Rightarrow> (ok, XRate l' owed, r))"
| "lim_Allow ops x env (RedisLim l) r = (case Allow ops (xr_AllowN x) l r (rl_server env) (rl_fate env) (Unix (rl_now env)) of
     (ok, l', r') \<Rightarrow> (ok, RedisLim l', r'))"


fun lim_Cancel :: "'x limiter \<Rightarrow> 'x limiter" where
  "lim_Cancel (Sliding l) = Sliding (sl_Cancel l)"
| "lim_Cancel (XRate l owed) = XRate l (owed + 1)"
| "lim_Cancel (RedisLim l) = RedisLim l"

record RateLimitEntry =
  RequestsPerSecond :: int
  Burst :: int
  entry_TTL :: int

record ('x, 'r) rateLimiterStore =
  lims :: "'x limiter list"
  rl_global :: "nat option"
  perIP :: "(string, nat \<times> int) gomap"
  perUser :: "(string, nat \<times> int) gomap"
  perKey :: "(string, nat \<times> int) gomap"
  rl_rdb :: bool
  rl_alg :: string
  rl_ttl :: int
  gcTick :: int
  rl_redis :: 'r

definition newRateLimiterStore :: "string \<Rightarrow> int \<Rightarrow> bool \<Rightarrow> 'r \<Rightarrow> ('x, 'r) rateLimiterStore" where
  "newRateLimiterStore alg ttl rdb r = \<lparr>lims = [], rl_global = None, perIP = [], perUser = [], perKey = [], rl_rdb = rdb,
     rl_alg = alg, rl_ttl = ttl, gcTick = (if ttl \<le> 0 then 300000000000 else ttl), rl_redis = r\<rparr>"



definition newLimiter :: "'x xrate \<Rightarrow> string \<Rightarrow> RateLimitEntry \<Rightarrow> bool \<Rightarrow> string \<Rightarrow> panic + 'x limiter" where
  "newLimiter x key entry rdb alg =
     (if rdb then (case NewTokenLimiter (xr_Every x) (RequestsPerSecond entry) (Burst entry) key of Inl p \<Rightarrow> Inl p | Inr l \<Rightarrow> Inr (RedisLim l))
      else if alg = ''sliding_window'' then Inr (Sliding (newSlidingWindowLimiter (RequestsPerSecond entry) (Burst entry)))
      else Inr (XRate (xr_NewLimiter x (RequestsPerSecond entry) (Burst entry)) 0))"

text \<open>The switch on the prefix chooses the map: every prefix but those of addresses and keys shares the map of users.\<close>

definition prefix_map :: "string \<Rightarrow> ('x, 'r) rateLimiterStore \<Rightarrow> (string, nat \<times> int) gomap" where
  "prefix_map pfx s = (if pfx = ''ip'' then perIP s else if pfx = ''key'' \<or> pfx = ''entry_key'' then perKey s else perUser s)"

definition put_prefix_map :: "string \<Rightarrow> (string, nat \<times> int) gomap \<Rightarrow> ('x, 'r) rateLimiterStore \<Rightarrow> ('x, 'r) rateLimiterStore" where
  "put_prefix_map pfx m s = (if pfx = ''ip'' then s\<lparr>perIP := m\<rparr> else if pfx = ''key'' \<or> pfx = ''entry_key'' then s\<lparr>perKey := m\<rparr> else s\<lparr>perUser := m\<rparr>)"

definition getOrCreateLimiter :: "'x xrate \<Rightarrow> ('x, 'r) rateLimiterStore \<Rightarrow> string \<Rightarrow> string \<Rightarrow> RateLimitEntry \<Rightarrow> int \<Rightarrow> panic + nat \<times> ('x, 'r) rateLimiterStore" where
  "getOrCreateLimiter x s pfx key entry now =
     (let m = prefix_map pfx s;
          create = (case newLimiter x (''sdk:rl:'' @ pfx @ '':'' @ key) entry (rl_rdb s) (rl_alg s) of
            Inl p \<Rightarrow> Inl p
          | Inr l \<Rightarrow> let ttl = (if entry_TTL entry \<le> 0 then rl_ttl s else entry_TTL entry);
                        expiresAt = (if ttl > 0 then now + ttl else 0);
                        ref = length (lims s)
                    in Inr (ref, put_prefix_map pfx (gm_set key (ref, expiresAt) (gm_del key m)) (s\<lparr>lims := lims s @ [l]\<rparr>)))
      in case gm_get m key of
           Some (ref, expiresAt) \<Rightarrow> if expiresAt = 0 \<or> now < expiresAt then Inr (ref, s) else create
         | None \<Rightarrow> create)"

definition allow_at :: "'r redis_ops \<Rightarrow> 'x xrate \<Rightarrow> rl_env \<Rightarrow> nat \<Rightarrow> ('x, 'r) rateLimiterStore \<Rightarrow> bool \<times> ('x, 'r) rateLimiterStore" where
  "allow_at ops x env ref s = (case lim_Allow ops x env (lims s ! ref) (rl_redis s) of
     (ok, l, r) \<Rightarrow> (ok, s\<lparr>lims := (lims s)[ref := l], rl_redis := r\<rparr>))"

section \<open>The middleware before authentication\<close>

record RateLimitConfig =
  cfg_Global :: "RateLimitEntry option"
  cfg_PerIP :: "RateLimitEntry option"
  cfg_Algorithm :: string
  cfg_TTL :: int
  SkipFailedRequests :: bool
  SkipSuccessfulRequests :: bool
  cfg_redis :: bool

definition algorithm :: "string \<Rightarrow> string" where
  "algorithm alg = (if alg = [] then ''sliding_window'' else alg)"








text \<open>After the chain has run: requests that are not to be counted give their tokens back.\<close>

definition shouldSkipRequest :: "RateLimitConfig \<Rightarrow> int option \<Rightarrow> bool" where
  "shouldSkipRequest cfg response = (if SkipFailedRequests cfg \<or> SkipSuccessfulRequests cfg
     then (case response of None \<Rightarrow> False | Some code \<Rightarrow> (SkipFailedRequests cfg \<and> code \<ge> 400) \<or> (SkipSuccessfulRequests cfg \<and> code < 400))
     else False)"

definition cancelUsed :: "nat list \<Rightarrow> ('x, 'r) rateLimiterStore \<Rightarrow> ('x, 'r) rateLimiterStore" where
  "cancelUsed used s = s\<lparr>lims := fold (\<lambda>ref ls. ls[ref := lim_Cancel (ls ! ref)]) used (lims s)\<rparr>"

definition RateLimit_after :: "RateLimitConfig \<Rightarrow> nat list \<Rightarrow> bool \<Rightarrow> int option \<Rightarrow> ('x, 'r) rateLimiterStore \<Rightarrow> ('x, 'r) rateLimiterStore" where
  "RateLimit_after cfg used failed response s =
     (if used \<noteq> [] \<and> \<not> failed \<and> shouldSkipRequest cfg response then cancelUsed used s else s)"

section \<open>The middleware after authentication\<close>

record AuthContext =
  UserID :: string
  auth_Roles :: "string list"
  RawToken :: string

text \<open>What the handlers read of a request: the subject in the claims, the authentication, and what \<open>MaxFunc\<close> gives when it is set.\<close>

record rl_ctx =
  ctx_sub :: "string option"
  ctx_auth :: "AuthContext option"
  ctx_max :: "int option"

record RateLimitPostConfig =
  ServerPerUser :: "RateLimitEntry option"
  ServerPerKey :: "RateLimitEntry option"
  EntryPerUser :: "RateLimitEntry option"
  EntryPerKey :: "RateLimitEntry option"
  PerRoleLimits :: "(string, RateLimitEntry option) gomap"
  post_Algorithm :: string
  post_TTL :: int
  post_redis :: bool

definition extractUserID :: "rl_ctx \<Rightarrow> string" where
  "extractUserID c = (case ctx_sub c of Some sub \<Rightarrow> sub | None \<Rightarrow> (case ctx_auth c of Some auth \<Rightarrow> UserID auth | None \<Rightarrow> []))"

definition extractKeyID :: "rl_ctx \<Rightarrow> string" where
  "extractKeyID c = (case ctx_auth c of Some auth \<Rightarrow> if RawToken auth = [] then UserID auth else [] | None \<Rightarrow> [])"

definition resolvePostEntry :: "RateLimitEntry option \<Rightarrow> rl_ctx \<Rightarrow> RateLimitEntry option" where
  "resolvePostEntry entry c = (case entry of
     None \<Rightarrow> None
   | Some e \<Rightarrow> (case ctx_max c of
       Some m \<Rightarrow> if m > 0 then Some \<lparr>RequestsPerSecond = m, Burst = m, entry_TTL = entry_TTL e\<rparr> else Some e
     | None \<Rightarrow> Some e))"

definition limited :: "'r redis_ops \<Rightarrow> 'x xrate \<Rightarrow> rl_env \<Rightarrow> rl_env \<Rightarrow> string \<Rightarrow> string \<Rightarrow> RateLimitEntry \<Rightarrow> ('x, 'r) rateLimiterStore \<Rightarrow>
    panic + bool \<times> ('x, 'r) rateLimiterStore" where
  "limited ops x env env' pfx key entry s = (case getOrCreateLimiter x s pfx key entry (rl_now env) of
     Inl p \<Rightarrow> Inl p
   | Inr (ref, s1) \<Rightarrow> (case allow_at ops x env' ref s1 of (ok, s2) \<Rightarrow> Inr (\<not> ok, s2)))"

definition checkPostLimitWithCancel :: "'r redis_ops \<Rightarrow> 'x xrate \<Rightarrow> rl_ctx \<Rightarrow> rl_env \<Rightarrow> rl_env \<Rightarrow> RateLimitEntry option \<Rightarrow> string \<Rightarrow> (rl_ctx \<Rightarrow> string) \<Rightarrow>
    ('x, 'r) rateLimiterStore \<Rightarrow> panic + bool \<times> ('x, 'r) rateLimiterStore" where
  "checkPostLimitWithCancel ops x c env env' entry pfx extract s = (case resolvePostEntry entry c of
     None \<Rightarrow> Inr (False, s)
   | Some e \<Rightarrow> if RequestsPerSecond e \<le> 0 \<or> extract c = [] then Inr (False, s) else limited ops x env env' pfx (extract c) e s)"

fun check_roles :: "'r redis_ops \<Rightarrow> 'x xrate \<Rightarrow> (string, RateLimitEntry option) gomap \<Rightarrow> (nat \<Rightarrow> rl_env) \<Rightarrow> nat \<Rightarrow> string list \<Rightarrow>
    ('x, 'r) rateLimiterStore \<Rightarrow> panic + bool \<times> ('x, 'r) rateLimiterStore" where
  "check_roles ops x limits env i [] s = Inr (False, s)"
| "check_roles ops x limits env i (role # roles) s = (case gm_get limits role of
     Some (Some entry) \<Rightarrow> if RequestsPerSecond entry > 0
       then (case limited ops x (env i) (env (i + 1)) ''role'' role entry s of
           Inl p \<Rightarrow> Inl p
         | Inr (True, s') \<Rightarrow> Inr (True, s')
         | Inr (False, s') \<Rightarrow> check_roles ops x limits env (i + 2) roles s')
       else check_roles ops x limits env (i + 2) roles s
   | _ \<Rightarrow> check_roles ops x limits env (i + 2) roles s)"

definition checkRoleLimitsWithCancel :: "'r redis_ops \<Rightarrow> 'x xrate \<Rightarrow> rl_ctx \<Rightarrow> (string, RateLimitEntry option) gomap \<Rightarrow> (nat \<Rightarrow> rl_env) \<Rightarrow> nat \<Rightarrow>
    ('x, 'r) rateLimiterStore \<Rightarrow> panic + bool \<times> ('x, 'r) rateLimiterStore" where
  "checkRoleLimitsWithCancel ops x c limits env i s = (if limits = [] then Inr (False, s)
     else case ctx_auth c of None \<Rightarrow> Inr (False, s) | Some auth \<Rightarrow> check_roles ops x limits env i (auth_Roles auth) s)"

text \<open>The checks in their order; the first that blocks ends them. The result says whether the request is blocked.\<close>

definition then_check :: "panic + bool \<times> 's \<Rightarrow> ('s \<Rightarrow> panic + bool \<times> 's) \<Rightarrow> panic + bool \<times> 's" where
  "then_check r f = (case r of Inl p \<Rightarrow> Inl p | Inr (blocked, s) \<Rightarrow> if blocked then Inr (True, s) else f s)"

definition RateLimitPost :: "'r redis_ops \<Rightarrow> 'x xrate \<Rightarrow> RateLimitPostConfig \<Rightarrow> rl_ctx \<Rightarrow> (nat \<Rightarrow> rl_env) \<Rightarrow> ('x, 'r) rateLimiterStore \<Rightarrow>
    panic + bool \<times> ('x, 'r) rateLimiterStore" where
  "RateLimitPost ops x cfg c env s =
     then_check (then_check (then_check (then_check
       (checkPostLimitWithCancel ops x c (env 0) (env 1) (ServerPerUser cfg) ''user'' extractUserID s)
       (checkPostLimitWithCancel ops x c (env 2) (env 3) (ServerPerKey cfg) ''key'' extractKeyID))
       (checkRoleLimitsWithCancel ops x c (PerRoleLimits cfg) env 8))
       (checkPostLimitWithCancel ops x c (env 4) (env 5) (EntryPerUser cfg) ''entry_user'' extractUserID))
       (checkPostLimitWithCancel ops x c (env 6) (env 7) (EntryPerKey cfg) ''entry_key'' extractKeyID)"

subsection \<open>Clients are limited apart\<close>





fun is_local :: "'x limiter \<Rightarrow> bool" where
  "is_local (RedisLim l) = False"
| "is_local _ = True"




lemma newLimiter_local: "\<exists>l. \<forall>key. newLimiter x key entry False alg = Inr l \<and> is_local l"
  by (simp add: newLimiter_def)






text \<open>For the witnesses: sliding windows need neither Redis nor a token bucket.\<close>

definition no_xrate :: "unit xrate" where
  "no_xrate = \<lparr>xr_NewLimiter = (\<lambda>_ _. ()), xr_Every = (\<lambda>_ _. ()), xr_AllowN = (\<lambda>l _ _. (False, l)), xr_Tokens = (\<lambda>_ _. 0)\<rparr>"

definition at_second :: "int \<Rightarrow> nat \<Rightarrow> rl_env" where
  "at_second t i = \<lparr>rl_now = t * 1000000000, rl_server = t, rl_fate = Delivered\<rparr>"



subsection \<open>One limiter for two limits\<close>

fun post_run :: "'r redis_ops \<Rightarrow> 'x xrate \<Rightarrow> RateLimitPostConfig \<Rightarrow> rl_ctx \<Rightarrow> (nat \<Rightarrow> rl_env) list \<Rightarrow> ('x, 'r) rateLimiterStore \<Rightarrow> panic + bool list" where
  "post_run ops x cfg c [] s = Inr []"
| "post_run ops x cfg c (env # envs) s = (case RateLimitPost ops x cfg c env s of
     Inl p \<Rightarrow> Inl p
   | Inr (blocked, s') \<Rightarrow> (case post_run ops x cfg c envs s' of Inl p \<Rightarrow> Inl p | Inr bs \<Rightarrow> Inr (blocked # bs)))"

definition post_store :: "RateLimitPostConfig \<Rightarrow> 'r \<Rightarrow> ('x, 'r) rateLimiterStore" where
  "post_store cfg r = newRateLimiterStore (algorithm (post_Algorithm cfg)) (post_TTL cfg) (post_redis cfg) r"

text \<open>The store after \<open>h\<close> requests have been counted for the user, in the window that opened at second \<open>T\<close>.\<close>

definition counted :: "RateLimitPostConfig \<Rightarrow> 'r \<Rightarrow> string \<Rightarrow> int \<Rightarrow> int \<Rightarrow> int \<Rightarrow> int \<Rightarrow> ('x, 'r) rateLimiterStore" where
  "counted cfg r u T m e h = (post_store cfg r)\<lparr>
     lims := [Sliding \<lparr>prevHits = 0, currHits = h, windowExp = T + e, sl_max = m, expiration = e\<rparr>], perUser := [(u, 0, 0)]\<rparr>"

lemma counted_check:
  assumes "Unix (rl_now env') = T" "0 \<le> T" "1 \<le> e" "pfx = ''user'' \<or> pfx = ''entry_user''"
  shows "limited ops x env env' pfx u entry (counted cfg r u T m e h) =
    Inr (\<not> h < m, counted cfg r u T m e (if h < m then h + 1 else h))"
  using assms by (auto simp: limited_def getOrCreateLimiter_def Let_def prefix_map_def counted_def allow_at_def sl_Allow_def
      sl_rotate_def sl_rate_def post_store_def newRateLimiterStore_def)

lemma first_check:
  assumes "Unix (rl_now env') = T" "entry_TTL entry \<le> 0" "post_TTL cfg \<le> 0" "\<not> post_redis cfg" "algorithm (post_Algorithm cfg) = ''sliding_window''"
    "e = (if Burst entry \<le> 0 then RequestsPerSecond entry else Burst entry)"
  shows "limited ops x env env' ''user'' u entry (post_store cfg r) = Inr (False, counted cfg r u T (RequestsPerSecond entry) e 1)"
  using assms by (simp add: limited_def getOrCreateLimiter_def Let_def prefix_map_def put_prefix_map_def counted_def allow_at_def sl_Allow_def
      newLimiter_def newSlidingWindowLimiter_def post_store_def newRateLimiterStore_def)


lemma post_checks:
  assumes "ServerPerUser cfg = Some e1" "EntryPerUser cfg = Some e2" "ServerPerKey cfg = None" "EntryPerKey cfg = None" "PerRoleLimits cfg = []"
    "1 \<le> RequestsPerSecond e1" "1 \<le> RequestsPerSecond e2" "ctx_max c = None" "extractUserID c = u" "u \<noteq> []"
  shows "RateLimitPost ops x cfg c env s =
    then_check (limited ops x (env 0) (env 1) ''user'' u e1 s) (limited ops x (env 4) (env 5) ''entry_user'' u e2)"
proof -
  have skip: "then_check r (\<lambda>s. Inr (False, s)) = r" for r :: "panic + bool \<times> ('a, 'b) rateLimiterStore"
    by (auto simp: then_check_def split: sum.splits)
  have "checkPostLimitWithCancel ops x c a b None pfx get = (\<lambda>s. Inr (False, s))" for a b pfx get
    by (simp add: fun_eq_iff checkPostLimitWithCancel_def resolvePostEntry_def)
  moreover have "checkRoleLimitsWithCancel ops x c [] env i = (\<lambda>s. Inr (False, s))" for i by (simp add: fun_eq_iff checkRoleLimitsWithCancel_def)
  moreover have "checkPostLimitWithCancel ops x c a b (Some e) pfx extractUserID = limited ops x a b pfx u e" if "1 \<le> RequestsPerSecond e" for a b e pfx
    using that assms(8-10) by (auto simp: fun_eq_iff checkPostLimitWithCancel_def resolvePostEntry_def)
  ultimately show ?thesis using assms(1-7) by (simp add: RateLimitPost_def skip)
qed

lemma post_run_counted:
  assumes step: "\<And>env h. env \<in> set envs \<Longrightarrow> 0 \<le> h \<Longrightarrow> h \<le> m \<Longrightarrow> RateLimitPost ops x cfg c env (st h) = Inr (\<not> h + 2 \<le> m, st (min m (h + 2)))"
  shows "0 \<le> h \<Longrightarrow> h \<le> (m :: int) \<Longrightarrow> post_run ops x cfg c envs (st h) = Inr (map (\<lambda>i. (m - h) div 2 \<le> int i) [0..<length envs])"
  using assms
proof (induction envs arbitrary: h)
  case (Cons env envs)
  have "post_run ops x cfg c envs (st (min m (h + 2))) = Inr (map (\<lambda>i. (m - min m (h + 2)) div 2 \<le> int i) [0..<length envs])"
    by (rule Cons.IH) (use Cons.prems in auto)
  moreover have "(m - min m (h + 2)) div 2 \<le> int i \<longleftrightarrow> (m - h) div 2 \<le> int (Suc i)" for i using Cons.prems(1,2) by (auto simp: min_def)
  moreover have "(\<not> h + 2 \<le> m) \<longleftrightarrow> (m - h) div 2 \<le> int 0" using Cons.prems(2) by auto
  moreover have "[0..<length (env # envs)] = 0 # map Suc [0..<length envs]" by (simp add: map_Suc_upt upt_conv_Cons del: upt_Suc)
  ultimately show ?case using Cons.prems(3) [of env h] Cons.prems(1,2) by (simp add: o_def del: upt_Suc)
qed simp

text \<open>C40: (Shared limits.) When both the server and the entry limit requests per user, the two checks use the same limiter, created from
  the limit of the server: the limits share one map and the key does not tell them apart. So every request counts twice. In a
  window exactly half of the requests that the server's limit allows are admitted, and the limit of the entry has no effect.\<close>

theorem user_limits_share_one:
  fixes ops :: "'r redis_ops" and x :: "'x xrate"
  assumes "ServerPerUser cfg = Some e1" and "EntryPerUser cfg = Some e2" and "ServerPerKey cfg = None" and "EntryPerKey cfg = None"
    and "PerRoleLimits cfg = []" and "1 \<le> RequestsPerSecond e1" and "1 \<le> RequestsPerSecond e2" and "entry_TTL e1 \<le> 0" and "post_TTL cfg \<le> 0"
    and "\<not> post_redis cfg" and "algorithm (post_Algorithm cfg) = ''sliding_window''" and "ctx_max c = None" and "extractUserID c \<noteq> []"
    and "0 \<le> T" and "\<forall>env\<in>set envs. \<forall>i. Unix (rl_now (env i)) = T"
  shows "post_run ops x cfg c envs (post_store cfg r) = Inr (map (\<lambda>i. RequestsPerSecond e1 div 2 \<le> int i) [0..<length envs])"
proof -
  let ?m = "RequestsPerSecond e1" and ?u = "extractUserID c"
  define e where "e = (if Burst e1 \<le> 0 then ?m else Burst e1)"
  have e: "1 \<le> e" using assms(6) by (auto simp: e_def)
  define st :: "int \<Rightarrow> ('x, 'r) rateLimiterStore" where "st h = (if h = 0 then post_store cfg r else counted cfg r ?u T ?m e h)" for h
  note post = post_checks [OF assms(1-7) assms(12) refl assms(13)]
  note check = counted_check [OF _ assms(14) e]
  have step: "RateLimitPost ops x cfg c env (st h) = Inr (\<not> h + 2 \<le> ?m, st (min ?m (h + 2)))" if "env \<in> set envs" "0 \<le> h" "h \<le> ?m" for env h
  proof -
    have t: "Unix (rl_now (env i)) = T" for i using assms(15) that(1) by blast
    have again: "limited ops x a (env i) pfx ?u en (st k) = Inr (\<not> k < ?m, st (if k < ?m then k + 1 else k))"
      if "1 \<le> k" "pfx = ''user'' \<or> pfx = ''entry_user''" for a i pfx en k
    proof -
      have "limited ops x a (env i) pfx ?u en (counted cfg r ?u T ?m e k) = Inr (\<not> k < ?m, counted cfg r ?u T ?m e (if k < ?m then k + 1 else k))"
        by (rule check [OF t that(2)])
      then show ?thesis using that(1) by (simp add: st_def)
    qed
    have "limited ops x (env 0) (env 1) ''user'' ?u e1 (st h) = Inr (\<not> h < ?m, st (if h < ?m then h + 1 else h))"
    proof (cases "h = 0")
      case True
      then show ?thesis using first_check [OF t assms(8-11) e_def] assms(6) by (simp add: st_def)
    next
      case False
      then show ?thesis using again [of h] that(2) by simp
    qed
    moreover have "limited ops x (env 4) (env 5) ''entry_user'' ?u e2 (st k) = Inr (\<not> k < ?m, st (if k < ?m then k + 1 else k))" if "1 \<le> k" for k
      using again [OF that] by blast
    ultimately show ?thesis using that(2,3) unfolding post then_check_def by (auto simp: min_def intro!: arg_cong [where f = st])
  qed
  have "post_run ops x cfg c envs (st 0) = Inr (map (\<lambda>i. (?m - 0) div 2 \<le> int i) [0..<length envs])"
    by (rule post_run_counted [OF step]) (use assms(6) in auto)
  then show ?thesis by (simp add: st_def)
qed

definition two_limits :: RateLimitPostConfig where
  "two_limits = \<lparr>ServerPerUser = Some \<lparr>RequestsPerSecond = 5, Burst = 0, entry_TTL = 0\<rparr>, ServerPerKey = None,
     EntryPerUser = Some \<lparr>RequestsPerSecond = 100, Burst = 0, entry_TTL = 0\<rparr>, EntryPerKey = None, PerRoleLimits = [],
     post_Algorithm = [], post_TTL = 0, post_redis = False\<rparr>"

theorem user_limits_share_one_witness:
  "post_run map_redis no_xrate two_limits \<lparr>ctx_sub = Some ''u'', ctx_auth = None, ctx_max = None\<rparr>
     [at_second 7, at_second 7, at_second 7, at_second 7] (post_store two_limits []) = Inr [False, False, True, True]"
  using user_limits_share_one [of two_limits "\<lparr>RequestsPerSecond = 5, Burst = 0, entry_TTL = 0\<rparr>" "\<lparr>RequestsPerSecond = 100, Burst = 0, entry_TTL = 0\<rparr>"
    "\<lparr>ctx_sub = Some ''u'', ctx_auth = None, ctx_max = None\<rparr>" 7 "[at_second 7, at_second 7, at_second 7, at_second 7]" map_redis no_xrate "[]"]
  by (simp add: two_limits_def algorithm_def extractUserID_def at_second_def Unix_def upt_rec)

end
