(* ===== verification/Spec2Isabelle.thy ===== *)
theory Spec2Isabelle
  imports Consistent_Hash Kv_Job_Store Adaptive_Shedder Rate_Limit Bloom_Filter Periodical_Executor Aes_Ecb Keyword_Trie Lru_Cache Route_Tree Auth_Role Fifo_Queue Safe_Map Memory_Store Circuit_Breaker Async_Job Sql_Query Single_Flight Sharded_Store Http_Rate_Limit
begin

text \<open>
  A verification of the core algorithms and concurrency protocols of the sdk-api service runtime, a Go program. The
  theories of this directory translate the Go sources under \<open>src/\<close> into executable definitions and prove what makes each
  component correct. This theory collects them.

  \<^bold>\<open>The program.\<close> The runtime serves HTTP and gRPC requests through a chain of middleware, runs long requests as
  asynchronous jobs, rewrites SQL for several databases, and rests on a library of infrastructure packages (\<open>src/infra\<close>):
  collections, caches, limiters, breakers, executors, hashing, search. Requests reach a handler through the route tree, the
  role check, the breaker, the load shedder and the limiters; handlers use the job manager, the caches and the stores.

  \<^bold>\<open>How Go is modelled.\<close> Theories \<open>Go_Prelude\<close>, \<open>Go_Strings\<close> and \<open>Go_Time\<close> hold what the components share:
  \<^item> Strings and byte slices are lists of characters, runes are numbers; Go maps are association lists (\<open>gomap\<close>) whose order
    stands for the unspecified order of \<open>range\<close>; integers are \<open>int\<close> with Go's truncating division (\<open>go_quot\<close>, \<open>go_rem\<close>), and
    words where the width matters; floating-point numbers are exact rationals.
  \<^item> Structures are records, enumerations datatypes; pointers that are shared are indices into an explicit heap.
  \<^item> Methods take the state and return it updated. A panic is a value of type \<open>panic\<close> on the left of a sum, an error a value of
    a datatype or an option. Readings of the clock, random draws and answers of remote services are arguments.
  \<^item> Operations under a mutex are atomic; where the code interleaves, the goroutines are steps of an inductive relation and
    the theorems hold for every interleaving.
  \<^item> Code outside \<open>src/\<close> (Redis, NATS, ciphers, hash functions, the HTTP framework) is a parameter of the definitions, and what
    the code relies on is a named hypothesis (\<open>redis_laws\<close>, \<open>bit_laws\<close>, \<open>kv_laws\<close>, \<open>scan_law\<close>, \<open>no_clash\<close>,
    \<open>conn_laws\<close>, \<open>json_laws\<close>, \<open>implements\<close>), which the witnesses instantiate.

  \<^bold>\<open>The theories.\<close>
  \<^item> \<open>Auth_Role\<close>: \<open>src/runtime/auth\<close>: role inheritance, permission patterns, password strength. A
    role check decides reachability.
  \<^item> \<open>Fifo_Queue\<close>, \<open>Safe_Map\<close>, \<open>Rolling_Window\<close>, \<open>Timing_Wheel\<close>,
    \<open>Lru_Cache\<close>: \<open>src/infra/collection\<close>: the queue is first-in first-out across growth, the two-map
    \<open>SafeMap\<close> is a map, the window holds exactly the last intervals, the wheel fires every timer at its tick, the
    cache is bounded and its entries expire on time.
  \<^item> \<open>Memory_Store\<close>: \<open>src/infra/stores/memory\<close>: entries are visible exactly until they expire, with
    the collector interleaved.
  \<^item> \<open>Google_Breaker\<close>, \<open>Circuit_Breaker\<close>: \<open>src/infra/breaker\<close> and the breaker
    middleware: rejections only under failure, and what the route sees.
  \<^item> \<open>Adaptive_Shedder\<close>: \<open>src/infra/load\<close> and its middleware: requests are rejected exactly under
    load and above the measured capacity.
  \<^item> \<open>Job_Store\<close>, \<open>Kv_Job_Store\<close>, \<open>Async_Job\<close>: \<open>src/runtime/async_*.go\<close>:
    three stores with one contract, and the job manager with its workers, subscribers and callbacks in every interleaving.
  \<^item> \<open>Sql_Query\<close>: \<open>src/db/query.go\<close>: rewriting keeps the binding of every argument; the translated
    upserts agree.
  \<^item> \<open>Route_Tree\<close>: \<open>src/infra/search\<close>: search finds exactly a matching route with its parameters.
  \<^item> \<open>Aes_Ecb\<close>: \<open>src/infra/codec/aesecb.go\<close>: decryption inverts encryption, with padding and base64.
  \<^item> \<open>Keyword_Trie\<close>: \<open>src/infra/stringx\<close>: the Aho-Corasick automaton reports exactly the occurrences;
    replacement is leftmost-longest.
  \<^item> \<open>Rate_Limit\<close>: \<open>src/infra/limit\<close> with its Lua scripts: the token bucket bound, the exact window
    quota, the rescue mode ends.
  \<^item> \<open>Bloom_Filter\<close>: \<open>src/infra/bloom\<close> with its Lua scripts: no false negatives.
  \<^item> \<open>Periodical_Executor\<close>: \<open>src/infra/executors\<close>: every task is executed exactly once, and no thread
    is stuck.
  \<^item> \<open>Consistent_Hash\<close>: \<open>src/infra/hash\<close>: lookups follow the circle, few values move, and clashing
    names break the ring.
  \<^item> \<open>Single_Flight\<close>: \<open>src/infra/syncx/singleflight.go\<close> and \<open>resourcemanager.go\<close>: any
    number of goroutines in \<open>Do\<close> as an interleaving of steps; at most one function runs per key, what is shared
    is right, nobody blocks for good, and the resource of a key is created once.
  \<^item> \<open>Jitter\<close>, \<open>Cache_Node\<close>: \<open>src/infra/mathx/unstable.go\<close> and
    \<open>src/infra/stores/cache\<close>: the cache in front of a database, its single flight and its retried deletions; how
    stale an answer can be, and what the cache saves.
  \<^item> \<open>Sharded_Store\<close>: \<open>src/infra/stores/kv/store.go\<close> and
    \<open>src/infra/stores/cache/cache.go\<close>: stores spread over nodes by the consistent hash do what one store does.
  \<^item> \<open>Http_Rate_Limit\<close>: \<open>src/server/middleware/limiter_sliding.go\<close> and \<open>rate_limit.go\<close>:
    the rate limiters of the HTTP server; the sliding window is a fixed one, clients are limited apart, and two limits for a
    user share one limiter.

  \<^bold>\<open>Interfaces.\<close> The contracts between components are locales, interpreted on the model's own definitions: \<open>bucket_ops\<close> (a
  bucket of the rolling window; the counting bucket and the bucket of the breaker), \<open>job_store\<close> (a table of jobs; the in-memory,
  the Redis and the NATS store), \<open>task_container\<close> (the container of an executor; bulk and chunk), \<open>eviction_policy\<close> (the
  policy of the cache) and \<open>flight_client\<close> (a function run through the single flight; \<open>Take\<close> of the cache).

  \<^bold>\<open>Loops and bounds.\<close> Loops are structural recursion, \<open>fold\<close>, or \<open>function\<close> with a termination proof. Fuel is used in the
  keyword automaton (following failure links and the breadth-first construction): the number of nodes is enough, and the
  theorems state that the result exists. The role search recurses over a visited list and terminates because it grows.
  Iterations over a remote service (\<open>page_loop\<close>) return \<^const>\<open>None\<close> when the service never ends them; the laws say it does.

  \<^bold>\<open>Not modelled.\<close>
  \<^item> Wrappers that only call a third-party client: the Redis (but for four commands), MongoDB, etcd, NATS and Kafka clients, the SQL drivers, tracing,
    metrics, profiling, the HTTP and gRPC servers, TLS, OpenFGA, Ory and Zitadel. They have no logic of their own beyond the call.
  \<^item> Reflection: configuration loading and the mapping (un)marshaler depend on Go's run-time types; the generated OpenAPI and
    GraphQL documents are formatting over them.
  \<^item> The command line, the example applications and generated protobuf code.
  \<^item> Logging and statistics output, which no modelled behaviour depends on.
  \<^item> Data races of plain memory: what the sources protect with a mutex or an atomic is taken as atomic.
\<close>

end
